(* ===== verification/Prelude.thy ===== *)
theory Prelude
  imports Complex_Main "HOL-Library.Word"
begin

text \<open>
  Shared vocabulary of the development: raw bytes, the failures of the C++ code as values,
  the monadic bind over them, and the \<open>std::memcpy\<close> / \<open>std::array\<close> idioms that
  \<^verbatim>\<open>lib/newbee/dataElement.cpp\<close> is built from, with the list lemmas every component uses.
\<close>

named_theorems mem_simps \<open>equations of the memory idioms\<close>
named_theorems wf_intros \<open>well-formedness of the records of the wire format\<close>

section \<open>Bytes\<close>

text \<open>\<open>char\<close> and \<open>std::byte\<close> are both eight bits wide; the code
  \<open>reinterpret_cast\<close>s freely between them, so one type serves for both.\<close>

type_synonym byte = char
type_synonym bytes = "char list"

abbreviation NUL :: byte where "NUL \<equiv> CHR 0x00"

abbreviation byte_val :: "byte \<Rightarrow> nat" where "byte_val c \<equiv> (of_char c :: nat)"

abbreviation byte_of :: "nat \<Rightarrow> byte" where "byte_of n \<equiv> (char_of n :: char)"

lemma byte_val_less [simp]: "byte_val c < 256"
  using of_char_mod_256 [of c, where ?'a = nat] by (metis mod_less_divisor zero_less_numeral)

lemma byte_of_val [simp]: "byte_of (byte_val c) = c"
  by simp

lemma byte_val_of: "n < 256 \<Longrightarrow> byte_val (byte_of n) = n"
  by (simp add: of_char_of take_bit_nat_eq_self_iff flip: take_bit_eq_mod)

section \<open>Failures as values\<close>

text \<open>The exceptions the code raises or lets through, the assertion failures that abort the
  process, and undefined behaviour, each as a constructor.\<close>

datatype cxx_error =
    Runtime_error string
  | Invalid_argument string
  | Out_of_range string
  | Length_error string
  | Json_parse_error nat
  | Json_type_error nat
  | Json_out_of_range nat
  | Zmq_error int
  | Assertion_failed string
  | Undefined_behaviour string

text \<open>\<open>catch (const std::exception&)\<close> stops the exceptions, and neither an abort nor
  undefined behaviour.\<close>

fun is_std_exception :: "cxx_error \<Rightarrow> bool" where
  "is_std_exception (Assertion_failed _) = False"
| "is_std_exception (Undefined_behaviour _) = False"
| "is_std_exception _ = True"

type_synonym 'a result = "cxx_error + 'a"

definition rbind :: "'a result \<Rightarrow> ('a \<Rightarrow> 'b result) \<Rightarrow> 'b result" where
  "rbind r f = (case r of Inl e \<Rightarrow> Inl e | Inr x \<Rightarrow> f x)"

lemma rbind_Inl [simp]: "rbind (Inl e) f = Inl e"
  by (simp add: rbind_def)

lemma rbind_Inr [simp]: "rbind (Inr x) f = f x"
  by (simp add: rbind_def)

lemma rbind_eq_Inr_iff: "rbind r f = Inr y \<longleftrightarrow> (\<exists>x. r = Inr x \<and> f x = Inr y)"
  by (cases r) auto

lemma rbind_assoc: "rbind (rbind r f) g = rbind r (\<lambda>x. rbind (f x) g)"
  by (cases r) auto

lemma rbind_cong [fundef_cong]:
  "r = r' \<Longrightarrow> (\<And>x. r' = Inr x \<Longrightarrow> f x = f' x) \<Longrightarrow> rbind r f = rbind r' f'"
  by (cases r') auto

section \<open>Code that may not return\<close>

datatype 'a run = Returns 'a | Throws cxx_error | Hangs

definition run_bind :: "'a run \<Rightarrow> ('a \<Rightarrow> 'b run) \<Rightarrow> 'b run" where
  "run_bind r f = (case r of Returns x \<Rightarrow> f x | Throws e \<Rightarrow> Throws e | Hangs \<Rightarrow> Hangs)"

lemma run_bind_simps [simp]:
  "run_bind (Returns x) f = f x" "run_bind (Throws e) f = Throws e" "run_bind Hangs f = Hangs"
  by (simp_all add: run_bind_def)

fun lift_run :: "'a result \<Rightarrow> 'a run" where
  "lift_run (Inr x) = Returns x"
| "lift_run (Inl e) = Throws e"

lemma run_bind_eq_Hangs: "run_bind r f = Hangs \<longleftrightarrow> r = Hangs \<or> (\<exists>x. r = Returns x \<and> f x = Hangs)"
  by (cases r) auto

lemma lift_run_not_Hangs [simp]: "lift_run r \<noteq> Hangs"
  by (cases r) simp_all

lemma lift_run_eq_Returns: "lift_run r = Returns x \<longleftrightarrow> r = Inr x"
  by (cases r) simp_all

lemma run_bind_eq_Returns: "run_bind r f = Returns y \<longleftrightarrow> (\<exists>x. r = Returns x \<and> f x = Returns y)"
  by (cases r) auto

section \<open>Fixed arrays and memcpy\<close>

text \<open>\<open>arr.fill('\0')\<close>.\<close>

definition zeros :: "nat \<Rightarrow> bytes" where
  "zeros n = replicate n NUL"

lemma length_zeros [simp]: "length (zeros n) = n"
  by (simp add: zeros_def)

text \<open>\<open>std::memcpy(dst.data(), src.data(), std::min(src.size(), dst.size()))\<close>: the prefix
  of the destination is overwritten, the rest keeps its old contents.\<close>

definition memcpy_min :: "bytes \<Rightarrow> bytes \<Rightarrow> bytes" where
  "memcpy_min dst src = take (length dst) src @ drop (length src) dst"

lemma length_memcpy_min [simp]: "length (memcpy_min dst src) = length dst"
  by (simp add: memcpy_min_def)

lemma memcpy_min_fits [mem_simps]:
  "length src \<le> length dst \<Longrightarrow> memcpy_min dst src = src @ drop (length src) dst"
  by (simp add: memcpy_min_def)

lemma memcpy_min_truncates [mem_simps]:
  "length dst \<le> length src \<Longrightarrow> memcpy_min dst src = take (length dst) src"
  by (simp add: memcpy_min_def)

lemma drop_zeros [simp]: "drop k (zeros n) = zeros (n - k)"
  by (simp add: zeros_def)

text \<open>A read of \<open>n\<close> bytes at an offset of raw memory. The pointer is modelled by the bytes
  that may be read from it; reading past them is undefined behaviour.\<close>

definition read_at :: "bytes \<Rightarrow> nat \<Rightarrow> nat \<Rightarrow> bytes result" where
  "read_at mem off n =
     (if off + n \<le> length mem then Inr (take n (drop off mem))
      else Inl (Undefined_behaviour ''out-of-bounds read''))"

text \<open>A write of \<open>src\<close> at an offset of raw memory, with the same reading of the pointer.\<close>

definition write_at :: "bytes \<Rightarrow> nat \<Rightarrow> bytes \<Rightarrow> bytes result" where
  "write_at mem off src =
     (if off + length src \<le> length mem
      then Inr (take off mem @ src @ drop (off + length src) mem)
      else Inl (Undefined_behaviour ''out-of-bounds write''))"

lemma length_write_at: "write_at mem off src = Inr mem' \<Longrightarrow> length mem' = length mem"
  by (auto simp: write_at_def split: if_splits)

lemma read_at_length: "read_at mem off n = Inr xs \<Longrightarrow> length xs = n"
  by (auto simp: read_at_def split: if_splits)

lemma read_at_append [mem_simps]:
  "length pre = off \<Longrightarrow> length xs = n \<Longrightarrow> read_at (pre @ xs @ post) off n = Inr xs"
  by (simp add: read_at_def)

lemma write_at_append [mem_simps]:
  "length pre = off \<Longrightarrow> length old = length xs \<Longrightarrow>
   write_at (pre @ old @ post) off xs = Inr (pre @ xs @ post)"
  by (simp add: write_at_def)

section \<open>NUL-padded text\<close>

text \<open>The bytes before the first NUL: what \<open>strnlen\<close>, \<open>s.find('\0')\<close> and a C string
  read of an array.\<close>

definition until_nul :: "bytes \<Rightarrow> bytes" where
  "until_nul bs = takeWhile (\<lambda>c. c \<noteq> NUL) bs"

lemma until_nul_Nil [simp]: "until_nul [] = []"
  by (simp add: until_nul_def)

lemma until_nul_no_nul [simp]: "NUL \<notin> set (until_nul bs)"
  by (auto simp: until_nul_def dest: set_takeWhileD)

lemma length_until_nul [simp]: "length (until_nul bs) \<le> length bs"
  by (simp add: until_nul_def length_takeWhile_le)

lemma until_nul_id: "NUL \<notin> set bs \<Longrightarrow> until_nul bs = bs"
  by (auto simp: until_nul_def takeWhile_eq_all_conv)

lemma until_nul_append: "NUL \<notin> set bs \<Longrightarrow> until_nul (bs @ NUL # cs) = bs"
  by (induction bs) (auto simp: until_nul_def)

lemma until_nul_pad: "NUL \<notin> set bs \<Longrightarrow> until_nul (bs @ zeros n) = bs"
  by (cases n) (auto simp: zeros_def until_nul_id until_nul_append)

lemma until_nul_take: "NUL \<notin> set s \<Longrightarrow> until_nul (take n s) = take n s"
  by (meson in_set_takeD until_nul_id)

lemma until_nul_memcpy_zeros: "NUL \<notin> set s \<Longrightarrow> until_nul (memcpy_min (zeros n) s) = take n s"
  by (cases "length s \<le> n") (simp_all add: mem_simps until_nul_pad until_nul_take)

section \<open>Words\<close>

lemma unat_drop: "unat (drop_bit n w) = unat w div 2 ^ n" for w :: "'a::len word"
  by (rule trans [OF unat_drop_bit_eq drop_bit_eq_div])

end
