(* ===== verification/Cxx_Strings.thy ===== *)
theory Cxx_Strings
  imports Prelude
begin

text \<open>
  The parts of the C++ standard library that the code uses to move between numbers and text:
  \<open>std::to_string\<close>, \<open>std::to_chars\<close>, \<open>std::stoul\<close>, \<open>std::stoi\<close> and
  \<open>snprintf (..., "%s", ...)\<close>. \<open>unsigned long\<close> is 64 bits wide and \<open>int\<close> 32
  (the Linux x86-64 target of \<^verbatim>\<open>cpp/CMakeLists.txt\<close>).
\<close>

section \<open>Decimal digits\<close>

definition digit :: "nat \<Rightarrow> byte" where
  "digit d = byte_of (48 + d)"

definition is_digit :: "byte \<Rightarrow> bool" where
  "is_digit c \<longleftrightarrow> 48 \<le> byte_val c \<and> byte_val c \<le> 57"

definition digit_val :: "byte \<Rightarrow> nat" where
  "digit_val c = byte_val c - 48"

lemma byte_val_digit [simp]: "d < 10 \<Longrightarrow> byte_val (digit d) = 48 + d"
  by (simp add: digit_def byte_val_of)

lemma is_digit_digit [simp]: "d < 10 \<Longrightarrow> is_digit (digit d)"
  by (simp add: is_digit_def)

lemma digit_val_digit [simp]: "d < 10 \<Longrightarrow> digit_val (digit d) = d"
  by (simp add: digit_val_def)

lemma digit_chars [simp]:
  "digit 0 = CHR ''0''" "digit 1 = CHR ''1''" "digit (Suc 0) = CHR ''1''" "digit 2 = CHR ''2''"
  "digit 3 = CHR ''3''" "digit 4 = CHR ''4''" "digit 5 = CHR ''5''" "digit 6 = CHR ''6''"
  "digit 7 = CHR ''7''" "digit 8 = CHR ''8''" "digit 9 = CHR ''9''"
  by (simp_all add: digit_def char_of_def bit_simps)

lemma not_digit_NUL [simp]: "\<not> is_digit NUL"
  by (simp add: is_digit_def)

text \<open>\<open>std::to_string\<close> of an unsigned number.\<close>

fun to_string_nat :: "nat \<Rightarrow> string" where
  "to_string_nat n = (if n < 10 then [digit n] else to_string_nat (n div 10) @ [digit (n mod 10)])"

declare to_string_nat.simps [simp del]

lemma to_string_small: "n < 10 \<Longrightarrow> to_string_nat n = [digit n]"
  by (subst to_string_nat.simps) simp

definition to_string_int :: "int \<Rightarrow> string" where
  "to_string_int i = (if i < 0 then CHR ''-'' # to_string_nat (nat (- i)) else to_string_nat (nat i))"

lemma to_string_nat_digits: "\<forall>c \<in> set (to_string_nat n). is_digit c"
proof (induction n rule: to_string_nat.induct)
  case (1 n)
  then show ?case by (subst to_string_nat.simps) auto
qed

lemma to_string_nat_nonempty [simp]: "to_string_nat n \<noteq> []"
  by (subst to_string_nat.simps) simp

lemma to_string_nat_no_nul [simp]: "NUL \<notin> set (to_string_nat n)"
  using to_string_nat_digits [of n] not_digit_NUL by blast

lemma length_to_string_nat_le:
  "n < 10 ^ k \<Longrightarrow> 0 < k \<Longrightarrow> length (to_string_nat n) \<le> k"
proof (induction k arbitrary: n)
  case 0
  then show ?case by simp
next
  case (Suc k)
  show ?case
  proof (cases "n < 10")
    case True
    then show ?thesis by (subst to_string_nat.simps) simp
  next
    case False
    with Suc.prems(1) have "k \<noteq> 0" by (cases k) auto
    moreover have "n div 10 < 10 ^ k" using Suc.prems(1) by auto
    ultimately have "length (to_string_nat (n div 10)) \<le> k" using Suc.IH by simp
    with False show ?thesis by (subst to_string_nat.simps) simp
  qed
qed

section \<open>Reading numbers\<close>

fun scan_digits :: "nat \<Rightarrow> bytes \<Rightarrow> nat \<times> bytes" where
  "scan_digits acc [] = (acc, [])"
| "scan_digits acc (c # cs) =
     (if is_digit c then scan_digits (10 * acc + digit_val c) cs else (acc, c # cs))"

lemma scan_digits_append:
  "\<forall>c \<in> set ds. is_digit c \<Longrightarrow>
   scan_digits acc (ds @ rest) = scan_digits (fst (scan_digits acc ds)) rest"
  by (induction ds arbitrary: acc) auto

lemma length_to_string_nat_ge: "10 ^ k \<le> n \<Longrightarrow> k < length (to_string_nat n)"
proof (induction k arbitrary: n)
  case (Suc k)
  then have "10 ^ k \<le> n div 10" by (simp add: less_eq_div_iff_mult_less_eq)
  moreover have "0 < (10 :: nat) ^ k" by simp
  ultimately have "10 ^ k \<le> n div 10" "\<not> n < 10" by linarith+
  then show ?case using Suc.IH [of "n div 10"] by (simp add: to_string_nat.simps [of n])
qed simp

lemma scan_digits_to_string_nat: "scan_digits 0 (to_string_nat n) = (n, [])"
proof (induction n rule: to_string_nat.induct)
  case (1 n)
  show ?case
  proof (cases "n < 10")
    case True
    then show ?thesis by (subst to_string_nat.simps) simp
  next
    case False
    with "1" have "scan_digits 0 (to_string_nat (n div 10)) = (n div 10, [])" by simp
    with False to_string_nat_digits [of "n div 10"] show ?thesis
      by (subst to_string_nat.simps) (simp add: scan_digits_append)
  qed
qed

lemma to_string_nat_inj [simp]: "to_string_nat m = to_string_nat n \<longleftrightarrow> m = n"
  by (metis fst_conv scan_digits_to_string_nat)

text \<open>The C locale's \<open>isspace\<close>.\<close>

definition is_space :: "byte \<Rightarrow> bool" where
  "is_space c \<longleftrightarrow> c = CHR '' '' \<or> 9 \<le> byte_val c \<and> byte_val c \<le> 13"

text \<open>The common part of \<open>strtoul\<close> and \<open>strtol\<close> in base 10: white space, an optional
  sign, digits. \<open>None\<close> is "no conversion"; otherwise whether there was a minus sign, and the
  magnitude. An embedded NUL ends the text because it is no digit.\<close>

definition strto_scan :: "bytes \<Rightarrow> (bool \<times> nat) option" where
  "strto_scan s =
     (let s1 = dropWhile is_space s;
          neg = (case s1 of c # _ \<Rightarrow> c = CHR ''-'' | [] \<Rightarrow> False);
          s2 = (case s1 of c # cs \<Rightarrow> if c = CHR ''-'' \<or> c = CHR ''+'' then cs else s1 | [] \<Rightarrow> [])
      in case s2 of
           c # _ \<Rightarrow> if is_digit c then Some (neg, fst (scan_digits 0 s2)) else None
         | [] \<Rightarrow> None)"

definition stoul :: "bytes \<Rightarrow> nat result" where
  "stoul s = (case strto_scan s of
       None \<Rightarrow> Inl (Invalid_argument ''stoul'')
     | Some (neg, m) \<Rightarrow>
         if m \<ge> 2 ^ 64 then Inl (Out_of_range ''stoul'')
         else Inr (if neg then (2 ^ 64 - m) mod 2 ^ 64 else m))"

definition stoi :: "bytes \<Rightarrow> int result" where
  "stoi s = (case strto_scan s of
       None \<Rightarrow> Inl (Invalid_argument ''stoi'')
     | Some (neg, m) \<Rightarrow>
         (let v = (if neg then - int m else int m) in
          if v < - (2 ^ 31) \<or> v \<ge> 2 ^ 31 then Inl (Out_of_range ''stoi'') else Inr v))"

lemma digit_not_space_sign:
  "is_digit c \<Longrightarrow> \<not> is_space c \<and> c \<noteq> CHR ''-'' \<and> c \<noteq> CHR ''+''"
  by (auto simp: is_digit_def is_space_def)

lemma strto_scan_digits:
  assumes "\<forall>c \<in> set ds. is_digit c" and "ds \<noteq> []" and "rest = [] \<or> \<not> is_digit (hd rest)"
  shows "strto_scan (ds @ rest) = Some (False, fst (scan_digits 0 ds))"
proof -
  obtain d ds' where ds: "ds = d # ds'" using assms(2) by (cases ds) auto
  have d: "is_digit d" using assms(1) ds by simp
  have "scan_digits 0 (ds @ rest) = scan_digits (fst (scan_digits 0 ds)) rest"
    using assms(1) by (rule scan_digits_append)
  moreover have "fst (scan_digits k rest) = k" for k
    using assms(3) by (cases rest) auto
  ultimately show ?thesis
    using d digit_not_space_sign [OF d] by (simp add: strto_scan_def ds Let_def)
qed

lemma strto_scan_to_string_nat:
  "rest = [] \<or> \<not> is_digit (hd rest) \<Longrightarrow> strto_scan (to_string_nat n @ rest) = Some (False, n)"
  using strto_scan_digits [OF to_string_nat_digits to_string_nat_nonempty, of rest n]
  by (simp add: scan_digits_to_string_nat)

lemma stoul_to_string:
  "n < 2 ^ 64 \<Longrightarrow> rest = [] \<or> \<not> is_digit (hd rest) \<Longrightarrow> stoul (to_string_nat n @ rest) = Inr n"
  by (simp add: stoul_def strto_scan_to_string_nat)

lemma stoul_to_string_padded: "n < 2 ^ 64 \<Longrightarrow> stoul (to_string_nat n @ zeros k) = Inr n"
  by (rule stoul_to_string) (cases k; simp add: zeros_def)+

lemma stoi_to_string:
  "n < 2 ^ 31 \<Longrightarrow> rest = [] \<or> \<not> is_digit (hd rest) \<Longrightarrow> stoi (to_string_nat n @ rest) = Inr (int n)"
  by (simp add: stoi_def strto_scan_to_string_nat)

section \<open>Formatted output\<close>

text \<open>\<open>std::to_chars (first, last, value)\<close> over an array: \<open>None\<close> is
  \<open>std::errc::value_too_large\<close>; otherwise the array with the text written at its front.\<close>

definition to_chars :: "bytes \<Rightarrow> int \<Rightarrow> bytes option" where
  "to_chars arr v =
     (let s = to_string_int v in if length s \<le> length arr then Some (memcpy_min arr s) else None)"

text \<open>\<open>std::snprintf (buf, sizeof buf, "%s", s.c_str ())\<close>.\<close>

definition snprintf_s :: "bytes \<Rightarrow> bytes \<Rightarrow> bytes" where
  "snprintf_s buf s = memcpy_min buf (take (length buf - 1) (until_nul s) @ [NUL])"

lemma length_snprintf_s [simp]: "length (snprintf_s buf s) = length buf"
  by (simp add: snprintf_s_def)

lemma until_nul_snprintf_s:
  assumes "0 < length buf"
  shows "until_nul (snprintf_s buf s) = take (length buf - 1) (until_nul s)"
proof -
  let ?t = "take (length buf - 1) (until_nul s)"
  have "length (?t @ [NUL]) \<le> length buf" using assms by (cases buf) auto
  moreover have "NUL \<notin> set ?t" by (meson in_set_takeD until_nul_no_nul)
  ultimately show ?thesis
    by (simp add: snprintf_s_def memcpy_min_fits until_nul_append del: length_append)
qed

end
