(* ===== verification/Codec.thy ===== *)
theory Codec
  imports Prelude
begin

text \<open>
  The contract shared by the fixed-size frames of the wire format: a serialiser that fills the
  front of a buffer and a parser that reads it back. The frames of \<^verbatim>\<open>dataElement.cpp\<close>
  provide it (theory \<open>Frames\<close>); the packets of \<^verbatim>\<open>dataPacket.hpp\<close> and the TCP
  worker of \<^verbatim>\<open>numsworker.cpp\<close> rely on it.
\<close>

locale frame_codec =
  fixes wf :: "'a \<Rightarrow> bool"
    and sz :: nat
    and layout :: "'a \<Rightarrow> bytes"
    and ser :: "'a \<Rightarrow> bytes \<Rightarrow> bytes result"
    and des :: "bytes \<Rightarrow> 'a result"
  assumes length_layout: "wf x \<Longrightarrow> length (layout x) = sz"
    and ser_fits: "wf x \<Longrightarrow> sz \<le> length out \<Longrightarrow> ser x out = Inr (layout x @ drop sz out)"
    and ser_overrun: "wf x \<Longrightarrow> length out < sz \<Longrightarrow> ser x out = Inl (Undefined_behaviour ''out-of-bounds write'')"
    and des_layout: "wf x \<Longrightarrow> des (layout x @ rest) = Inr x"
    and des_total: "sz \<le> length mem \<Longrightarrow> \<exists>x. wf x \<and> layout x = take sz mem"
    and des_short: "length mem < sz \<Longrightarrow> des mem = Inl (Undefined_behaviour ''out-of-bounds read'')"
begin

lemma roundtrip: "wf x \<Longrightarrow> sz \<le> length out \<Longrightarrow> rbind (ser x out) des = Inr x"
  by (simp add: ser_fits des_layout)

lemma ser_exact: "wf x \<Longrightarrow> length out = sz \<Longrightarrow> ser x out = Inr (layout x)"
  by (simp add: ser_fits)

lemma ser_length: "wf x \<Longrightarrow> ser x out = Inr out' \<Longrightarrow> length out' = length out"
  by (cases "sz \<le> length out") (auto simp: ser_fits ser_overrun length_layout not_le)

lemma ser_frame: "wf x \<Longrightarrow> ser x out = Inr out' \<Longrightarrow> drop sz out' = drop sz out"
  by (cases "sz \<le> length out") (auto simp: ser_fits ser_overrun length_layout not_le)

lemma des_Inr:
  assumes "sz \<le> length mem"
  shows "\<exists>x. des mem = Inr x \<and> wf x \<and> layout x = take sz mem"
proof -
  obtain x where x: "wf x" "layout x = take sz mem" using des_total [OF assms] by blast
  have "des (layout x @ drop sz mem) = Inr x" using x(1) by (rule des_layout)
  with x show ?thesis by auto
qed

lemma des_iff: "(\<exists>x. des mem = Inr x) \<longleftrightarrow> sz \<le> length mem"
  using des_Inr [of mem] des_short [of mem] by (cases "sz \<le> length mem") auto

lemma des_wf: "des mem = Inr x \<Longrightarrow> wf x \<and> layout x = take sz mem"
  using des_Inr [of mem] des_short [of mem] by (cases "sz \<le> length mem") auto

lemma layout_inj: "wf x \<Longrightarrow> wf y \<Longrightarrow> layout x = layout y \<longleftrightarrow> x = y"
  by (metis des_layout append_Nil2 sum.inject(2))

lemma reserialise:
  "des mem = Inr x \<Longrightarrow> sz \<le> length out \<Longrightarrow> ser x out = Inr (take sz mem @ drop sz out)"
  using des_wf by (simp add: ser_fits)

end

end
