(* ===== verification/Frames.thy ===== *)
theory Frames
  imports Cxx_Strings Codec
begin

text \<open>
  The wire format of the NUMS protocol: \<^verbatim>\<open>include/newbee/nums_constants.hpp\<close> and
  the classes \<open>Header\<close>, \<open>sn_reginfo_body\<close> and \<open>result_body\<close> of
  \<^verbatim>\<open>include/newbee/dataElement.hpp\<close> and \<^verbatim>\<open>lib/newbee/dataElement.cpp\<close>.
  Every \<open>std::array<char, N>\<close> field is a byte list, and the well-formedness predicates say
  that it has length \<open>N\<close>. The static counter \<open>Header::seq\<close> is passed explicitly.
\<close>

section \<open>Message and result types\<close>

datatype MsgType = LINK | LINK_ACK | SN_REGINFO | SN_REGINFO_ACK | REQ_RESULT | REQ_RESULT_ACK | UNKNOWN

fun msg_type_code :: "MsgType \<Rightarrow> int" where
  "msg_type_code LINK = 1"
| "msg_type_code LINK_ACK = 2"
| "msg_type_code SN_REGINFO = 3"
| "msg_type_code SN_REGINFO_ACK = 4"
| "msg_type_code REQ_RESULT = 5"
| "msg_type_code REQ_RESULT_ACK = 6"
| "msg_type_code UNKNOWN = -1"

datatype RsltType = OK | SYSFAIL | FORMAT_ERR | ETC | INVALID_BODYLEN | INVALID_CID | DUP_CIDNO
  | DUPINSERT | DUPDELETE | NOTROW | INVALID_ACTION

fun rslt_type_code :: "RsltType \<Rightarrow> int" where
  "rslt_type_code OK = 0"
| "rslt_type_code SYSFAIL = 1"
| "rslt_type_code FORMAT_ERR = 2"
| "rslt_type_code ETC = 3"
| "rslt_type_code INVALID_BODYLEN = 14"
| "rslt_type_code INVALID_CID = 15"
| "rslt_type_code DUP_CIDNO = 5"
| "rslt_type_code DUPINSERT = 10"
| "rslt_type_code DUPDELETE = 11"
| "rslt_type_code NOTROW = 12"
| "rslt_type_code INVALID_ACTION = 16"

section \<open>Sizes\<close>

definition header_SIZE :: nat where "header_SIZE = 24"
definition sn_reginfo_body_SIZE :: nat where "sn_reginfo_body_SIZE = 86"
definition result_body_SIZE :: nat where "result_body_SIZE = 4"

lemmas frame_sizes = header_SIZE_def sn_reginfo_body_SIZE_def result_body_SIZE_def

section \<open>Header\<close>

record header =
  msg_type :: bytes
  msg_len :: bytes
  action_code :: bytes
  seq_num :: bytes

definition header_wf :: "header \<Rightarrow> bool" where
  "header_wf h \<longleftrightarrow> length (msg_type h) = 3 \<and> length (msg_len h) = 6 \<and>
     length (action_code h) = 2 \<and> length (seq_num h) = 13"

definition new_header :: header where
  "new_header = \<lparr>msg_type = zeros 3, msg_len = zeros 6, action_code = zeros 2, seq_num = zeros 13\<rparr>"

definition get_msg_type :: "header \<Rightarrow> bytes" where
  "get_msg_type h = msg_type h"

definition get_msg_len :: "header \<Rightarrow> nat result" where
  "get_msg_len h = stoul (msg_len h)"

definition msg_type_enum :: "header \<Rightarrow> MsgType" where
  "msg_type_enum h =
     (if msg_type h = [CHR ''1'', NUL, NUL] then LINK
      else if msg_type h = [CHR ''2'', NUL, NUL] then LINK_ACK
      else if msg_type h = [CHR ''3'', NUL, NUL] then SN_REGINFO
      else if msg_type h = [CHR ''4'', NUL, NUL] then SN_REGINFO_ACK
      else if msg_type h = [CHR ''5'', NUL, NUL] then REQ_RESULT
      else if msg_type h = [CHR ''6'', NUL, NUL] then REQ_RESULT_ACK
      else UNKNOWN)"

text \<open>\<open>read_array\<close> and \<open>write_array\<close>: copy one array and advance the offset.\<close>

definition read_array :: "nat \<Rightarrow> bytes \<Rightarrow> nat \<Rightarrow> (bytes \<times> nat) result" where
  "read_array n mem off = rbind (read_at mem off n) (\<lambda>dst. Inr (dst, off + n))"

definition write_array :: "bytes \<Rightarrow> bytes \<Rightarrow> nat \<Rightarrow> (bytes \<times> nat) result" where
  "write_array src out off = rbind (write_at out off src) (\<lambda>out'. Inr (out', off + length src))"

type_synonym seq_counter = "64 word"

text \<open>\<open>std::to_string (seq++)\<close>: the old value as text, and the counter after the
  wrapping increment.\<close>

definition next_seq :: "seq_counter \<Rightarrow> string \<times> seq_counter" where
  "next_seq seq = (to_string_nat (unat seq), seq + 1)"

definition set_seq_num :: "header \<Rightarrow> string \<Rightarrow> header" where
  "set_seq_num h s = h\<lparr>seq_num := memcpy_min (seq_num h) s\<rparr>"

definition header_parse :: "bytes \<Rightarrow> nat \<Rightarrow> header result" where
  "header_parse mem n =
     (if n < header_SIZE then Inl (Runtime_error ''not enough data for Header'')
      else rbind (read_array 3 mem 0) (\<lambda>(mt, off).
           rbind (read_array 6 mem off) (\<lambda>(ml, off).
           rbind (read_array 2 mem off) (\<lambda>(ac, off).
           rbind (read_array 13 mem off) (\<lambda>(sn, off).
             Inr \<lparr>msg_type = mt, msg_len = ml, action_code = ac, seq_num = sn\<rparr>)))))"

definition set_msg_type :: "header \<Rightarrow> MsgType \<Rightarrow> header result" where
  "set_msg_type h mt = (case to_chars (msg_type h) (msg_type_code mt) of
       None \<Rightarrow> Inl (Runtime_error ''msg_type overflow'')
     | Some arr \<Rightarrow> Inr (h\<lparr>msg_type := arr\<rparr>))"

fun body_size_of :: "MsgType \<Rightarrow> nat" where
  "body_size_of LINK = 0"
| "body_size_of LINK_ACK = 0"
| "body_size_of SN_REGINFO = sn_reginfo_body_SIZE"
| "body_size_of SN_REGINFO_ACK = result_body_SIZE"
| "body_size_of REQ_RESULT = result_body_SIZE"
| "body_size_of REQ_RESULT_ACK = result_body_SIZE"
| "body_size_of UNKNOWN = 0"

definition set_msg_len :: "header \<Rightarrow> MsgType \<Rightarrow> header" where
  "set_msg_len h mt = h\<lparr>msg_len := memcpy_min (msg_len h) (to_string_nat (body_size_of mt))\<rparr>"

definition header_serialize :: "header \<Rightarrow> bytes \<Rightarrow> bytes result" where
  "header_serialize h out =
     (let off = 0 in
      rbind (write_at out off (msg_type h)) (\<lambda>out. let off = off + length (msg_type h) in
      rbind (write_at out off (msg_len h)) (\<lambda>out. let off = off + length (msg_len h) in
      rbind (write_at out off (action_code h)) (\<lambda>out. let off = off + length (action_code h) in
      write_at out off (seq_num h)))))"

definition header_deserialize :: "header \<Rightarrow> bytes \<Rightarrow> header result" where
  "header_deserialize h mem =
     (let off = 0 in
      rbind (read_at mem off (length (msg_type h))) (\<lambda>mt. let off = off + length (msg_type h) in
      rbind (read_at mem off (length (msg_len h))) (\<lambda>ml. let off = off + length (msg_len h) in
      rbind (read_at mem off (length (action_code h))) (\<lambda>ac. let off = off + length (action_code h) in
      rbind (read_at mem off (length (seq_num h))) (\<lambda>sn.
        Inr (h\<lparr>msg_type := mt, msg_len := ml, action_code := ac, seq_num := sn\<rparr>))))))"

definition arr_to_string :: "bytes \<Rightarrow> string" where
  "arr_to_string arr = until_nul arr"

definition header_toString :: "header \<Rightarrow> string" where
  "header_toString h = ''Header{msg_type='' @ arr_to_string (msg_type h) @
     '', msg_len='' @ arr_to_string (msg_len h) @
     '', action_code='' @ arr_to_string (action_code h) @
     '', seq_num='' @ arr_to_string (seq_num h) @ ''}''"

section \<open>The registration body\<close>

record sn_reginfo_body =
  cid :: bytes
  s_time :: bytes
  e_time :: bytes
  service_name :: bytes
  info_rate :: bytes
  body_msg_type :: bytes
  bill_type :: bytes
  bill_limit :: bytes
  reserverd_field_1 :: bytes

definition sn_reginfo_body_wf :: "sn_reginfo_body \<Rightarrow> bool" where
  "sn_reginfo_body_wf b \<longleftrightarrow> length (cid b) = 12 \<and> length (s_time b) = 11 \<and>
     length (e_time b) = 11 \<and> length (service_name b) = 32 \<and> length (info_rate b) = 11 \<and>
     length (body_msg_type b) = 2 \<and> length (bill_type b) = 2 \<and> length (bill_limit b) = 2 \<and>
     length (reserverd_field_1 b) = 3"

definition new_sn_reginfo_body :: sn_reginfo_body where
  "new_sn_reginfo_body = \<lparr>cid = zeros 12, s_time = zeros 11, e_time = zeros 11,
     service_name = zeros 32, info_rate = zeros 11, body_msg_type = zeros 2, bill_type = zeros 2,
     bill_limit = zeros 2, reserverd_field_1 = zeros 3\<rparr>"

definition sn_reginfo_body_toString :: "sn_reginfo_body \<Rightarrow> string" where
  "sn_reginfo_body_toString b = ''cid='' @ cid b @ '', s_time='' @ s_time b @
     '', e_time='' @ e_time b @ '', service_name='' @ service_name b @
     '', info_rate='' @ info_rate b @ '', msg_type='' @ body_msg_type b @
     '', bill_type='' @ bill_type b @ '', bill_limit='' @ bill_limit b"

definition sn_reginfo_body_serialize :: "sn_reginfo_body \<Rightarrow> bytes \<Rightarrow> bytes result" where
  "sn_reginfo_body_serialize b out =
     rbind (write_array (cid b) out 0) (\<lambda>(out, off).
     rbind (write_array (s_time b) out off) (\<lambda>(out, off).
     rbind (write_array (e_time b) out off) (\<lambda>(out, off).
     rbind (write_array (service_name b) out off) (\<lambda>(out, off).
     rbind (write_array (info_rate b) out off) (\<lambda>(out, off).
     rbind (write_array (body_msg_type b) out off) (\<lambda>(out, off).
     rbind (write_array (bill_type b) out off) (\<lambda>(out, off).
     rbind (write_array (bill_limit b) out off) (\<lambda>(out, off).
     rbind (write_array (reserverd_field_1 b) out off) (\<lambda>(out, off). Inr out)))))))))"

text \<open>The length argument \<open>n\<close> is not looked at, as in the code.\<close>

definition sn_reginfo_body_parse :: "bytes \<Rightarrow> nat \<Rightarrow> sn_reginfo_body result" where
  "sn_reginfo_body_parse mem n =
     rbind (read_array 12 mem 0) (\<lambda>(ci, off).
     rbind (read_array 11 mem off) (\<lambda>(st, off).
     rbind (read_array 11 mem off) (\<lambda>(et, off).
     rbind (read_array 32 mem off) (\<lambda>(sn, off).
     rbind (read_array 11 mem off) (\<lambda>(ir, off).
     rbind (read_array 2 mem off) (\<lambda>(mt, off).
     rbind (read_array 2 mem off) (\<lambda>(bt, off).
     rbind (read_array 2 mem off) (\<lambda>(bl, off).
     rbind (read_array 3 mem off) (\<lambda>(rf, off).
       Inr \<lparr>cid = ci, s_time = st, e_time = et, service_name = sn, info_rate = ir,
            body_msg_type = mt, bill_type = bt, bill_limit = bl, reserverd_field_1 = rf\<rparr>)))))))))"

section \<open>The result body\<close>

record result_body =
  result_field :: bytes

definition result_body_wf :: "result_body \<Rightarrow> bool" where
  "result_body_wf r \<longleftrightarrow> length (result_field r) = 4"

definition new_result_body :: result_body where
  "new_result_body = \<lparr>result_field = zeros 4\<rparr>"

definition result_body_toString :: "result_body \<Rightarrow> string" where
  "result_body_toString r = ''Body{result='' @ arr_to_string (result_field r) @ ''}''"

definition get_result :: "result_body \<Rightarrow> bytes" where
  "get_result r = result_field r"

definition result_body_serialize :: "result_body \<Rightarrow> bytes \<Rightarrow> bytes result" where
  "result_body_serialize r out = rbind (write_array (result_field r) out 0) (\<lambda>(out, off). Inr out)"

definition result_body_deserialize :: "result_body \<Rightarrow> bytes \<Rightarrow> result_body result" where
  "result_body_deserialize r mem =
     rbind (read_at mem 0 (length (result_field r))) (\<lambda>x. Inr (r\<lparr>result_field := x\<rparr>))"

definition result_body_parse :: "bytes \<Rightarrow> nat \<Rightarrow> result_body result" where
  "result_body_parse mem n = rbind (read_array 4 mem 0) (\<lambda>(x, off). Inr \<lparr>result_field = x\<rparr>)"

section \<open>Layout of the frames\<close>

definition header_layout :: "header \<Rightarrow> bytes" where
  "header_layout h = msg_type h @ msg_len h @ action_code h @ seq_num h"

definition sn_reginfo_body_layout :: "sn_reginfo_body \<Rightarrow> bytes" where
  "sn_reginfo_body_layout b = cid b @ s_time b @ e_time b @ service_name b @ info_rate b @
     body_msg_type b @ bill_type b @ bill_limit b @ reserverd_field_1 b"

lemma header_wf_new [wf_intros]: "header_wf new_header"
  by (simp add: header_wf_def new_header_def)

lemma sn_reginfo_body_wf_new [wf_intros]: "sn_reginfo_body_wf new_sn_reginfo_body"
  by (simp add: sn_reginfo_body_wf_def new_sn_reginfo_body_def)

lemma result_body_wf_new [wf_intros]: "result_body_wf new_result_body"
  by (simp add: result_body_wf_def new_result_body_def)

lemma write_at_bound: "write_at mem off src = Inl e \<Longrightarrow> e = Undefined_behaviour ''out-of-bounds write''"
  by (auto simp: write_at_def split: if_splits)

lemma read_at_bound: "read_at mem off n = Inl e \<Longrightarrow> e = Undefined_behaviour ''out-of-bounds read''"
  by (auto simp: read_at_def split: if_splits)

lemma header_serialize_fits:
  "header_wf h \<Longrightarrow> 24 \<le> length out \<Longrightarrow> header_serialize h out = Inr (header_layout h @ drop 24 out)"
  by (simp add: header_wf_def header_serialize_def header_layout_def write_at_def Let_def)

lemma header_serialize_overrun:
  "header_wf h \<Longrightarrow> length out < 24 \<Longrightarrow>
   header_serialize h out = Inl (Undefined_behaviour ''out-of-bounds write'')"
  by (simp add: header_wf_def header_serialize_def rbind_def write_at_def Let_def) arith

lemma header_deserialize_fits:
  "header_wf h0 \<Longrightarrow> 24 \<le> length mem \<Longrightarrow> header_deserialize h0 mem =
     Inr \<lparr>msg_type = take 3 mem, msg_len = take 6 (drop 3 mem),
          action_code = take 2 (drop 9 mem), seq_num = take 13 (drop 11 mem)\<rparr>"
  by (simp add: header_wf_def header_deserialize_def read_at_def Let_def)

lemma header_deserialize_short:
  "header_wf h0 \<Longrightarrow> length mem < 24 \<Longrightarrow>
   header_deserialize h0 mem = Inl (Undefined_behaviour ''out-of-bounds read'')"
  by (simp add: header_wf_def header_deserialize_def rbind_def read_at_def Let_def)

lemma take_split: "take (m + n) xs = take m xs @ take n (drop m xs)"
  by (simp add: take_add)

interpretation hdr: frame_codec header_wf header_SIZE header_layout header_serialize
  "header_deserialize new_header"
proof (unfold_locales, goal_cases)
  case (5 mem)
  let ?h = "\<lparr>msg_type = take 3 mem, msg_len = take 6 (drop 3 mem),
     action_code = take 2 (drop 9 mem), seq_num = take 13 (drop 11 mem)\<rparr>"
  have "header_layout ?h = take (3 + (6 + (2 + 13))) mem"
    unfolding take_split by (simp add: header_layout_def)
  with 5 have "header_wf ?h \<and> header_layout ?h = take header_SIZE mem"
    by (simp add: header_wf_def frame_sizes)
  then show ?case by blast
qed (simp_all add: frame_sizes header_serialize_fits header_serialize_overrun wf_intros
       header_deserialize_short header_deserialize_fits,
     simp_all add: header_wf_def header_layout_def header_deserialize_fits [OF header_wf_new])

lemma sn_reginfo_body_parse_fits:
  "86 \<le> length mem \<Longrightarrow> sn_reginfo_body_parse mem n =
     Inr \<lparr>cid = take 12 mem, s_time = take 11 (drop 12 mem), e_time = take 11 (drop 23 mem),
          service_name = take 32 (drop 34 mem), info_rate = take 11 (drop 66 mem),
          body_msg_type = take 2 (drop 77 mem), bill_type = take 2 (drop 79 mem),
          bill_limit = take 2 (drop 81 mem), reserverd_field_1 = take 3 (drop 83 mem)\<rparr>"
  by (simp add: sn_reginfo_body_parse_def read_array_def read_at_def)

lemma sn_reginfo_body_parse_short:
  "length mem < 86 \<Longrightarrow>
   sn_reginfo_body_parse mem n = Inl (Undefined_behaviour ''out-of-bounds read'')"
  by (simp add: sn_reginfo_body_parse_def read_array_def rbind_def read_at_def)

lemma sn_reginfo_body_serialize_fits:
  "sn_reginfo_body_wf b \<Longrightarrow> 86 \<le> length out \<Longrightarrow>
   sn_reginfo_body_serialize b out = Inr (sn_reginfo_body_layout b @ drop 86 out)"
  by (simp add: sn_reginfo_body_wf_def sn_reginfo_body_serialize_def sn_reginfo_body_layout_def
        write_array_def write_at_def) arith

lemma sn_reginfo_body_serialize_overrun:
  "sn_reginfo_body_wf b \<Longrightarrow> length out < 86 \<Longrightarrow>
   sn_reginfo_body_serialize b out = Inl (Undefined_behaviour ''out-of-bounds write'')"
  by (simp add: sn_reginfo_body_wf_def sn_reginfo_body_serialize_def write_array_def write_at_def
        rbind_def)

interpretation snb: frame_codec sn_reginfo_body_wf sn_reginfo_body_SIZE sn_reginfo_body_layout
  sn_reginfo_body_serialize "\<lambda>mem. sn_reginfo_body_parse mem (length mem)"
proof (unfold_locales, goal_cases)
  case (5 mem)
  let ?b = "\<lparr>cid = take 12 mem, s_time = take 11 (drop 12 mem), e_time = take 11 (drop 23 mem),
          service_name = take 32 (drop 34 mem), info_rate = take 11 (drop 66 mem),
          body_msg_type = take 2 (drop 77 mem), bill_type = take 2 (drop 79 mem),
          bill_limit = take 2 (drop 81 mem), reserverd_field_1 = take 3 (drop 83 mem)\<rparr>"
  have "sn_reginfo_body_layout ?b =
      take (12 + (11 + (11 + (32 + (11 + (2 + (2 + (2 + 3)))))))) mem"
    unfolding take_split by (simp add: sn_reginfo_body_layout_def)
  with 5 have "sn_reginfo_body_wf ?b \<and> sn_reginfo_body_layout ?b = take sn_reginfo_body_SIZE mem"
    by (simp add: sn_reginfo_body_wf_def frame_sizes)
  then show ?case by blast
qed (simp_all add: frame_sizes sn_reginfo_body_serialize_fits sn_reginfo_body_serialize_overrun
       sn_reginfo_body_parse_short sn_reginfo_body_parse_fits,
     simp_all add: sn_reginfo_body_wf_def sn_reginfo_body_layout_def sn_reginfo_body_parse_fits)

interpretation rsb: frame_codec result_body_wf result_body_SIZE result_field
  result_body_serialize "result_body_deserialize new_result_body"
proof (unfold_locales, goal_cases)
  case (5 mem)
  then have "result_body_wf \<lparr>result_field = take 4 mem\<rparr> \<and>
      result_field \<lparr>result_field = take 4 mem\<rparr> = take result_body_SIZE mem"
    by (simp add: result_body_wf_def frame_sizes)
  then show ?case by blast
qed (simp_all add: frame_sizes result_body_wf_def result_body_serialize_def write_array_def
       write_at_def result_body_deserialize_def new_result_body_def read_at_def)

section \<open>What the frames guarantee\<close>

lemma header_parse_deserialize:
  "header_parse mem n = (if n < 24 then Inl (Runtime_error ''not enough data for Header'')
     else header_deserialize new_header mem)"
  by (simp add: header_parse_def header_deserialize_def read_array_def rbind_assoc frame_sizes
        new_header_def Let_def)

lemma to_chars_code:
  "length arr = 3 \<Longrightarrow> to_chars arr (msg_type_code mt) = Some (memcpy_min arr (to_string_int (msg_type_code mt)))"
  by (cases mt) (simp_all add: to_chars_def to_string_int_def to_string_nat.simps)

lemma zeros_numeral [simp]: "zeros (numeral k) = NUL # zeros (pred_numeral k)" "zeros 0 = []"
  "zeros (Suc n) = NUL # zeros n"
  by (simp_all add: zeros_def numeral_eq_Suc)

declare zeros_numeral(1) [simp del]

lemma set_msg_type_eq:
  "length (msg_type h) = 3 \<Longrightarrow> set_msg_type h mt =
     Inr (h\<lparr>msg_type := memcpy_min (msg_type h) (to_string_int (msg_type_code mt))\<rparr>)"
  by (simp add: set_msg_type_def to_chars_code)

lemma msg_type_codes:
  "memcpy_min (zeros 3) (to_string_int (msg_type_code mt)) =
     (case mt of LINK \<Rightarrow> [CHR ''1'', NUL, NUL] | LINK_ACK \<Rightarrow> [CHR ''2'', NUL, NUL]
       | SN_REGINFO \<Rightarrow> [CHR ''3'', NUL, NUL] | SN_REGINFO_ACK \<Rightarrow> [CHR ''4'', NUL, NUL]
       | REQ_RESULT \<Rightarrow> [CHR ''5'', NUL, NUL] | REQ_RESULT_ACK \<Rightarrow> [CHR ''6'', NUL, NUL]
       | UNKNOWN \<Rightarrow> [CHR ''-'', CHR ''1'', NUL])"
  by (cases mt) (simp_all add: to_string_int_def to_string_small memcpy_min_def zeros_numeral(1))

text \<open>A header written with its type by \<open>set_msg_type\<close> is read back as that type by
  \<open>msg_type_enum\<close>, for every message type (\<open>UNKNOWN\<close> included, whose code is "-1"),
  and the other fields are untouched; no type overflows the three bytes.\<close>

theorem set_msg_type_roundtrip:
  assumes "header_wf h" and "msg_type h = zeros 3"
  shows "\<exists>h'. set_msg_type h mt = Inr h' \<and> msg_type_enum h' = mt \<and> header_wf h' \<and>
    msg_len h' = msg_len h \<and> action_code h' = action_code h \<and> seq_num h' = seq_num h"
proof -
  let ?h = "h\<lparr>msg_type := memcpy_min (zeros 3) (to_string_int (msg_type_code mt))\<rparr>"
  have "set_msg_type h mt = Inr ?h" using assms(2) by (simp add: set_msg_type_eq)
  moreover have "msg_type_enum ?h = mt"
    unfolding msg_type_enum_def by (simp add: msg_type_codes split: MsgType.split)
  moreover have "header_wf ?h" using assms(1) by (simp add: header_wf_def)
  ultimately show ?thesis by simp
qed

lemma set_msg_type_roundtrip_witness:
  "\<exists>h'. set_msg_type new_header REQ_RESULT_ACK = Inr h' \<and> msg_type_enum h' = REQ_RESULT_ACK \<and>
    header_wf h' \<and> msg_len h' = zeros 6 \<and> action_code h' = zeros 2 \<and> seq_num h' = zeros 13"
  using set_msg_type_roundtrip [OF header_wf_new, of REQ_RESULT_ACK]
  by (simp add: new_header_def)

lemma body_size_of_less: "body_size_of mt < 10 ^ 2"
  by (cases mt) (simp_all add: frame_sizes)

text \<open>C16: the body length that \<open>set_msg_len\<close> stores in a fresh length field is what
  \<open>get_msg_len\<close> (\<open>std::stoul\<close> over the six raw bytes, padding included) reads.\<close>

theorem set_msg_len_roundtrip:
  assumes "msg_len h = zeros 6"
  shows "get_msg_len (set_msg_len h mt) = Inr (body_size_of mt)"
proof -
  have "length (to_string_nat (body_size_of mt)) \<le> 2"
    using body_size_of_less by (rule length_to_string_nat_le) simp
  then show ?thesis
    using assms body_size_of_less [of mt]
    by (simp add: get_msg_len_def set_msg_len_def memcpy_min_fits stoul_to_string_padded)
qed

lemma set_msg_len_roundtrip_witness:
  "get_msg_len (set_msg_len new_header SN_REGINFO) = Inr 86"
  using set_msg_len_roundtrip [of new_header SN_REGINFO] by (simp add: new_header_def frame_sizes)

text \<open>C14: serialising a header into any buffer of at least 24 bytes succeeds, keeps the buffer's
  length and every byte behind the header, and both readers (\<open>deserialize\<close> and the checked
  \<open>parse\<close>) recover exactly that header from it.\<close>

theorem header_wire_roundtrip:
  assumes "header_wf h" and "header_SIZE \<le> length out"
  shows "\<exists>out'. header_serialize h out = Inr out' \<and> length out' = length out \<and>
    drop header_SIZE out' = drop header_SIZE out \<and>
    header_deserialize new_header out' = Inr h \<and> header_parse out' (length out') = Inr h"
proof -
  let ?out = "header_layout h @ drop header_SIZE out"
  have len: "length (header_layout h) = 24"
    using hdr.length_layout [OF assms(1)] by (simp add: frame_sizes)
  have "header_serialize h out = Inr ?out" using assms by (rule hdr.ser_fits)
  moreover have "header_deserialize new_header ?out = Inr h" using assms(1) by (rule hdr.des_layout)
  ultimately show ?thesis
    using assms(2) len by (simp add: header_parse_deserialize frame_sizes)
qed

lemma header_wire_roundtrip_witness:
  "\<exists>out'. header_serialize new_header (zeros 30) = Inr out' \<and> length out' = 30 \<and>
    drop header_SIZE out' = drop header_SIZE (zeros 30) \<and>
    header_deserialize new_header out' = Inr new_header \<and>
    header_parse out' (length out') = Inr new_header"
  using header_wire_roundtrip [OF header_wf_new, of "zeros 30"] by (simp add: frame_sizes)

lemma sn_reginfo_body_parse_length: "sn_reginfo_body_parse mem n = sn_reginfo_body_parse mem (length mem)"
  by (cases "length mem < 86") (simp_all add: sn_reginfo_body_parse_short sn_reginfo_body_parse_fits)

text \<open>C15: the registration body on the wire. A body is written as its 86 bytes, the rest of the buffer kept,
  and read back unchanged. Reading depends on the bytes alone, not on the length argument: any 86 bytes
  are read as the body with exactly these bytes, and any shorter area, whatever it holds and whatever
  length is passed, is read out of bounds.\<close>

theorem sn_reginfo_body_wire_roundtrip:
  assumes "sn_reginfo_body_wf b" and "sn_reginfo_body_SIZE \<le> length out"
  shows "\<exists>out'. sn_reginfo_body_serialize b out = Inr out' \<and> length out' = length out \<and>
    drop sn_reginfo_body_SIZE out' = drop sn_reginfo_body_SIZE out \<and>
    sn_reginfo_body_parse out' n = Inr b \<and>
    (\<forall>mem k. if length mem < sn_reginfo_body_SIZE
       then sn_reginfo_body_parse mem k = Inl (Undefined_behaviour ''out-of-bounds read'')
       else \<exists>b'. sn_reginfo_body_parse mem k = Inr b' \<and> sn_reginfo_body_wf b' \<and>
         sn_reginfo_body_layout b' = take sn_reginfo_body_SIZE mem)"
proof -
  let ?out = "sn_reginfo_body_layout b @ drop sn_reginfo_body_SIZE out"
  have len: "length (sn_reginfo_body_layout b) = sn_reginfo_body_SIZE"
    using assms(1) by (rule snb.length_layout)
  have "sn_reginfo_body_serialize b out = Inr ?out" using assms by (rule snb.ser_fits)
  moreover have "sn_reginfo_body_parse ?out n = Inr b"
    using snb.des_layout [OF assms(1), of "drop sn_reginfo_body_SIZE out"]
    by (simp only: sn_reginfo_body_parse_length [of ?out n])
  moreover have "if length mem < sn_reginfo_body_SIZE
       then sn_reginfo_body_parse mem k = Inl (Undefined_behaviour ''out-of-bounds read'')
       else \<exists>b'. sn_reginfo_body_parse mem k = Inr b' \<and> sn_reginfo_body_wf b' \<and>
         sn_reginfo_body_layout b' = take sn_reginfo_body_SIZE mem" for mem k
    using snb.des_short [of mem] snb.des_Inr [of mem] unfolding sn_reginfo_body_parse_length [of mem k] by simp
  ultimately show ?thesis using assms(2) len by simp
qed

lemma sn_reginfo_body_wire_roundtrip_witness:
  "\<exists>out'. sn_reginfo_body_serialize new_sn_reginfo_body (zeros 90) = Inr out' \<and> length out' = 90 \<and>
    sn_reginfo_body_parse out' 0 = Inr new_sn_reginfo_body \<and>
    sn_reginfo_body_parse (zeros 40) 86 = Inl (Undefined_behaviour ''out-of-bounds read'')"
proof -
  have "sn_reginfo_body_SIZE \<le> length (zeros 90)" "length (zeros 40) < sn_reginfo_body_SIZE"
    by (simp_all add: frame_sizes)
  from sn_reginfo_body_wire_roundtrip [OF sn_reginfo_body_wf_new this(1), of 0] this(2) show ?thesis by fastforce
qed

section \<open>Sequence numbers\<close>

definition stamp :: "seq_counter \<Rightarrow> bytes" where
  "stamp seq = seq_num (set_seq_num new_header (fst (next_seq seq)))"

lemma stamp_small:
  "unat seq < 10 ^ 13 \<Longrightarrow>
   stamp seq = to_string_nat (unat seq) @ zeros (13 - length (to_string_nat (unat seq)))"
  using length_to_string_nat_le [of "unat seq" 13]
  by (simp add: stamp_def set_seq_num_def next_seq_def new_header_def memcpy_min_fits)

lemma until_nul_stamp: "unat seq < 10 ^ 13 \<Longrightarrow> until_nul (stamp seq) = to_string_nat (unat seq)"
  by (simp add: stamp_small until_nul_pad)

lemma stamp_inj: "unat a < 10 ^ 13 \<Longrightarrow> unat b < 10 ^ 13 \<Longrightarrow> stamp a = stamp b \<Longrightarrow> a = b"
  by (metis until_nul_stamp to_string_nat_inj word_unat_eq_iff)

text \<open>From 14 digits on the last one is cut off.\<close>

lemma stamp_large:
  assumes "10 ^ 13 \<le> unat seq" shows "stamp seq = take 13 (to_string_nat (unat seq))"
  using length_to_string_nat_ge [OF assms]
  by (simp add: stamp_def set_seq_num_def next_seq_def new_header_def memcpy_min_truncates)

lemma stamp_div_ten:
  assumes "10 ^ 13 \<le> unat seq" shows "stamp seq = stamp (seq div 10)"
proof -
  let ?n = "unat seq"
  have div: "unat (seq div 10) = ?n div 10" by (simp add: unat_div_distrib)
  have "10 ^ 12 \<le> ?n div 10" using assms by simp
  then have len: "13 \<le> length (to_string_nat (?n div 10))" using length_to_string_nat_ge [of 12 "?n div 10"] by simp
  have "to_string_nat ?n = to_string_nat (?n div 10) @ [digit (?n mod 10)]"
    using assms by (simp add: to_string_nat.simps [of ?n])
  then have "stamp seq = take 13 (to_string_nat (?n div 10))" using stamp_large [OF assms] len by simp
  also have "\<dots> = stamp (seq div 10)"
    using len by (simp add: stamp_def set_seq_num_def next_seq_def new_header_def memcpy_min_truncates div)
  finally show ?thesis .
qed

text \<open>C17: sequence numbers identify messages for as long as the counter has at most 13 digits: two
  counters below 10^13 stamp the same bytes only if they are equal. From there on every counter
  repeats a stamp given before, that of its tenth, rounded down; consecutive counters share one unless the later ends
  in the digit zero.\<close>

theorem stamp_unique_below_limit:
  "(unat a < 10 ^ 13 \<longrightarrow> unat b < 10 ^ 13 \<longrightarrow> (stamp a = stamp b \<longleftrightarrow> a = b)) \<and>
   (10 ^ 13 \<le> unat c \<longrightarrow> stamp c = stamp (c div 10) \<and> unat (c div 10) < unat c) \<and>
   (10 ^ 13 \<le> unat c \<longrightarrow> c + 1 \<noteq> 0 \<longrightarrow> unat (c + 1) mod 10 \<noteq> 0 \<longrightarrow> stamp (c + 1) = stamp c)"
proof (intro conjI impI)
  assume "unat a < 10 ^ 13" "unat b < 10 ^ 13"
  then show "stamp a = stamp b \<longleftrightarrow> a = b" using stamp_inj by blast
next
  assume c: "10 ^ 13 \<le> unat c"
  then show "stamp c = stamp (c div 10)" by (rule stamp_div_ten)
  show "unat (c div 10) < unat c" using c by (simp add: unat_div_distrib)
  assume "c + 1 \<noteq> 0" and last: "unat (c + 1) mod 10 \<noteq> 0"
  then have suc: "unat (c + 1) = Suc (unat c)" by (simp add: unatSuc add.commute)
  then have "unat ((c + 1) div 10) = unat (c div 10)" using last by (simp add: unat_div_distrib div_Suc)
  then have "(c + 1) div 10 = c div 10" by (simp only: word_unat_eq_iff)
  then show "stamp (c + 1) = stamp c" using c suc by (simp add: stamp_div_ten)
qed

lemma stamp_unique_below_limit_witness: "stamp 41 \<noteq> stamp 42 \<and> stamp 10000000000000 = stamp 1000000000000"
  using stamp_unique_below_limit [of 41 42 10000000000000] by simp

end
