(* ===== verification/Cxx_Double.thy ===== *)
theory Cxx_Double
  imports Cxx_Strings
begin

text \<open>
  \<open>double\<close> and what the program's libraries use of it: the 64 bits of an IEEE binary64 number,
  \<open>std::isfinite\<close>, \<open>std::signbit\<close>, negation, and \<open>strtod\<close> on a decimal text. A text
  that no other \<open>double\<close> is nearer to gives that \<open>double\<close>, a tie the one with the even
  significand, and what is at least half a unit above the largest number an infinity.
\<close>

unbundle bit_operations_syntax

type_synonym double = "64 word"

definition isfinite :: "double \<Rightarrow> bool" where
  "isfinite value \<longleftrightarrow> drop_bit 52 value AND 0x7FF \<noteq> 0x7FF"

definition signbit :: "double \<Rightarrow> bool" where
  "signbit value \<longleftrightarrow> bit value 63"

definition negated :: "double \<Rightarrow> double" where
  "negated value = value XOR push_bit 63 1"

section \<open>Decimal texts\<close>

text \<open>The value is \<open>mantissa * 10 ^ exponent\<close>; the sign is left out.\<close>

definition digits_value :: "bytes \<Rightarrow> nat" where
  "digits_value ds = foldl (\<lambda>n c. n * 10 + digit_val c) 0 ds"

definition exponent_value :: "bytes \<Rightarrow> int" where
  "exponent_value e = (case e of
       [] \<Rightarrow> 0
     | c # ds \<Rightarrow> if c = CHR ''-'' then - int (digits_value ds)
                else if c = CHR ''+'' then int (digits_value ds) else int (digits_value e))"

definition decimal_parts :: "bytes \<Rightarrow> nat \<times> int" where
  "decimal_parts s =
     (let s = (case s of c # cs \<Rightarrow> if c = CHR ''-'' then cs else s | [] \<Rightarrow> s);
          whole = takeWhile is_digit s; s = dropWhile is_digit s;
          (frac, s) = (case s of c # cs \<Rightarrow> if c = CHR ''.'' then (takeWhile is_digit cs, dropWhile is_digit cs)
                                           else ([], s) | [] \<Rightarrow> ([], s))
      in (digits_value (whole @ frac), exponent_value (drop 1 s) - int (length frac)))"

section \<open>strtod\<close>

text \<open>The magnitude of the number with bits \<open>n\<close> (and no sign) times \<open>2 ^ 1075\<close>: an exponent
  field of zero stands for denormal numbers.\<close>

definition scaled_magnitude :: "nat \<Rightarrow> nat" where
  "scaled_magnitude n =
     (if n div 2 ^ 52 = 0 then n mod 2 ^ 52 else n mod 2 ^ 52 + 2 ^ 52) * 2 ^ max 1 (n div 2 ^ 52)"

text \<open>Whether \<open>m * 10 ^ e\<close> is above the middle between \<open>n\<close> and the number below it, or in the
  middle with \<open>n\<close> even.\<close>

definition reaches :: "nat \<Rightarrow> int \<Rightarrow> nat \<Rightarrow> bool" where
  "reaches m e n \<longleftrightarrow>
     (let middle = (scaled_magnitude (n - 1) + scaled_magnitude n) * 10 ^ nat (- e);
          twice = 2 * m * 10 ^ nat e * 2 ^ 1075
      in middle < twice \<or> middle = twice \<and> even n)"

definition infinity_bits :: nat where
  "infinity_bits = 2047 * 2 ^ 52"

text \<open>The largest number that is reached, bit by bit.\<close>

fun nearest_bits :: "nat \<Rightarrow> nat \<Rightarrow> int \<Rightarrow> nat \<Rightarrow> nat" where
  "nearest_bits 0 m e n = n"
| "nearest_bits (Suc i) m e n =
     nearest_bits i m e (if n + 2 ^ i \<le> infinity_bits \<and> reaches m e (n + 2 ^ i) then n + 2 ^ i else n)"

definition strtod :: "bytes \<Rightarrow> double" where
  "strtod s =
     (let (m, e) = decimal_parts s; value = of_nat (nearest_bits 63 m e 0)
      in if take 1 s = ''-'' then negated value else value)"

end
