(* ===== verification/Json_Value.thy ===== *)
theory Json_Value
  imports Cxx_Double "HOL-Library.Char_ord" "HOL-Library.List_Lexorder"
begin

text \<open>
  \<open>nlohmann::basic_json\<close> (\<^verbatim>\<open>include/nlohmann/json.hpp\<close>) as the program uses it: the value
  type, the object map (\<open>std::map\<close> with \<open>std::less\<close>: an association list sorted by key),
  element access with and without bounds checking, and the conversion to \<open>std::string\<close>.

  References into a document are paths from the root.
\<close>

datatype json =
    JNull
  | JBool bool
  | JInteger int
  | JUnsigned nat
  | JFloat double
  | JString bytes
  | JArray "json list"
  | JObject "(bytes \<times> json) list"

fun is_object :: "json \<Rightarrow> bool" where
  "is_object (JObject _) = True"
| "is_object _ = False"

fun is_array :: "json \<Rightarrow> bool" where
  "is_array (JArray _) = True"
| "is_array _ = False"

lemma is_object_iff: "is_object j \<longleftrightarrow> (\<exists>m. j = JObject m)"
  by (cases j) auto

section \<open>The object map\<close>

text \<open>\<open>emplace (key, null)\<close>: insert at the key's place, or leave the entry that is there.\<close>

fun obj_emplace :: "bytes \<Rightarrow> 'v \<Rightarrow> (bytes \<times> 'v) list \<Rightarrow> (bytes \<times> 'v) list" where
  "obj_emplace k v [] = [(k, v)]"
| "obj_emplace k v ((k', v') # m) =
     (if k < k' then (k, v) # (k', v') # m
      else if k = k' then (k', v') # m
      else (k', v') # obj_emplace k v m)"

text \<open>Assignment through the reference to the entry of a key.\<close>

definition obj_modify :: "bytes \<Rightarrow> ('v \<Rightarrow> 'v) \<Rightarrow> (bytes \<times> 'v) list \<Rightarrow> (bytes \<times> 'v) list" where
  "obj_modify k f m = map (\<lambda>(k', v). (k', if k' = k then f v else v)) m"

definition obj_assign :: "bytes \<Rightarrow> json \<Rightarrow> (bytes \<times> json) list \<Rightarrow> (bytes \<times> json) list" where
  "obj_assign k v m = obj_modify k (\<lambda>_. v) (obj_emplace k JNull m)"

definition obj_sorted :: "(bytes \<times> 'v) list \<Rightarrow> bool" where
  "obj_sorted m \<longleftrightarrow> sorted (map fst m) \<and> distinct (map fst m)"

lemma obj_modify_Nil [simp]: "obj_modify k f [] = []"
  by (simp add: obj_modify_def)

lemma obj_modify_Cons [simp]:
  "obj_modify k f ((k', v) # m) = (k', if k' = k then f v else v) # obj_modify k f m"
  by (simp add: obj_modify_def)

lemma map_fst_obj_modify [simp]: "map fst (obj_modify k f m) = map fst m"
  by (induction m) auto

lemma map_of_obj_modify:
  "map_of (obj_modify k f m) k' = (if k' = k then map_option f (map_of m k') else map_of m k')"
  by (induction m) auto

lemma obj_modify_compose: "obj_modify k f (obj_modify k g m) = obj_modify k (\<lambda>x. f (g x)) m"
  by (induction m) auto

lemma set_keys_emplace: "fst ` set (obj_emplace k v m) = insert k (fst ` set m)"
proof (induction m)
  case (Cons a m)
  then show ?case by (cases a) (simp, blast)
qed simp

lemma map_of_obj_emplace:
  "obj_sorted m \<Longrightarrow> map_of (obj_emplace k v m) k' =
     (if k' = k then (case map_of m k of None \<Rightarrow> Some v | Some w \<Rightarrow> Some w) else map_of m k')"
proof (induction m)
  case Nil
  then show ?case by simp
next
  case (Cons a m)
  obtain k1 v1 where a: "a = (k1, v1)" by (cases a) auto
  have sorted_m: "obj_sorted m" and k1: "\<forall>x \<in> fst ` set m. k1 < x"
    using Cons.prems a by (auto simp: obj_sorted_def less_le)
  have "k < k1 \<Longrightarrow> map_of m k = None"
    using k1 by (auto simp: map_of_eq_None_iff dest: less_trans)
  then show ?case using Cons.IH [OF sorted_m] by (auto simp: a)
qed

lemma obj_sorted_emplace: "obj_sorted m \<Longrightarrow> obj_sorted (obj_emplace k v m)"
proof (induction m)
  case Nil
  then show ?case by (simp add: obj_sorted_def)
next
  case (Cons a m)
  obtain k1 v1 where a: "a = (k1, v1)" by (cases a) auto
  have sorted_m: "obj_sorted m" and k1: "\<forall>x \<in> fst ` set m. k1 < x"
    using Cons.prems a by (auto simp: obj_sorted_def less_le)
  have "\<not> k < k1 \<Longrightarrow> k \<noteq> k1 \<Longrightarrow> obj_sorted ((k1, v1) # obj_emplace k v m)"
    using Cons.IH [OF sorted_m] k1 set_keys_emplace [of k v m]
    by (auto simp: obj_sorted_def image_iff less_le)
  moreover have "k < k1 \<Longrightarrow> obj_sorted ((k, v) # (k1, v1) # m)"
    using Cons.prems k1 by (auto simp: obj_sorted_def a dest: less_trans)
  ultimately show ?case using Cons.prems by (auto simp: a)
qed

lemma obj_sorted_assign: "obj_sorted m \<Longrightarrow> obj_sorted (obj_assign k v m)"
  using obj_sorted_emplace [of m k JNull] by (simp add: obj_assign_def obj_sorted_def)

lemma map_of_obj_assign:
  "obj_sorted m \<Longrightarrow> map_of (obj_assign k v m) k' = (if k' = k then Some v else map_of m k')"
  by (auto simp: obj_assign_def map_of_obj_modify map_of_obj_emplace split: option.splits)

lemma obj_emplace_last:
  "\<forall>x \<in> fst ` set m. x < k \<Longrightarrow> obj_emplace k v m = m @ [(k, v)]"
  by (induction m) (auto dest: less_imp_not_less)

lemma obj_modify_last:
  "k \<notin> fst ` set m \<Longrightarrow> obj_modify k f (m @ [(k, v)]) = m @ [(k, f v)]"
  by (induction m) auto

lemma obj_assign_last: "\<forall>x \<in> fst ` set m. x < k \<Longrightarrow> obj_assign k v m = m @ [(k, v)]"
  unfolding obj_assign_def by (subst obj_emplace_last, simp, rule obj_modify_last, auto)

section \<open>Element access\<close>

text \<open>\<open>at\<close> (checked), the two forms of \<open>operator[]\<close>, and \<open>get<std::string>\<close>.\<close>

fun json_at :: "json \<Rightarrow> bytes \<Rightarrow> json result" where
  "json_at (JObject m) k = (case map_of m k of None \<Rightarrow> Inl (Json_out_of_range 403) | Some v \<Rightarrow> Inr v)"
| "json_at _ k = Inl (Json_type_error 304)"

text \<open>The \<open>const\<close> form asserts that the key is there.\<close>

fun json_index_const :: "json \<Rightarrow> bytes \<Rightarrow> json result" where
  "json_index_const (JObject m) k = (case map_of m k of
       None \<Rightarrow> Inl (Assertion_failed ''it != m_data.m_value.object->end()'')
     | Some v \<Rightarrow> Inr v)"
| "json_index_const _ k = Inl (Json_type_error 305)"

text \<open>The mutable form, used as \<open>j[key] = v\<close>.\<close>

fun json_index_assign :: "json \<Rightarrow> bytes \<Rightarrow> json \<Rightarrow> json result" where
  "json_index_assign JNull k v = Inr (JObject (obj_assign k v []))"
| "json_index_assign (JObject m) k v = Inr (JObject (obj_assign k v m))"
| "json_index_assign _ k v = Inl (Json_type_error 305)"

fun get_string :: "json \<Rightarrow> bytes result" where
  "get_string (JString s) = Inr s"
| "get_string _ = Inl (Json_type_error 302)"

section \<open>References into a document\<close>

datatype ref_step = Idx nat | Key bytes

type_synonym json_ref = "ref_step list"

fun json_get :: "json \<Rightarrow> json_ref \<Rightarrow> json option" where
  "json_get j [] = Some j"
| "json_get (JArray vs) (Idx i # p) = (if i < length vs then json_get (vs ! i) p else None)"
| "json_get (JObject m) (Key k # p) = (case map_of m k of None \<Rightarrow> None | Some v \<Rightarrow> json_get v p)"
| "json_get _ (_ # p) = None"

fun json_mod :: "json_ref \<Rightarrow> (json \<Rightarrow> json) \<Rightarrow> json \<Rightarrow> json" where
  "json_mod [] f j = f j"
| "json_mod (Idx i # p) f (JArray vs) = JArray (vs[i := json_mod p f (vs ! i)])"
| "json_mod (Key k # p) f (JObject m) = JObject (obj_modify k (json_mod p f) m)"
| "json_mod (_ # p) f j = j"

lemma json_mod_append: "json_mod (p @ q) f j = json_mod p (json_mod q f) j"
  by (induction p f j rule: json_mod.induct) (simp_all add: obj_modify_def split_beta)

lemma json_mod_compose: "json_mod p f (json_mod p g j) = json_mod p (\<lambda>x. f (g x)) j"
proof (induction p g j rule: json_mod.induct)
  case (2 i p g vs)
  then show ?case by (cases "i < length vs") (auto simp: list_update_beyond)
qed (simp_all add: obj_modify_compose)

lemma json_get_append:
  "json_get j (p @ q) = (case json_get j p of None \<Rightarrow> None | Some x \<Rightarrow> json_get x q)"
  by (induction j p rule: json_get.induct) (auto split: option.splits)

lemma json_get_mod:
  "json_get j p = Some x \<Longrightarrow> json_get (json_mod p f j) p = Some (f x)"
  by (induction j p rule: json_get.induct)
     (auto simp: map_of_obj_modify split: if_splits option.splits)

end
