(* ===== verification/Json_Lexer.thy ===== *)
theory Json_Lexer
  imports Json_Value Cxx_Strings
begin

text \<open>
  \<open>nlohmann::detail::lexer\<close> (\<^verbatim>\<open>include/nlohmann/json.hpp\<close>, lines 7304 to 8800) over a
  byte buffer. The lexer object is a record; every member function takes it and returns it
  updated. End of file is \<open>None\<close> where the code has \<open>char_traits::eof()\<close>. The decimal point
  is \<open>'.'\<close> (the program never leaves the C locale) and comments are not ignored
  (\<open>json::parse\<close>'s default), so \<open>scan_comment\<close> is never called.
\<close>

datatype token_type = uninitialized | literal_true | literal_false | literal_null | value_string
  | value_unsigned | value_integer | value_float | begin_array | begin_object | end_array
  | end_object | name_separator | value_separator | parse_error | end_of_input | literal_or_value

record lexer =
  ia :: bytes
  current :: "byte option"
  next_unget :: bool
  chars_read_total :: nat
  chars_read_current_line :: nat
  lines_read :: nat
  token_string :: bytes
  token_buffer :: bytes
  error_message :: string
  lex_integer :: int
  lex_unsigned :: nat
  lex_float :: double

definition new_lexer :: "bytes \<Rightarrow> lexer" where
  "new_lexer input = \<lparr>ia = input, current = None, next_unget = False, chars_read_total = 0,
     chars_read_current_line = 0, lines_read = 0, token_string = [], token_buffer = [],
     error_message = [], lex_integer = 0, lex_unsigned = 0, lex_float = 0\<rparr>"

section \<open>Input management\<close>

definition lex_reset :: "lexer \<Rightarrow> lexer" where
  "lex_reset lx = lx\<lparr>token_buffer := [], token_string := (case current lx of None \<Rightarrow> [NUL] | Some c \<Rightarrow> [c])\<rparr>"

text \<open>The read proper: either the character put back, or the next one of the input.\<close>

definition lex_fetch :: "lexer \<Rightarrow> lexer" where
  "lex_fetch lx = (if next_unget lx then lx\<lparr>next_unget := False\<rparr>
     else (case ia lx of [] \<Rightarrow> lx\<lparr>current := None\<rparr> | c # cs \<Rightarrow> lx\<lparr>current := Some c, ia := cs\<rparr>))"

definition lex_get :: "lexer \<Rightarrow> lexer" where
  "lex_get lx =
     (let lx = lx\<lparr>chars_read_total := chars_read_total lx + 1,
                  chars_read_current_line := chars_read_current_line lx + 1\<rparr>;
          lx = lex_fetch lx;
          lx = (case current lx of None \<Rightarrow> lx | Some c \<Rightarrow> lx\<lparr>token_string := token_string lx @ [c]\<rparr>)
      in if current lx = Some (CHR ''\<newline>'')
         then lx\<lparr>lines_read := lines_read lx + 1, chars_read_current_line := 0\<rparr> else lx)"

definition lex_unget :: "lexer \<Rightarrow> lexer" where
  "lex_unget lx =
     (let lx = lx\<lparr>next_unget := True, chars_read_total := chars_read_total lx - 1\<rparr>;
          lx = (if chars_read_current_line lx = 0
                then (if lines_read lx > 0 then lx\<lparr>lines_read := lines_read lx - 1\<rparr> else lx)
                else lx\<lparr>chars_read_current_line := chars_read_current_line lx - 1\<rparr>)
      in case current lx of None \<Rightarrow> lx | Some _ \<Rightarrow> lx\<lparr>token_string := butlast (token_string lx)\<rparr>)"

definition lex_add :: "lexer \<Rightarrow> byte \<Rightarrow> lexer" where
  "lex_add lx c = lx\<lparr>token_buffer := token_buffer lx @ [c]\<rparr>"

definition lex_error :: "lexer \<Rightarrow> string \<Rightarrow> token_type \<times> lexer" where
  "lex_error lx msg = (parse_error, lx\<lparr>error_message := msg\<rparr>)"

text \<open>The input that is still to be read: what termination and the parsing lemmas are about.\<close>

definition unread :: "lexer \<Rightarrow> bytes" where
  "unread lx = (if next_unget lx then (case current lx of None \<Rightarrow> [] | Some c \<Rightarrow> [c]) else []) @ ia lx"

text \<open>End of file is put back only at the end of the input.\<close>

definition lex_ok :: "lexer \<Rightarrow> bool" where
  "lex_ok lx \<longleftrightarrow> (next_unget lx \<longrightarrow> current lx = None \<longrightarrow> ia lx = [])"

lemma lex_get_current:
  "lex_ok lx \<Longrightarrow> current (lex_get lx) = (case unread lx of [] \<Rightarrow> None | c # _ \<Rightarrow> Some c)"
  by (auto simp: lex_get_def lex_fetch_def unread_def lex_ok_def Let_def split: option.splits list.splits)

lemma lex_get_unread: "unread (lex_get lx) = (if lex_ok lx then tl (unread lx) else unread (lex_get lx))"
  by (auto simp: lex_get_def lex_fetch_def unread_def lex_ok_def Let_def split: option.splits list.splits)

lemma lex_get_unread_le: "length (unread (lex_get lx)) \<le> length (unread lx)"
  by (auto simp: lex_get_def lex_fetch_def unread_def Let_def split: option.splits list.splits)

lemma lex_get_unread_less:
  "current (lex_get lx) = Some c \<Longrightarrow> length (unread (lex_get lx)) < length (unread lx)"
  by (auto simp: lex_get_def lex_fetch_def unread_def Let_def split: option.splits list.splits if_splits)

lemma lex_get_next_unget [simp]: "next_unget (lex_get lx) = False"
  by (auto simp: lex_get_def lex_fetch_def Let_def split: option.splits list.splits)

lemma lex_get_ok [simp]: "lex_ok (lex_get lx)"
  by (simp add: lex_ok_def)

lemma lex_get_buffer [simp]: "token_buffer (lex_get lx) = token_buffer lx"
  by (auto simp: lex_get_def lex_fetch_def Let_def split: option.splits list.splits)

lemma lex_add_simps [simp]:
  "unread (lex_add lx c) = unread lx" "current (lex_add lx c) = current lx"
  "next_unget (lex_add lx c) = next_unget lx" "lex_ok (lex_add lx c) = lex_ok lx"
  "token_buffer (lex_add lx c) = token_buffer lx @ [c]"
  by (simp_all add: lex_add_def unread_def lex_ok_def)

lemma lex_reset_simps [simp]:
  "unread (lex_reset lx) = unread lx" "current (lex_reset lx) = current lx"
  "next_unget (lex_reset lx) = next_unget lx" "lex_ok (lex_reset lx) = lex_ok lx"
  "token_buffer (lex_reset lx) = []"
  by (simp_all add: lex_reset_def unread_def lex_ok_def)

lemma lex_error_simps [simp]:
  "fst (lex_error lx msg) = parse_error" "unread (snd (lex_error lx msg)) = unread lx"
  "lex_ok (snd (lex_error lx msg)) = lex_ok lx" "token_buffer (snd (lex_error lx msg)) = token_buffer lx"
  by (simp_all add: lex_error_def unread_def lex_ok_def)

lemma lex_unget_simps [simp]:
  "next_unget (lex_unget lx)" "current (lex_unget lx) = current lx" "ia (lex_unget lx) = ia lx"
  "token_buffer (lex_unget lx) = token_buffer lx"
  by (auto simp: lex_unget_def Let_def split: option.splits)

section \<open>Strings\<close>

text \<open>Four hex digits after \<open>\u\<close>, most significant first; -1 in case of an error.\<close>

fun get_codepoint_loop :: "nat list \<Rightarrow> int \<Rightarrow> lexer \<Rightarrow> int \<times> lexer" where
  "get_codepoint_loop [] codepoint lx = (codepoint, lx)"
| "get_codepoint_loop (factor # factors) codepoint lx =
     (let lx = lex_get lx in
      case current lx of
        None \<Rightarrow> (-1, lx)
      | Some c \<Rightarrow>
         (let v = byte_val c in
          if 48 \<le> v \<and> v \<le> 57 then get_codepoint_loop factors (codepoint + int ((v - 0x30) * 2 ^ factor)) lx
          else if 65 \<le> v \<and> v \<le> 70 then get_codepoint_loop factors (codepoint + int ((v - 0x37) * 2 ^ factor)) lx
          else if 97 \<le> v \<and> v \<le> 102 then get_codepoint_loop factors (codepoint + int ((v - 0x57) * 2 ^ factor)) lx
          else (-1, lx)))"

definition get_codepoint :: "lexer \<Rightarrow> int \<times> lexer" where
  "get_codepoint lx = get_codepoint_loop [12, 8, 4, 0] 0 lx"

text \<open>The current byte is added, then one byte per range must lie in the range and is added.\<close>

fun next_bytes_loop :: "(nat \<times> nat) list \<Rightarrow> lexer \<Rightarrow> bool \<times> lexer" where
  "next_bytes_loop [] lx = (True, lx)"
| "next_bytes_loop ((lo, hi) # ranges) lx =
     (let lx = lex_get lx in
      case current lx of
        Some c \<Rightarrow> (if lo \<le> byte_val c \<and> byte_val c \<le> hi then next_bytes_loop ranges (lex_add lx c)
                  else (False, lx\<lparr>error_message := ''invalid string: ill-formed UTF-8 byte''\<rparr>))
      | None \<Rightarrow> (False, lx\<lparr>error_message := ''invalid string: ill-formed UTF-8 byte''\<rparr>))"

definition next_byte_in_range :: "(nat \<times> nat) list \<Rightarrow> byte \<Rightarrow> lexer \<Rightarrow> bool \<times> lexer" where
  "next_byte_in_range ranges cur lx = next_bytes_loop ranges (lex_add lx cur)"

text \<open>A code point as one to four UTF-8 bytes.\<close>

definition utf8_encode :: "nat \<Rightarrow> bytes" where
  "utf8_encode cp =
     (if cp < 0x80 then [byte_of cp]
      else if cp \<le> 0x7FF then [byte_of (0xC0 + cp div 64), byte_of (0x80 + cp mod 64)]
      else if cp \<le> 0xFFFF then
        [byte_of (0xE0 + cp div 4096), byte_of (0x80 + cp div 64 mod 64), byte_of (0x80 + cp mod 64)]
      else
        [byte_of (0xF0 + cp div 262144), byte_of (0x80 + cp div 4096 mod 64),
         byte_of (0x80 + cp div 64 mod 64), byte_of (0x80 + cp mod 64)])"

definition add_all :: "lexer \<Rightarrow> bytes \<Rightarrow> lexer" where
  "add_all lx bs = foldl lex_add lx bs"

text \<open>A scanning step either finishes the token (\<open>Some\<close>) or leaves the loop running.\<close>

type_synonym lex_step = "token_type option \<times> lexer"

definition step_error :: "lexer \<Rightarrow> string \<Rightarrow> lex_step" where
  "step_error lx msg = (Some parse_error, lx\<lparr>error_message := msg\<rparr>)"

definition hex_digits_error :: string where
  "hex_digits_error = ''invalid string: '' @ [CHR 0x27, CHR 0x5C, CHR ''u'', CHR 0x27] @
     '' must be followed by 4 hex digits''"

definition scan_unicode_escape :: "lexer \<Rightarrow> lex_step" where
  "scan_unicode_escape lx =
     (let (codepoint1, lx) = get_codepoint lx in
      if codepoint1 = -1 then step_error lx hex_digits_error
      else if 0xD800 \<le> codepoint1 \<and> codepoint1 \<le> 0xDBFF then
        (let lx = lex_get lx in
         if current lx \<noteq> Some (CHR 0x5C)
         then step_error lx ''invalid string: surrogate U+D800..U+DBFF must be followed by U+DC00..U+DFFF''
         else (let lx = lex_get lx in
           if current lx \<noteq> Some (CHR ''u'')
           then step_error lx ''invalid string: surrogate U+D800..U+DBFF must be followed by U+DC00..U+DFFF''
           else (let (codepoint2, lx) = get_codepoint lx in
             if codepoint2 = -1 then step_error lx hex_digits_error
             else if 0xDC00 \<le> codepoint2 \<and> codepoint2 \<le> 0xDFFF
             then (None, add_all lx (utf8_encode (nat (codepoint1 * 1024 + codepoint2 - 0x35FDC00))))
             else step_error lx ''invalid string: surrogate U+D800..U+DBFF must be followed by U+DC00..U+DFFF'')))
      else if 0xDC00 \<le> codepoint1 \<and> codepoint1 \<le> 0xDFFF
      then step_error lx ''invalid string: surrogate U+DC00..U+DFFF must follow U+D800..U+DBFF''
      else (None, add_all lx (utf8_encode (nat codepoint1))))"

definition scan_escape :: "lexer \<Rightarrow> lex_step" where
  "scan_escape lx =
     (let lx = lex_get lx in
      case current lx of
        None \<Rightarrow> step_error lx ''invalid string: forbidden character after backslash''
      | Some c \<Rightarrow>
          (if c = CHR 0x22 then (None, lex_add lx (CHR 0x22))
           else if c = CHR 0x5C then (None, lex_add lx (CHR 0x5C))
           else if c = CHR ''/'' then (None, lex_add lx (CHR ''/''))
           else if c = CHR ''b'' then (None, lex_add lx (CHR 0x08))
           else if c = CHR ''f'' then (None, lex_add lx (CHR 0x0C))
           else if c = CHR ''n'' then (None, lex_add lx (CHR 0x0A))
           else if c = CHR ''r'' then (None, lex_add lx (CHR 0x0D))
           else if c = CHR ''t'' then (None, lex_add lx (CHR 0x09))
           else if c = CHR ''u'' then scan_unicode_escape lx
           else step_error lx ''invalid string: forbidden character after backslash''))"

definition control_names :: "string list" where
  "control_names = [''0000 (NUL'', ''0001 (SOH'', ''0002 (STX'', ''0003 (ETX'', ''0004 (EOT'',
     ''0005 (ENQ'', ''0006 (ACK'', ''0007 (BEL'', ''0008 (BS'', ''0009 (HT'', ''000A (LF'',
     ''000B (VT'', ''000C (FF'', ''000D (CR'', ''000E (SO'', ''000F (SI'', ''0010 (DLE'',
     ''0011 (DC1'', ''0012 (DC2'', ''0013 (DC3'', ''0014 (DC4'', ''0015 (NAK'', ''0016 (SYN'',
     ''0017 (ETB'', ''0018 (CAN'', ''0019 (EM'', ''001A (SUB'', ''001B (ESC'', ''001C (FS'',
     ''001D (GS'', ''001E (RS'', ''001F (US'']"

definition control_escape_hint :: "nat \<Rightarrow> string" where
  "control_escape_hint v = (if v = 8 then '' or '' @ [CHR 0x5C, CHR ''b''] else if v = 9 then '' or '' @ [CHR 0x5C, CHR ''t'']
     else if v = 10 then '' or '' @ [CHR 0x5C, CHR ''n''] else if v = 12 then '' or '' @ [CHR 0x5C, CHR ''f'']
     else if v = 13 then '' or '' @ [CHR 0x5C, CHR ''r''] else [])"

definition control_error :: "nat \<Rightarrow> string" where
  "control_error v = ''invalid string: control character U+'' @ control_names ! v @
     '') must be escaped to '' @ [CHR 0x5C, CHR ''u''] @ take 4 (control_names ! v) @ control_escape_hint v"

text \<open>The cases U+0020 to U+007F; the quote and the backslash are matched before them.\<close>

definition plain_ascii :: "nat \<Rightarrow> bool" where
  "plain_ascii v \<longleftrightarrow> 0x20 \<le> v \<and> v \<le> 0x7F"

declare plain_ascii_def [simp]

text \<open>The continuation ranges for a UTF-8 lead byte: \<open>None\<close> for an ill-formed one.\<close>

definition utf8_ranges :: "nat \<Rightarrow> (nat \<times> nat) list option" where
  "utf8_ranges v =
     (if plain_ascii v then Some []
      else if 0xC2 \<le> v \<and> v \<le> 0xDF then Some [(0x80, 0xBF)]
      else if v = 0xE0 then Some [(0xA0, 0xBF), (0x80, 0xBF)]
      else if (0xE1 \<le> v \<and> v \<le> 0xEC) \<or> v = 0xEE \<or> v = 0xEF then Some [(0x80, 0xBF), (0x80, 0xBF)]
      else if v = 0xED then Some [(0x80, 0x9F), (0x80, 0xBF)]
      else if v = 0xF0 then Some [(0x90, 0xBF), (0x80, 0xBF), (0x80, 0xBF)]
      else if 0xF1 \<le> v \<and> v \<le> 0xF3 then Some [(0x80, 0xBF), (0x80, 0xBF), (0x80, 0xBF)]
      else if v = 0xF4 then Some [(0x80, 0x8F), (0x80, 0xBF), (0x80, 0xBF)]
      else None)"

text \<open>One round of the loop of \<open>scan_string\<close>.\<close>

definition scan_string_step :: "lexer \<Rightarrow> lex_step" where
  "scan_string_step lx =
     (let lx = lex_get lx in
      case current lx of
        None \<Rightarrow> step_error lx ''invalid string: missing closing quote''
      | Some c \<Rightarrow>
         (let v = byte_val c in
          if c = CHR 0x22 then (Some value_string, lx)
          else if c = CHR 0x5C then scan_escape lx
          else if v \<le> 0x1F then step_error lx (control_error v)
          else (case utf8_ranges v of
              None \<Rightarrow> step_error lx ''invalid string: ill-formed UTF-8 byte''
            | Some ranges \<Rightarrow>
                (case next_byte_in_range ranges c lx of
                   (True, lx) \<Rightarrow> (None, lx)
                 | (False, lx) \<Rightarrow> (Some parse_error, lx)))))"


text \<open>Nothing is ever put back while a string is scanned.\<close>

definition unread_len :: "lexer \<Rightarrow> nat" where
  "unread_len lx = length (unread lx)"

lemma unread_len_get_le: "unread_len (lex_get lx) \<le> unread_len lx"
  by (simp add: unread_len_def lex_get_unread_le)

lemma unread_len_get_less: "current (lex_get lx) = Some c \<Longrightarrow> unread_len (lex_get lx) < unread_len lx"
  by (simp add: unread_len_def lex_get_unread_less)

lemma unread_error_message [simp]: "unread (lx\<lparr>error_message := m\<rparr>) = unread lx"
  by (simp add: unread_def)

lemma lex_ok_error_message [simp]: "lex_ok (lx\<lparr>error_message := m\<rparr>) = lex_ok lx"
  by (simp add: lex_ok_def)

lemma unread_len_simps [simp]:
  "unread_len (lex_add lx c) = unread_len lx" "unread_len (lex_reset lx) = unread_len lx"
  "unread_len (lx\<lparr>error_message := m\<rparr>) = unread_len lx"
  by (simp_all add: unread_len_def)

lemma add_all_simps [simp]:
  "unread (add_all lx bs) = unread lx" "lex_ok (add_all lx bs) = lex_ok lx"
  "token_buffer (add_all lx bs) = token_buffer lx @ bs" "next_unget (add_all lx bs) = next_unget lx"
  by (induction bs arbitrary: lx) (simp_all add: add_all_def)

lemma unread_len_add_all [simp]: "unread_len (add_all lx bs) = unread_len lx"
  by (simp add: unread_len_def)

lemma get_codepoint_loop_unread:
  "unread_len (snd (get_codepoint_loop fs cp lx)) \<le> unread_len lx"
proof (induction fs arbitrary: cp lx)
  case (Cons f fs)
  show ?case
    using Cons.IH [of _ "lex_get lx"] unread_len_get_le [of lx]
    by (auto simp: Let_def split: option.splits intro: le_trans)
qed simp

lemma next_bytes_loop_unread: "unread_len (snd (next_bytes_loop rs lx)) \<le> unread_len lx"
proof (induction rs arbitrary: lx)
  case (Cons r rs)
  show ?case
    using Cons.IH [of "lex_add (lex_get lx) _"] unread_len_get_le [of lx]
    by (cases r) (auto simp: Let_def split: option.splits intro: le_trans)
qed simp

text \<open>The amount of unread input never grows: introduction rules that peel off one call.\<close>

named_theorems unread_intros \<open>unread_len of a call is at most that of its argument\<close>

lemma unread_len_getI [unread_intros]: "unread_len lx \<le> n \<Longrightarrow> unread_len (lex_get lx) \<le> n"
  using unread_len_get_le [of lx] by simp

lemma unread_len_codepointI [unread_intros]:
  "unread_len lx \<le> n \<Longrightarrow> unread_len (snd (get_codepoint lx)) \<le> n"
  unfolding get_codepoint_def by (rule le_trans [OF get_codepoint_loop_unread])

lemma unread_len_next_byteI [unread_intros]:
  "unread_len lx \<le> n \<Longrightarrow> unread_len (snd (next_byte_in_range rs c lx)) \<le> n"
  using next_bytes_loop_unread [of rs "lex_add lx c"] by (simp add: next_byte_in_range_def)

lemma unread_len_unicode_escapeI [unread_intros]:
  "unread_len lx \<le> n \<Longrightarrow> unread_len (snd (scan_unicode_escape lx)) \<le> n"
  by (simp add: scan_unicode_escape_def step_error_def Let_def split_beta unread_intros)

lemma unread_len_escapeI [unread_intros]:
  "unread_len lx \<le> n \<Longrightarrow> unread_len (snd (scan_escape lx)) \<le> n"
  by (simp add: scan_escape_def step_error_def Let_def unread_intros split: option.split)

lemma scan_string_step_unread_le:
  "unread_len (snd (scan_string_step lx)) \<le> unread_len (lex_get lx)"
proof -
  have "unread_len (snd (case next_byte_in_range rs c l of (True, lx) \<Rightarrow> (None, lx)
           | (False, lx) \<Rightarrow> (Some parse_error, lx))) \<le> n"
    if "unread_len l \<le> n" for rs c l n
    using unread_len_next_byteI [OF that, of rs c]
    by (cases "next_byte_in_range rs c l") (auto split: bool.split)
  then show ?thesis
    by (simp add: scan_string_step_def step_error_def Let_def unread_intros split: option.split)
qed

lemma scan_string_step_continues:
  assumes "scan_string_step lx = (r, lx')" and "r \<noteq> Some parse_error"
  shows "unread_len lx' < unread_len lx"
proof (cases "current (lex_get lx)")
  case None
  then show ?thesis using assms by (simp add: scan_string_step_def step_error_def)
next
  case (Some c)
  have "unread_len lx' \<le> unread_len (lex_get lx)"
    using scan_string_step_unread_le [of lx] assms(1) by simp
  then show ?thesis using unread_len_get_less [OF Some] by simp
qed

function scan_string_loop :: "lexer \<Rightarrow> token_type \<times> lexer" where
  "scan_string_loop lx = (case scan_string_step lx of
       (Some t, lx') \<Rightarrow> (t, lx')
     | (None, lx') \<Rightarrow> scan_string_loop lx')"
  by pat_completeness auto
termination
  by (relation "measure unread_len") (auto dest!: sym [of _ "scan_string_step _"] dest: scan_string_step_continues)

declare scan_string_loop.simps [simp del]

definition scan_string :: "lexer \<Rightarrow> token_type \<times> lexer" where
  "scan_string lx = scan_string_loop (lex_reset lx)"

lemma scan_string_loop_token:
  "scan_string_loop lx = (t, lx') \<Longrightarrow>
   unread_len lx' \<le> unread_len lx \<and> t \<in> {value_string, parse_error}"
proof (induction lx rule: scan_string_loop.induct)
  case (1 lx)
  obtain r l where step: "scan_string_step lx = (r, l)" by fastforce
  have le: "unread_len l \<le> unread_len lx"
    using scan_string_step_unread_le [of lx] unread_len_get_le [of lx] step by simp
  show ?case
  proof (cases r)
    case None
    then show ?thesis using "1.IH" "1.prems" step le by (simp add: scan_string_loop.simps [of lx])
  next
    case (Some t')
    have "t' \<in> {value_string, parse_error}"
      using step Some
      by (auto simp: scan_string_step_def scan_escape_def scan_unicode_escape_def step_error_def
          Let_def split_beta split: option.splits if_splits bool.splits prod.splits)
    then show ?thesis using "1.prems" step Some le by (simp add: scan_string_loop.simps [of lx])
  qed
qed

end
