(* ===== verification/Json_Scan.thy ===== *)
theory Json_Scan
  imports Json_Lexer
begin

text \<open>
  The rest of the lexer: numbers (the state machine of \<open>scan_number\<close>, one function per label),
  literals, the byte order mark, white space and \<open>scan\<close> itself, with the fact that every token
  other than end of input and an error consumes input.
\<close>

section \<open>Numbers\<close>

text \<open>The self-loops of the labels \<open>any1\<close>, \<open>decimal2\<close> and \<open>any2\<close>: digits are added until
  another character (or the end of file) is current.\<close>

function digits_loop :: "lexer \<Rightarrow> lexer" where
  "digits_loop lx = (let lx' = lex_get lx in
     case current lx' of
       None \<Rightarrow> lx'
     | Some c \<Rightarrow> if is_digit c then digits_loop (lex_add lx' c) else lx')"
  by pat_completeness auto
termination
  by (relation "measure unread_len") (auto dest: unread_len_get_less)

declare digits_loop.simps [simp del]

text \<open>\<open>strtoull\<close> and \<open>strtoll\<close> report \<open>ERANGE\<close> outside 64 bits, and then the number is
  read as a \<open>double\<close>.\<close>

definition scan_number_done :: "token_type \<Rightarrow> lexer \<Rightarrow> token_type \<times> lexer" where
  "scan_number_done number_type lx =
     (let lx = lex_unget lx;
          as_float = (value_float, lx\<lparr>lex_float := strtod (token_buffer lx)\<rparr>)
      in case strto_scan (token_buffer lx) of
           None \<Rightarrow> as_float
         | Some (neg, x) \<Rightarrow>
             (if number_type = value_unsigned then
                (if x < 2 ^ 64 then (value_unsigned, lx\<lparr>lex_unsigned := x\<rparr>) else as_float)
              else if number_type = value_integer then
                (let v = (if neg then - int x else int x) in
                 if - (2 ^ 63) \<le> v \<and> v < 2 ^ 63 then (value_integer, lx\<lparr>lex_integer := v\<rparr>) else as_float)
              else as_float))"

text \<open>Messages that quote a character.\<close>

definition quoted :: "byte \<Rightarrow> string" where
  "quoted c = [CHR 0x27, c, CHR 0x27]"

definition digit_after_msg :: "byte \<Rightarrow> string" where
  "digit_after_msg c = ''invalid number; expected digit after '' @ quoted c"

definition exponent_digit_msg :: string where
  "exponent_digit_msg = ''invalid number; expected '' @ quoted (CHR ''+'') @ '', '' @ quoted (CHR ''-'') @
     '', or digit after exponent''"

definition scan_number_any2 :: "lexer \<Rightarrow> token_type \<times> lexer" where
  "scan_number_any2 lx = scan_number_done value_float (digits_loop lx)"

definition scan_number_sign :: "lexer \<Rightarrow> token_type \<times> lexer" where
  "scan_number_sign lx =
     (let lx = lex_get lx in
      case current lx of
        Some c \<Rightarrow> if is_digit c then scan_number_any2 (lex_add lx c)
                  else lex_error lx ''invalid number; expected digit after exponent sign''
      | None \<Rightarrow> lex_error lx ''invalid number; expected digit after exponent sign'')"

definition scan_number_exponent :: "lexer \<Rightarrow> token_type \<times> lexer" where
  "scan_number_exponent lx =
     (let lx = lex_get lx in
      case current lx of
        Some c \<Rightarrow> if c = CHR ''+'' \<or> c = CHR ''-'' then scan_number_sign (lex_add lx c)
                  else if is_digit c then scan_number_any2 (lex_add lx c)
                  else lex_error lx exponent_digit_msg
      | None \<Rightarrow> lex_error lx exponent_digit_msg)"

definition scan_number_decimal2 :: "lexer \<Rightarrow> token_type \<times> lexer" where
  "scan_number_decimal2 lx =
     (let lx = digits_loop lx in
      case current lx of
        Some c \<Rightarrow> if c = CHR ''e'' \<or> c = CHR ''E'' then scan_number_exponent (lex_add lx c)
                  else scan_number_done value_float lx
      | None \<Rightarrow> scan_number_done value_float lx)"

definition scan_number_decimal1 :: "lexer \<Rightarrow> token_type \<times> lexer" where
  "scan_number_decimal1 lx =
     (let lx = lex_get lx in
      case current lx of
        Some c \<Rightarrow> if is_digit c then scan_number_decimal2 (lex_add lx c)
                  else lex_error lx (digit_after_msg (CHR ''.''))
      | None \<Rightarrow> lex_error lx (digit_after_msg (CHR ''.'')))"

text \<open>The common tail of \<open>any1\<close> and \<open>zero\<close>, with a character other than a digit current.\<close>

definition scan_number_tail :: "token_type \<Rightarrow> lexer \<Rightarrow> token_type \<times> lexer" where
  "scan_number_tail number_type lx =
     (case current lx of
        Some c \<Rightarrow> if c = CHR ''.'' then scan_number_decimal1 (lex_add lx (CHR ''.''))
                  else if c = CHR ''e'' \<or> c = CHR ''E'' then scan_number_exponent (lex_add lx c)
                  else scan_number_done number_type lx
      | None \<Rightarrow> scan_number_done number_type lx)"

definition scan_number_any1 :: "token_type \<Rightarrow> lexer \<Rightarrow> token_type \<times> lexer" where
  "scan_number_any1 number_type lx = scan_number_tail number_type (digits_loop lx)"

definition scan_number_zero :: "token_type \<Rightarrow> lexer \<Rightarrow> token_type \<times> lexer" where
  "scan_number_zero number_type lx = scan_number_tail number_type (lex_get lx)"

definition scan_number_minus :: "lexer \<Rightarrow> token_type \<times> lexer" where
  "scan_number_minus lx =
     (let lx = lex_get lx in
      case current lx of
        Some c \<Rightarrow> if c = CHR ''0'' then scan_number_zero value_integer (lex_add lx c)
                  else if is_digit c then scan_number_any1 value_integer (lex_add lx c)
                  else lex_error lx (digit_after_msg (CHR ''-''))
      | None \<Rightarrow> lex_error lx (digit_after_msg (CHR ''-'')))"

text \<open>\<open>scan\<close> calls this with \<open>'-'\<close> or a digit current (the assertion in the code's default
  branch).\<close>

definition scan_number :: "lexer \<Rightarrow> token_type \<times> lexer" where
  "scan_number lx0 =
     (let lx = lex_reset lx0 in
      case current lx of
        Some c \<Rightarrow> if c = CHR ''-'' then scan_number_minus (lex_add lx c)
                  else if c = CHR ''0'' then scan_number_zero value_unsigned (lex_add lx c)
                  else scan_number_any1 value_unsigned (lex_add lx c)
      | None \<Rightarrow> scan_number_minus lx)"

section \<open>Literals, byte order mark, white space\<close>

fun scan_literal_loop :: "bytes \<Rightarrow> token_type \<Rightarrow> lexer \<Rightarrow> token_type \<times> lexer" where
  "scan_literal_loop [] return_type lx = (return_type, lx)"
| "scan_literal_loop (l # ls) return_type lx =
     (let lx = lex_get lx in
      if current lx = Some l then scan_literal_loop ls return_type lx
      else lex_error lx ''invalid literal'')"

definition scan_literal :: "bytes \<Rightarrow> token_type \<Rightarrow> lexer \<Rightarrow> token_type \<times> lexer" where
  "scan_literal literal_text return_type lx = scan_literal_loop (tl literal_text) return_type lx"

definition skip_bom :: "lexer \<Rightarrow> bool \<times> lexer" where
  "skip_bom lx =
     (let lx = lex_get lx in
      if current lx = Some (CHR 0xEF) then
        (let lx = lex_get lx in
         if current lx = Some (CHR 0xBB)
         then (let lx = lex_get lx in (current lx = Some (CHR 0xBF), lx))
         else (False, lx))
      else (True, lex_unget lx))"

definition is_json_ws :: "byte \<Rightarrow> bool" where
  "is_json_ws c \<longleftrightarrow> c = CHR '' '' \<or> c = CHR 0x09 \<or> c = CHR 0x0A \<or> c = CHR 0x0D"

function skip_whitespace :: "lexer \<Rightarrow> lexer" where
  "skip_whitespace lx = (let lx' = lex_get lx in
     case current lx' of
       None \<Rightarrow> lx'
     | Some c \<Rightarrow> if is_json_ws c then skip_whitespace lx' else lx')"
  by pat_completeness auto
termination
  by (relation "measure unread_len") (auto dest: unread_len_get_less)

declare skip_whitespace.simps [simp del]

section \<open>The scanner\<close>

text \<open>The switch of \<open>scan\<close> on the current character.\<close>

definition scan_token :: "lexer \<Rightarrow> token_type \<times> lexer" where
  "scan_token lx =
     (case current lx of
        None \<Rightarrow> (end_of_input, lx)
      | Some c \<Rightarrow>
          (if c = CHR 0x5B then (begin_array, lx)
           else if c = CHR 0x5D then (end_array, lx)
           else if c = CHR 0x7B then (begin_object, lx)
           else if c = CHR 0x7D then (end_object, lx)
           else if c = CHR '':'' then (name_separator, lx)
           else if c = CHR '','' then (value_separator, lx)
           else if c = CHR ''t'' then scan_literal ''true'' literal_true lx
           else if c = CHR ''f'' then scan_literal ''false'' literal_false lx
           else if c = CHR ''n'' then scan_literal ''null'' literal_null lx
           else if c = CHR 0x22 then scan_string lx
           else if c = CHR ''-'' \<or> is_digit c then scan_number lx
           else if c = NUL then (end_of_input, lx)
           else lex_error lx ''invalid literal''))"

definition scan :: "lexer \<Rightarrow> token_type \<times> lexer" where
  "scan lx =
     (let (bom_ok, lx) = (if chars_read_total lx = 0 then skip_bom lx else (True, lx)) in
      if \<not> bom_ok then lex_error lx ''invalid BOM; must be 0xEF 0xBB 0xBF if given''
      else scan_token (skip_whitespace lx))"

section \<open>Progress\<close>

lemma lex_get_fields:
  "current (lex_get lx) = current (lex_fetch lx)" "ia (lex_get lx) = ia (lex_fetch lx)"
  by (auto simp: lex_get_def lex_fetch_def Let_def split: option.split list.split)

lemma unread_unget_get: "unread (lex_unget (lex_get lx)) = unread lx"
  by (simp add: unread_def lex_get_fields) (auto simp: lex_fetch_def split: list.split option.split)

lemma unread_len_unget_get: "unread_len (lex_unget (lex_get lx)) = unread_len lx"
  by (simp add: unread_len_def unread_unget_get)

lemma unread_len_update_simps [simp]:
  "unread_len (lx\<lparr>lex_float := f\<rparr>) = unread_len lx" "unread_len (lx\<lparr>lex_unsigned := u\<rparr>) = unread_len lx"
  "unread_len (lx\<lparr>lex_integer := i\<rparr>) = unread_len lx"
  by (simp_all add: unread_len_def unread_def)

lemma unread_len_errorI [unread_intros]: "unread_len lx \<le> n \<Longrightarrow> unread_len (snd (lex_error lx m)) \<le> n"
  by (simp add: lex_error_def)

lemma digits_loop_get: "\<exists>l. digits_loop lx = lex_get l \<and> unread_len l \<le> unread_len lx"
proof (induction lx rule: digits_loop.induct)
  case (1 lx)
  show ?case
  proof (cases "\<exists>c. current (lex_get lx) = Some c \<and> is_digit c")
    case True
    then obtain c where c: "current (lex_get lx) = Some c" "is_digit c" by blast
    with "1" have "\<exists>l. digits_loop (lex_add (lex_get lx) c) = lex_get l \<and>
        unread_len l \<le> unread_len (lex_get lx)" by auto
    then show ?thesis
      using c unread_len_get_le [of lx] by (auto simp: digits_loop.simps [of lx] intro: le_trans)
  next
    case False
    then have "digits_loop lx = lex_get lx"
      by (auto simp: digits_loop.simps [of lx] Let_def split: option.split)
    then show ?thesis by blast
  qed
qed

lemma unread_len_done [unread_intros]:
  "unread_len lx \<le> n \<Longrightarrow> unread_len (snd (scan_number_done nt (lex_get lx))) \<le> n"
  using unread_unget_get [of lx]
  by (simp add: scan_number_done_def Let_def unread_len_def split: option.split prod.split)
     (simp add: unread_def)

lemma unread_len_digits_doneI [unread_intros]:
  "unread_len lx \<le> n \<Longrightarrow> unread_len (snd (scan_number_done nt (digits_loop lx))) \<le> n"
  using digits_loop_get [of lx] unread_len_done by (metis le_trans)

lemma unread_len_digits_loopI [unread_intros]:
  "unread_len lx \<le> n \<Longrightarrow> unread_len (digits_loop lx) \<le> n"
  using digits_loop_get [of lx] unread_len_getI by (metis le_trans)

lemma unread_len_any2I [unread_intros]:
  "unread_len lx \<le> n \<Longrightarrow> unread_len (snd (scan_number_any2 lx)) \<le> n"
  by (simp add: scan_number_any2_def unread_intros)

lemma unread_len_signI [unread_intros]:
  "unread_len lx \<le> n \<Longrightarrow> unread_len (snd (scan_number_sign lx)) \<le> n"
  by (simp add: scan_number_sign_def Let_def unread_intros split: option.split)

lemma unread_len_exponentI [unread_intros]:
  "unread_len lx \<le> n \<Longrightarrow> unread_len (snd (scan_number_exponent lx)) \<le> n"
  by (simp add: scan_number_exponent_def Let_def unread_intros split: option.split)

lemma unread_len_decimal2I [unread_intros]:
  "unread_len lx \<le> n \<Longrightarrow> unread_len (snd (scan_number_decimal2 lx)) \<le> n"
  by (simp add: scan_number_decimal2_def Let_def unread_intros split: option.split)

lemma unread_len_decimal1I [unread_intros]:
  "unread_len lx \<le> n \<Longrightarrow> unread_len (snd (scan_number_decimal1 lx)) \<le> n"
  by (simp add: scan_number_decimal1_def Let_def unread_intros split: option.split)

lemma unread_len_tail_getI [unread_intros]:
  "unread_len lx \<le> n \<Longrightarrow> unread_len (snd (scan_number_tail nt (lex_get lx))) \<le> n"
  by (simp add: scan_number_tail_def Let_def unread_intros split: option.split)

lemma unread_len_zeroI [unread_intros]:
  "unread_len lx \<le> n \<Longrightarrow> unread_len (snd (scan_number_zero nt lx)) \<le> n"
  by (simp add: scan_number_zero_def unread_intros)

lemma unread_len_any1I [unread_intros]:
  "unread_len lx \<le> n \<Longrightarrow> unread_len (snd (scan_number_any1 nt lx)) \<le> n"
  using digits_loop_get [of lx] unread_len_tail_getI
  by (metis le_trans scan_number_any1_def)

lemma unread_len_minusI [unread_intros]:
  "unread_len lx \<le> n \<Longrightarrow> unread_len (snd (scan_number_minus lx)) \<le> n"
  by (simp add: scan_number_minus_def Let_def unread_intros split: option.split)

lemma unread_len_numberI [unread_intros]:
  "unread_len lx \<le> n \<Longrightarrow> unread_len (snd (scan_number lx)) \<le> n"
  by (simp add: scan_number_def Let_def unread_intros split: option.split)

lemma unread_len_literal_loopI:
  "unread_len lx \<le> n \<Longrightarrow> unread_len (snd (scan_literal_loop ls t lx)) \<le> n"
  by (induction ls arbitrary: lx) (simp_all add: Let_def unread_intros)

lemma unread_len_literalI [unread_intros]:
  "unread_len lx \<le> n \<Longrightarrow> unread_len (snd (scan_literal ls t lx)) \<le> n"
  by (simp add: scan_literal_def unread_len_literal_loopI)

lemma unread_len_stringI [unread_intros]:
  "unread_len lx \<le> n \<Longrightarrow> unread_len (snd (scan_string lx)) \<le> n"
  using scan_string_loop_token [of "lex_reset lx"]
  by (cases "scan_string_loop (lex_reset lx)") (auto simp: scan_string_def)

lemma unread_len_tokenI [unread_intros]:
  "unread_len lx \<le> n \<Longrightarrow> unread_len (snd (scan_token lx)) \<le> n"
  by (simp add: scan_token_def unread_intros split: option.split)

lemma skip_whitespace_get: "\<exists>l. skip_whitespace lx = lex_get l \<and> unread_len l \<le> unread_len lx"
proof (induction lx rule: skip_whitespace.induct)
  case (1 lx)
  show ?case
  proof (cases "\<exists>c. current (lex_get lx) = Some c \<and> is_json_ws c")
    case True
    with "1" have "\<exists>l. skip_whitespace (lex_get lx) = lex_get l \<and>
        unread_len l \<le> unread_len (lex_get lx)" by auto
    then show ?thesis
      using True unread_len_get_le [of lx] by (auto simp: skip_whitespace.simps [of lx] intro: le_trans)
  next
    case False
    then have "skip_whitespace lx = lex_get lx"
      by (auto simp: skip_whitespace.simps [of lx] Let_def split: option.split)
    then show ?thesis by blast
  qed
qed

lemma skip_bom_unread: "unread_len (snd (skip_bom lx)) \<le> unread_len lx"
  by (simp add: skip_bom_def Let_def unread_len_unget_get unread_intros)

theorem scan_progress:
  assumes "scan lx = (t, lx')"
  shows "unread_len lx' \<le> unread_len lx \<and>
    (t \<notin> {end_of_input, parse_error} \<longrightarrow> unread_len lx' < unread_len lx)"
proof -
  obtain ok l where l: "(if chars_read_total lx = 0 then skip_bom lx else (True, lx)) = (ok, l)"
    by fastforce
  have l_le: "unread_len l \<le> unread_len lx"
    using l skip_bom_unread [of lx] by (auto split: if_splits)
  show ?thesis
  proof (cases ok)
    case False
    then show ?thesis using assms l l_le by (auto simp: scan_def lex_error_def)
  next
    case True
    obtain k where k: "skip_whitespace l = lex_get k" "unread_len k \<le> unread_len l"
      using skip_whitespace_get by blast
    have res: "scan_token (lex_get k) = (t, lx')"
      using assms l True k(1) by (simp add: scan_def)
    have le: "unread_len lx' \<le> unread_len (lex_get k)"
      using unread_len_tokenI [of "lex_get k"] res by fastforce
    show ?thesis
    proof (cases "current (lex_get k)")
      case None
      then have "t = end_of_input" using res by (simp add: scan_token_def)
      then show ?thesis using le unread_len_get_le [of k] k(2) l_le by simp
    next
      case (Some c)
      then show ?thesis using le unread_len_get_less [OF Some] k(2) l_le by simp
    qed
  qed
qed

end
