(* ===== verification/Json_Dtoa.thy ===== *)
theory Json_Dtoa
  imports Cxx_Double "HOL-Library.Signed_Division"
begin

text \<open>
  The text of a \<open>double\<close>: \<open>nlohmann::detail::to_chars\<close> and the Grisu2 algorithm in
  \<open>nlohmann::detail::dtoa_impl\<close> (\<^verbatim>\<open>include/nlohmann/json.hpp\<close>), which the
  serializer calls for every floating point number.

  A \<open>double\<close> is its 64 bits. Significands are 64-bit words and wrap around, the integral part
  and its powers of ten are 32-bit words, exponents (\<open>int\<close>) are integers of small size. Every
  \<open>JSON_ASSERT\<close> is a branch. The buffer is the list of the digits written so far: the
  capacity \<open>to_chars\<close> asserts is an argument, and \<^verbatim>\<open>Json_Dtoa_Correct\<close> shows that
  what is written fits.
\<close>

unbundle bit_operations_syntax

definition check :: "bool \<Rightarrow> string \<Rightarrow> 'a result \<Rightarrow> 'a result" where
  "check c msg r = (if c then r else Inl (Assertion_failed msg))"

lemma check_simps [simp]: "check True msg r = r" "check False msg r = Inl (Assertion_failed msg)"
  by (simp_all add: check_def)

lemma check_cong [fundef_cong]: "c = c' \<Longrightarrow> (c' \<Longrightarrow> r = r') \<Longrightarrow> check c msg r = check c' msg r'"
  by (simp add: check_def)

section \<open>Numbers with their own exponent\<close>

text \<open>\<open>fp_f * 2 ^ fp_e\<close>.\<close>

record diyfp =
  fp_f :: "64 word"
  fp_e :: int

definition diyfp_sub :: "diyfp \<Rightarrow> diyfp \<Rightarrow> diyfp result" where
  "diyfp_sub x y =
     check (fp_e x = fp_e y) ''x.e == y.e'' (
     check (fp_f x \<ge> fp_f y) ''x.f >= y.f'' (
       Inr \<lparr>fp_f = fp_f x - fp_f y, fp_e = fp_e x\<rparr>))"

definition diyfp_mul :: "diyfp \<Rightarrow> diyfp \<Rightarrow> diyfp" where
  "diyfp_mul x y =
     (let u_lo = fp_f x AND 0xFFFFFFFF; u_hi = drop_bit 32 (fp_f x);
          v_lo = fp_f y AND 0xFFFFFFFF; v_hi = drop_bit 32 (fp_f y);
          p0 = u_lo * v_lo; p1 = u_lo * v_hi; p2 = u_hi * v_lo; p3 = u_hi * v_hi;
          p0_hi = drop_bit 32 p0;
          p1_lo = p1 AND 0xFFFFFFFF; p1_hi = drop_bit 32 p1;
          p2_lo = p2 AND 0xFFFFFFFF; p2_hi = drop_bit 32 p2;
          Q = p0_hi + p1_lo + p2_lo;
          Q = Q + push_bit (64 - 32 - 1) 1;
          h = p3 + p2_hi + p1_hi + drop_bit 32 Q
      in \<lparr>fp_f = h, fp_e = fp_e x + fp_e y + 64\<rparr>)"

text \<open>The loop checks the assertion again in each round; a number that is not zero and whose
  highest bit is not set stays so when it is shifted.\<close>

lemma unat_push_bit_1: "drop_bit 63 w = 0 \<Longrightarrow> unat (push_bit 1 w) = 2 * unat w" for w :: "64 word"
proof -
  assume "drop_bit 63 w = 0"
  then have "unat w div 2 ^ 63 = 0" by (metis drop_bit_eq_div unat_drop_bit_eq unsigned_0)
  then have "unat w < 2 ^ 63" by simp
  then have "unat (w * 2) = 2 * unat w" by (simp add: unat_word_ariths)
  then show ?thesis by (simp add: push_bit_eq_mult)
qed

lemma unat_word64: "unat w < 2 ^ 64" for w :: "64 word"
  using unsigned_less [of w, where ?'a = nat] by simp

lemma normalize_step_less: "w \<noteq> 0 \<Longrightarrow> drop_bit 63 w = 0 \<Longrightarrow> unat w < unat (push_bit 1 w)" for w :: "64 word"
  using unat_push_bit_1 [of w] by (simp only: unat_gt_0 [symmetric])

function diyfp_normalize :: "diyfp \<Rightarrow> diyfp result" where
  "diyfp_normalize x =
     (if fp_f x = 0 then Inl (Assertion_failed ''x.f != 0'')
      else if drop_bit 63 (fp_f x) = 0
      then diyfp_normalize \<lparr>fp_f = push_bit 1 (fp_f x), fp_e = fp_e x - 1\<rparr>
      else Inr x)"
  by pat_completeness auto
termination
proof (relation "measure (\<lambda>x. 2 ^ 64 - unat (fp_f x))", simp, goal_cases)
  case (1 x)
  then show ?case
    using normalize_step_less [of "fp_f x"] unat_word64 [of "fp_f x"] by simp
qed

declare diyfp_normalize.simps [simp del]

definition diyfp_normalize_to :: "diyfp \<Rightarrow> int \<Rightarrow> diyfp result" where
  "diyfp_normalize_to x target_exponent =
     (let delta = fp_e x - target_exponent in
      check (0 \<le> delta) ''delta >= 0'' (
      if 64 \<le> delta then Inl (Undefined_behaviour ''shift count'') else
      check (drop_bit (nat delta) (push_bit (nat delta) (fp_f x)) = fp_f x) ''((x.f << delta) >> delta) == x.f'' (
        Inr \<lparr>fp_f = push_bit (nat delta) (fp_f x), fp_e = target_exponent\<rparr>)))"

section \<open>The boundaries of a \<open>double\<close>\<close>

record boundaries =
  bd_w :: diyfp
  bd_minus :: diyfp
  bd_plus :: diyfp

text \<open>\<open>value > 0\<close> of a finite value.\<close>

definition is_positive :: "double \<Rightarrow> bool" where
  "is_positive value \<longleftrightarrow> \<not> signbit value \<and> value \<noteq> 0"

definition double_diyfp :: "double \<Rightarrow> diyfp" where
  "double_diyfp bits =
     (let kBias = 1024 - 1 + (53 - 1); kMinExp = 1 - kBias; kHiddenBit = push_bit (53 - 1) 1;
          E = drop_bit (53 - 1) bits; F = bits AND (kHiddenBit - 1)
      in if E = 0 then \<lparr>fp_f = F, fp_e = kMinExp\<rparr>
         else \<lparr>fp_f = F + kHiddenBit, fp_e = uint E - kBias\<rparr>)"

definition lower_boundary_is_closer :: "double \<Rightarrow> bool" where
  "lower_boundary_is_closer bits \<longleftrightarrow>
     bits AND (push_bit (53 - 1) 1 - 1) = 0 \<and> drop_bit (53 - 1) bits > 1"

definition upper_boundary :: "double \<Rightarrow> diyfp" where
  "upper_boundary bits = (let v = double_diyfp bits in \<lparr>fp_f = 2 * fp_f v + 1, fp_e = fp_e v - 1\<rparr>)"

definition lower_boundary :: "double \<Rightarrow> diyfp" where
  "lower_boundary bits =
     (let v = double_diyfp bits in
      if lower_boundary_is_closer bits then \<lparr>fp_f = 4 * fp_f v - 1, fp_e = fp_e v - 2\<rparr>
      else \<lparr>fp_f = 2 * fp_f v - 1, fp_e = fp_e v - 1\<rparr>)"

definition compute_boundaries :: "double \<Rightarrow> boundaries result" where
  "compute_boundaries value =
     check (isfinite value) ''std::isfinite(value)'' (
     check (is_positive value) ''value > 0'' (
     rbind (diyfp_normalize (upper_boundary value)) (\<lambda>w_plus.
     rbind (diyfp_normalize_to (lower_boundary value) (fp_e w_plus)) (\<lambda>w_minus.
     rbind (diyfp_normalize (double_diyfp value)) (\<lambda>w.
       Inr \<lparr>bd_w = w, bd_minus = w_minus, bd_plus = w_plus\<rparr>)))))"

section \<open>The cached powers of ten\<close>

definition kAlpha :: int where "kAlpha = -60"
definition kGamma :: int where "kGamma = -32"

text \<open>\<open>cp_f * 2 ^ cp_e\<close> is about \<open>10 ^ cp_k\<close>.\<close>

record cached_power =
  cp_f :: "64 word"
  cp_e :: int
  cp_k :: int

definition cached_powers_table :: "(64 word \<times> int \<times> int) list" where
  "cached_powers_table =
    [(0xAB70FE17C79AC6CA, -1060, -300), (0xFF77B1FCBEBCDC4F, -1034, -292),
     (0xBE5691EF416BD60C, -1007, -284), (0x8DD01FAD907FFC3C, -980, -276),
     (0xD3515C2831559A83, -954, -268), (0x9D71AC8FADA6C9B5, -927, -260),
     (0xEA9C227723EE8BCB, -901, -252), (0xAECC49914078536D, -874, -244),
     (0x823C12795DB6CE57, -847, -236), (0xC21094364DFB5637, -821, -228),
     (0x9096EA6F3848984F, -794, -220), (0xD77485CB25823AC7, -768, -212),
     (0xA086CFCD97BF97F4, -741, -204), (0xEF340A98172AACE5, -715, -196),
     (0xB23867FB2A35B28E, -688, -188), (0x84C8D4DFD2C63F3B, -661, -180),
     (0xC5DD44271AD3CDBA, -635, -172), (0x936B9FCEBB25C996, -608, -164),
     (0xDBAC6C247D62A584, -582, -156), (0xA3AB66580D5FDAF6, -555, -148),
     (0xF3E2F893DEC3F126, -529, -140), (0xB5B5ADA8AAFF80B8, -502, -132),
     (0x87625F056C7C4A8B, -475, -124), (0xC9BCFF6034C13053, -449, -116),
     (0x964E858C91BA2655, -422, -108), (0xDFF9772470297EBD, -396, -100),
     (0xA6DFBD9FB8E5B88F, -369, -92), (0xF8A95FCF88747D94, -343, -84),
     (0xB94470938FA89BCF, -316, -76), (0x8A08F0F8BF0F156B, -289, -68),
     (0xCDB02555653131B6, -263, -60), (0x993FE2C6D07B7FAC, -236, -52),
     (0xE45C10C42A2B3B06, -210, -44), (0xAA242499697392D3, -183, -36),
     (0xFD87B5F28300CA0E, -157, -28), (0xBCE5086492111AEB, -130, -20),
     (0x8CBCCC096F5088CC, -103, -12), (0xD1B71758E219652C, -77, -4),
     (0x9C40000000000000, -50, 4), (0xE8D4A51000000000, -24, 12),
     (0xAD78EBC5AC620000, 3, 20), (0x813F3978F8940984, 30, 28),
     (0xC097CE7BC90715B3, 56, 36), (0x8F7E32CE7BEA5C70, 83, 44),
     (0xD5D238A4ABE98068, 109, 52), (0x9F4F2726179A2245, 136, 60),
     (0xED63A231D4C4FB27, 162, 68), (0xB0DE65388CC8ADA8, 189, 76),
     (0x83C7088E1AAB65DB, 216, 84), (0xC45D1DF942711D9A, 242, 92),
     (0x924D692CA61BE758, 269, 100), (0xDA01EE641A708DEA, 295, 108),
     (0xA26DA3999AEF774A, 322, 116), (0xF209787BB47D6B85, 348, 124),
     (0xB454E4A179DD1877, 375, 132), (0x865B86925B9BC5C2, 402, 140),
     (0xC83553C5C8965D3D, 428, 148), (0x952AB45CFA97A0B3, 455, 156),
     (0xDE469FBD99A05FE3, 481, 164), (0xA59BC234DB398C25, 508, 172),
     (0xF6C69A72A3989F5C, 534, 180), (0xB7DCBF5354E9BECE, 561, 188),
     (0x88FCF317F22241E2, 588, 196), (0xCC20CE9BD35C78A5, 614, 204),
     (0x98165AF37B2153DF, 641, 212), (0xE2A0B5DC971F303A, 667, 220),
     (0xA8D9D1535CE3B396, 694, 228), (0xFB9B7CD9A4A7443C, 720, 236),
     (0xBB764C4CA7A44410, 747, 244), (0x8BAB8EEFB6409C1A, 774, 252),
     (0xD01FEF10A657842C, 800, 260), (0x9B10A4E5E9913129, 827, 268),
     (0xE7109BFBA19C0C9D, 853, 276), (0xAC2820D9623BF429, 880, 284),
     (0x80444B5E7AA7CF85, 907, 292), (0xBF21E44003ACDD2D, 933, 300),
     (0x8E679C2F5E44FF8F, 960, 308), (0xD433179D9C8CB841, 986, 316),
     (0x9E19DB92B4E31BA9, 1013, 324)]"

definition kCachedPowers :: "cached_power list" where
  "kCachedPowers = map (\<lambda>(f, e, k). \<lparr>cp_f = f, cp_e = e, cp_k = k\<rparr>) cached_powers_table"

definition kCachedPowersMinDecExp :: int where "kCachedPowersMinDecExp = -300"
definition kCachedPowersDecStep :: int where "kCachedPowersDecStep = 8"

definition cached_power_k :: "int \<Rightarrow> int" where
  "cached_power_k e = (let f = kAlpha - e - 1 in (f * 78913) sdiv 2 ^ 18 + (if 0 < f then 1 else 0))"

definition cached_power_index :: "int \<Rightarrow> int" where
  "cached_power_index e =
     (- kCachedPowersMinDecExp + cached_power_k e + (kCachedPowersDecStep - 1)) sdiv kCachedPowersDecStep"

definition get_cached_power_for_binary_exponent :: "int \<Rightarrow> cached_power result" where
  "get_cached_power_for_binary_exponent e =
     check (-1500 \<le> e) ''e >= -1500'' (
     check (e \<le> 1500) ''e <= 1500'' (
     let index = cached_power_index e in
     check (0 \<le> index) ''index >= 0'' (
     check (nat index < length kCachedPowers) ''index < kCachedPowers.size()'' (
     let cached = kCachedPowers ! nat index in
     check (kAlpha \<le> cp_e cached + e + 64) ''kAlpha <= cached.e + e + 64'' (
     check (cp_e cached + e + 64 \<le> kGamma) ''kGamma >= cached.e + e + 64'' (
       Inr cached))))))"

section \<open>Digits\<close>

definition find_largest_pow10 :: "32 word \<Rightarrow> nat \<times> 32 word" where
  "find_largest_pow10 n =
     (if n \<ge> 1000000000 then (10, 1000000000)
      else if n \<ge> 100000000 then (9, 100000000)
      else if n \<ge> 10000000 then (8, 10000000)
      else if n \<ge> 1000000 then (7, 1000000)
      else if n \<ge> 100000 then (6, 100000)
      else if n \<ge> 10000 then (5, 10000)
      else if n \<ge> 1000 then (4, 1000)
      else if n \<ge> 100 then (3, 100)
      else if n \<ge> 10 then (2, 10)
      else (1, 1))"

text \<open>\<open>buf[len - 1]--\<close>. The loop ends whatever its arguments are: an assertion stops it when
  the last digit is a zero.\<close>

definition dec_last :: "bytes \<Rightarrow> bytes" where
  "dec_last buf = butlast buf @ [byte_of (byte_val (last buf) + 255)]"

lemma cyclic_less: "x \<noteq> 48 \<Longrightarrow> x < 256 \<Longrightarrow> ((x + 255) mod 256 + 208) mod 256 < (x + 208) mod (256 :: nat)"
proof -
  assume x: "x \<noteq> 48" "x < 256"
  have "((x + 255) mod 256 + 208) mod 256 = (x + 207 + 256) mod 256" by (simp add: mod_simps)
  also have "\<dots> = (x + 207) mod 256" by (rule mod_add_self2)
  finally have eq: "((x + 255) mod 256 + 208) mod 256 = (x + 207) mod 256" .
  show ?thesis
  proof (cases "x < 48")
    case False
    then obtain y where "x = Suc (48 + y)" using x(1) by (metis less_natE nat_neq_iff)
    then show ?thesis using x unfolding eq by (simp add: mod_if)
  qed (simp add: eq)
qed

lemma dec_last_less:
  assumes "last buf \<noteq> CHR ''0''"
  shows "(byte_val (last (dec_last buf)) + 208) mod 256 < (byte_val (last buf) + 208) mod 256"
proof -
  have "byte_val (last buf) \<noteq> 48"
  proof
    assume "byte_val (last buf) = 48"
    then have "byte_of (byte_val (last buf)) = byte_of 48" by (rule arg_cong)
    then show False using assms by (simp add: char_of_eq_iff)
  qed
  moreover have "byte_val (last (dec_last buf)) = (byte_val (last buf) + 255) mod 256"
    by (simp add: dec_last_def of_char_of take_bit_eq_mod)
  ultimately show ?thesis using cyclic_less byte_val_less by simp
qed

function round_loop :: "bytes \<Rightarrow> 64 word \<Rightarrow> 64 word \<Rightarrow> 64 word \<Rightarrow> 64 word \<Rightarrow> bytes result" where
  "round_loop buf distance delta rest ten_k =
     (if rest < distance \<and> delta - rest \<ge> ten_k \<and> (rest + ten_k < distance \<or> distance - rest > rest + ten_k - distance)
      then check (last buf \<noteq> CHR ''0'') ''buf[len - 1] != 0x30''
             (round_loop (dec_last buf) distance delta (rest + ten_k) ten_k)
      else Inr buf)"
  by pat_completeness auto
termination
proof (relation "measure (\<lambda>(buf, _). (byte_val (last buf) + 208) mod 256)", goal_cases)
  case (2 buf distance delta rest ten_k)
  show ?case unfolding in_measure prod.case by (rule dec_last_less) (rule 2(2))
qed (rule wf_measure)

declare round_loop.simps [simp del]

definition grisu2_round :: "bytes \<Rightarrow> 64 word \<Rightarrow> 64 word \<Rightarrow> 64 word \<Rightarrow> 64 word \<Rightarrow> bytes result" where
  "grisu2_round buf distance delta rest ten_k =
     check (1 \<le> length buf) ''len >= 1'' (
     check (distance \<le> delta) ''dist <= delta'' (
     check (rest \<le> delta) ''rest <= delta'' (
     check (ten_k > 0) ''ten_k > 0'' (
       round_loop buf distance delta rest ten_k))))"

text \<open>The digits of the integral part, where \<open>s\<close> is \<open>-one.e\<close>: the loop stops with what
  \<open>grisu2_round\<close> needs, or at the decimal point.\<close>

fun integral_digits ::
  "nat \<Rightarrow> 64 word \<Rightarrow> 64 word \<Rightarrow> bytes \<Rightarrow> nat \<Rightarrow> 32 word \<Rightarrow> 32 word \<Rightarrow> (bytes \<times> (nat \<times> 64 word \<times> 64 word) option) result" where
  "integral_digits s p2 delta buffer 0 p1 pow10 = Inr (buffer, None)"
| "integral_digits s p2 delta buffer (Suc n) p1 pow10 =
     (if pow10 = 0 then Inl (Undefined_behaviour ''division by zero'') else
      let d = p1 div pow10; r = p1 mod pow10 in
      check (d \<le> 9) ''d <= 9'' (
      let buffer = buffer @ [byte_of (48 + unat d)]; p1 = r; rest = push_bit s (ucast p1) + p2
      in if rest \<le> delta then Inr (buffer, Some (n, rest, push_bit s (ucast pow10)))
         else integral_digits s p2 delta buffer n p1 (pow10 div 10)))"

text \<open>The digits behind the decimal point. The loop ends whatever its arguments are: what is left of
  the fraction is divisible by a higher power of two in each round, and zero is not above
  \<open>delta\<close>.\<close>

lemma divisor_doubled:
  fixes p :: nat
  assumes "2 ^ i dvd p" shows "2 ^ Suc i dvd take_bit t (10 * p)"
proof -
  have d: "2 ^ Suc i dvd 10 * p" using mult_dvd_mono [OF _ assms, of 2 10] by simp
  show ?thesis
  proof (cases "Suc i \<le> t")
    case True
    then show ?thesis using d by (simp add: take_bit_eq_mod dvd_mod le_imp_power_dvd del: power_Suc)
  next
    case False
    then have "2 ^ t dvd (2 :: nat) ^ Suc i" by (intro le_imp_power_dvd) simp
    then have "take_bit t (10 * p) = 0" using d by (metis dvd_trans mod_0_imp_dvd take_bit_eq_mod dvd_imp_mod_0)
    then show ?thesis by simp
  qed
qed

lemma divisors_shrink:
  fixes p q :: nat
  assumes q: "q = take_bit t (10 * p)" "q \<noteq> 0" "q < 2 ^ 64"
  shows "card {i. i < 64 \<and> \<not> 2 ^ i dvd q} < card {i. i < 64 \<and> \<not> 2 ^ i dvd p}"
proof (rule psubset_card_mono)
  have "0 < p" using q(1,2) by (cases p) simp_all
  then have "\<not> 2 ^ p dvd p" by (meson dvd_imp_le leD less_exp)
  define j where "j = (LEAST i. \<not> 2 ^ i dvd p)"
  have j: "\<not> 2 ^ j dvd p" unfolding j_def by (rule LeastI) fact
  then obtain i where i: "j = Suc i" by (cases j) auto
  have "2 ^ i dvd p" using not_less_Least [of i "\<lambda>i. \<not> 2 ^ i dvd p"] i by (simp add: j_def)
  then have jq: "2 ^ j dvd q" using divisor_doubled q(1) i by blast
  then have "j < 64"
    using q(2,3) power_increasing [of 64 j "2 :: nat"] by (metis dvd_imp_le leD leI le_trans not_gr_zero one_le_numeral)
  moreover have "{i. i < 64 \<and> \<not> 2 ^ i dvd q} \<subseteq> {i. i < 64 \<and> \<not> 2 ^ i dvd p}"
    using divisor_doubled [of _ p t] q(1) by (auto dest: dvd_mult_right)
  ultimately show "{i. i < 64 \<and> \<not> 2 ^ i dvd q} \<subset> {i. i < 64 \<and> \<not> 2 ^ i dvd p}"
    using j jq by blast
qed simp

lemma unat_fraction_step:
  "unat (10 * p AND (push_bit s 1 - 1)) = take_bit (min s 64) (10 * unat p)" for p :: "64 word"
proof -
  have "10 * p AND (push_bit s 1 - 1) = take_bit s (10 * p)"
    by (simp add: take_bit_eq_mask mask_eq_exp_minus_1 push_bit_eq_mult)
  then show ?thesis
    by (simp add: unsigned_take_bit_eq unat_word_ariths flip: take_bit_eq_mod [of 64, simplified])
qed

function fractional_digits ::
  "nat \<Rightarrow> bytes \<Rightarrow> nat \<Rightarrow> 64 word \<Rightarrow> 64 word \<Rightarrow> 64 word \<Rightarrow> (bytes \<times> nat \<times> 64 word \<times> 64 word \<times> 64 word) result" where
  "fractional_digits s buffer m p2 delta distance =
     check (p2 \<le> 0xFFFFFFFFFFFFFFFF div 10) ''p2 <= max / 10'' (
     let p2 = 10 * p2; d = drop_bit s p2; r = p2 AND (push_bit s 1 - 1) in
     check (d \<le> 9) ''d <= 9'' (
     let buffer = buffer @ [byte_of (48 + unat d)]; delta = 10 * delta; distance = 10 * distance
     in if r \<le> delta then Inr (buffer, m + 1, r, delta, distance)
        else fractional_digits s buffer (m + 1) r delta distance))"
  by pat_completeness auto
termination
proof (relation "measure (\<lambda>(s, buffer, m, p2, delta, distance). card {i. i < 64 \<and> \<not> 2 ^ i dvd unat p2})", goal_cases)
  case (2 s buffer m p2 delta distance p2' d r buffer' delta' distance')
  then have "r \<noteq> 0" by (metis word_zero_le)
  then have "unat r \<noteq> 0" by (simp add: unat_eq_0)
  then show ?case
    using divisors_shrink [of "unat r" "min s 64" "unat p2"] 2(2,4) unat_word64 [of r] unat_fraction_step [of p2 s] by simp
qed (rule wf_measure)

declare fractional_digits.simps [simp del]

definition grisu2_digit_gen :: "int \<Rightarrow> diyfp \<Rightarrow> diyfp \<Rightarrow> diyfp \<Rightarrow> (bytes \<times> int) result" where
  "grisu2_digit_gen decimal_exponent M_minus w M_plus =
     check (kAlpha \<le> fp_e M_plus) ''M_plus.e >= kAlpha'' (
     check (fp_e M_plus \<le> kGamma) ''M_plus.e <= kGamma'' (
     rbind (diyfp_sub M_plus M_minus) (\<lambda>delta.
     rbind (diyfp_sub M_plus w) (\<lambda>distance.
     let delta = fp_f delta; distance = fp_f distance; s = nat (- fp_e M_plus); one_f = push_bit s 1;
         p1 = ucast (drop_bit s (fp_f M_plus)); p2 = fp_f M_plus AND (one_f - 1) in
     check (p1 > 0) ''p1 > 0'' (
     let (k, pow10) = find_largest_pow10 p1 in
     rbind (integral_digits s p2 delta [] k p1 pow10) (\<lambda>(buffer, stopped).
     case stopped of
       Some (n, rest, ten_n) \<Rightarrow>
         rbind (grisu2_round buffer distance delta rest ten_n) (\<lambda>buffer.
           Inr (buffer, decimal_exponent + int n))
     | None \<Rightarrow>
         check (p2 > delta) ''p2 > delta'' (
         rbind (fractional_digits s buffer 0 p2 delta distance) (\<lambda>(buffer, m, p2, delta, distance).
         rbind (grisu2_round buffer distance delta p2 one_f) (\<lambda>buffer.
           Inr (buffer, decimal_exponent - int m))))))))))"

definition grisu2_diyfp :: "diyfp \<Rightarrow> diyfp \<Rightarrow> diyfp \<Rightarrow> (bytes \<times> int) result" where
  "grisu2_diyfp m_minus v m_plus =
     check (fp_e m_plus = fp_e m_minus) ''m_plus.e == m_minus.e'' (
     check (fp_e m_plus = fp_e v) ''m_plus.e == v.e'' (
     rbind (get_cached_power_for_binary_exponent (fp_e m_plus)) (\<lambda>cached.
     let c_minus_k = \<lparr>fp_f = cp_f cached, fp_e = cp_e cached\<rparr>;
         w = diyfp_mul v c_minus_k;
         w_minus = diyfp_mul m_minus c_minus_k;
         w_plus = diyfp_mul m_plus c_minus_k;
         M_minus = \<lparr>fp_f = fp_f w_minus + 1, fp_e = fp_e w_minus\<rparr>;
         M_plus = \<lparr>fp_f = fp_f w_plus - 1, fp_e = fp_e w_plus\<rparr>
     in grisu2_digit_gen (- cp_k cached) M_minus w M_plus)))"

definition grisu2 :: "double \<Rightarrow> (bytes \<times> int) result" where
  "grisu2 value =
     check (isfinite value) ''std::isfinite(value)'' (
     check (is_positive value) ''value > 0'' (
     rbind (compute_boundaries value) (\<lambda>w. grisu2_diyfp (bd_minus w) (bd_w w) (bd_plus w))))"

section \<open>The text\<close>

definition append_exponent :: "int \<Rightarrow> bytes result" where
  "append_exponent e =
     check (-1000 < e) ''e > -1000'' (
     check (e < 1000) ''e < 1000'' (
     let k = nat \<bar>e\<bar> in
     Inr ((if e < 0 then CHR ''-'' else CHR ''+'') #
       (if k < 10 then [CHR ''0'', byte_of (48 + k)]
        else if k < 100 then [byte_of (48 + k div 10), byte_of (48 + k mod 10)]
        else [byte_of (48 + k div 100), byte_of (48 + k mod 100 div 10), byte_of (48 + k mod 100 mod 10)]))))"

text \<open>\<open>buf\<close> holds \<open>len\<close> digits; the result is the text from \<open>buf\<close> to the pointer
  that is returned.\<close>

definition format_buffer :: "bytes \<Rightarrow> int \<Rightarrow> int \<Rightarrow> int \<Rightarrow> bytes result" where
  "format_buffer buf decimal_exponent min_exp max_exp =
     check (min_exp < 0) ''min_exp < 0'' (
     check (0 < max_exp) ''max_exp > 0'' (
     let k = int (length buf); n = k + decimal_exponent in
     if k \<le> n \<and> n \<le> max_exp then Inr (buf @ replicate (nat (n - k)) (CHR ''0'') @ ''.0'')
     else if 0 < n \<and> n \<le> max_exp then
       check (n < k) ''k > n'' (Inr (take (nat n) buf @ ''.'' @ drop (nat n) buf))
     else if min_exp < n \<and> n \<le> 0 then Inr (''0.'' @ replicate (nat (- n)) (CHR ''0'') @ buf)
     else rbind (append_exponent (n - 1)) (\<lambda>ex.
       Inr ((if k = 1 then buf else take 1 buf @ ''.'' @ drop 1 buf) @ ''e'' @ ex))))"

text \<open>\<open>room\<close> is \<open>last - first\<close>. What follows once the sign is written:\<close>

definition unsigned_to_chars :: "int \<Rightarrow> double \<Rightarrow> bytes result" where
  "unsigned_to_chars room value =
     (if value = 0 then Inr ''0.0''
      else
        check (17 \<le> room) ''last - first >= max_digits10'' (
        rbind (grisu2 value) (\<lambda>(buffer, decimal_exponent).
        check (length buffer \<le> 17) ''len <= max_digits10'' (
        let kMinExp = -4; kMaxExp = 15 in
        check (kMaxExp + 2 \<le> room) ''last - first >= kMaxExp + 2'' (
        check (2 + (- kMinExp - 1) + 17 \<le> room) ''last - first >= 2 + (-kMinExp - 1) + max_digits10'' (
        check (17 + 6 \<le> room) ''last - first >= max_digits10 + 6'' (
          format_buffer buffer decimal_exponent kMinExp kMaxExp)))))))"

definition double_to_chars :: "int \<Rightarrow> double \<Rightarrow> bytes result" where
  "double_to_chars room value =
     check (isfinite value) ''std::isfinite(value)'' (
     if signbit value
     then rbind (unsigned_to_chars (room - 1) (negated value)) (\<lambda>s. Inr (CHR ''-'' # s))
     else unsigned_to_chars room value)"

text \<open>\<open>number_buffer\<close> has 64 bytes.\<close>

definition dump_float :: "double \<Rightarrow> bytes result" where
  "dump_float x = (if \<not> isfinite x then Inr ''null'' else double_to_chars 64 x)"

end
