(* ===== verification/Json_Dump.thy ===== *)
theory Json_Dump
  imports Json_Lexer Json_Dtoa
begin

text \<open>
  \<open>nlohmann::detail::serializer\<close> (\<^verbatim>\<open>include/nlohmann/json.hpp\<close>): the UTF-8 decoder and
  its table, the escaping of strings through a 512 byte buffer, the writing of integers from the
  back of a buffer, and the recursive \<open>dump\<close>. Writes outside a buffer are undefined behaviour.
  Values of the binary kind cannot come out of \<open>json::parse\<close> and are not in the model. The
  text of a \<open>double\<close> (\<open>dump_float\<close>) is in \<^verbatim>\<open>Json_Dtoa\<close>.
\<close>

section \<open>The UTF-8 decoder\<close>

text \<open>The rows of the table: lead bytes from E0 and F0, and one row per state.\<close>

definition utf8d_e0 :: "nat list" where
  "utf8d_e0 = [0xA, 3, 3, 3, 3, 3, 3, 3, 3, 3, 3, 3, 3, 4, 3, 3]"

definition utf8d_f0 :: "nat list" where
  "utf8d_f0 = [0xB, 6, 6, 6, 5, 8, 8, 8, 8, 8, 8, 8, 8, 8, 8, 8]"

definition utf8d_states :: "nat list list" where
  "utf8d_states =
     [[0, 1, 2, 3, 5, 8, 7, 1, 1, 1, 4, 6, 1, 1, 1, 1],
      [1, 1, 1, 1, 1, 1, 1, 1, 1, 1, 1, 1, 1, 1, 1, 1],
      [1, 0, 1, 1, 1, 1, 1, 0, 1, 0, 1, 1, 1, 1, 1, 1],
      [1, 2, 1, 1, 1, 1, 1, 2, 1, 2, 1, 1, 1, 1, 1, 1],
      [1, 1, 1, 1, 1, 1, 1, 2, 1, 1, 1, 1, 1, 1, 1, 1],
      [1, 2, 1, 1, 1, 1, 1, 1, 1, 2, 1, 1, 1, 1, 1, 1],
      [1, 1, 1, 1, 1, 1, 1, 3, 1, 3, 1, 1, 1, 1, 1, 1],
      [1, 3, 1, 1, 1, 1, 1, 3, 1, 3, 1, 1, 1, 1, 1, 1],
      [1, 3, 1, 1, 1, 1, 1, 1, 1, 1, 1, 1, 1, 1, 1, 1]]"

definition utf8d :: "nat list" where
  "utf8d = replicate 128 0 @ replicate 16 1 @ replicate 16 9 @ replicate 32 7 @ replicate 2 8 @
     replicate 30 2 @ utf8d_e0 @ utf8d_f0 @ concat utf8d_states"

definition UTF8_ACCEPT :: nat where "UTF8_ACCEPT = 0"
definition UTF8_REJECT :: nat where "UTF8_REJECT = 1"

text \<open>\<open>decode\<close> updates the state and the code point. The bits joined by \<open>|\<close> are disjoint, and
  \<open>&\<close> with a mask of the form \<open>2^k - 1\<close> is a remainder.\<close>

definition decode :: "nat \<Rightarrow> nat \<Rightarrow> nat \<Rightarrow> nat \<times> nat" where
  "decode state codep b =
     (let type = utf8d ! b;
          codep' = (if state \<noteq> UTF8_ACCEPT then b mod 64 + codep * 64 mod 2 ^ 32
                    else b mod 2 ^ (8 - type));
          index = 256 + state * 16 + type
      in (utf8d ! index, codep'))"

section \<open>Escaping strings\<close>

datatype error_handler_t = strict | replace | ignore

record escaper =
  state :: nat
  codepoint :: nat
  string_buffer :: bytes
  bytes_after_last_accept :: nat
  undumped_chars :: nat
  written :: bytes

definition new_escaper :: escaper where
  "new_escaper = \<lparr>state = UTF8_ACCEPT, codepoint = 0, string_buffer = [],
     bytes_after_last_accept = 0, undumped_chars = 0, written = []\<rparr>"

definition string_buffer_size :: nat where "string_buffer_size = 512"

text \<open>\<open>string_buffer[bytes++] = ...\<close> for a few bytes; \<open>slack\<close> more are touched (the NUL
  that \<open>snprintf\<close> adds).\<close>

definition push_bytes :: "bytes \<Rightarrow> nat \<Rightarrow> escaper \<Rightarrow> escaper result" where
  "push_bytes bs slack e =
     (if length (string_buffer e) + length bs + slack \<le> string_buffer_size
      then Inr (e\<lparr>string_buffer := string_buffer e @ bs\<rparr>)
      else Inl (Undefined_behaviour ''string_buffer overrun''))"

definition flush_if_short :: "escaper \<Rightarrow> escaper" where
  "flush_if_short e =
     (if string_buffer_size - length (string_buffer e) < 13
      then e\<lparr>written := written e @ string_buffer e, string_buffer := []\<rparr> else e)"

definition hex_digit_lower :: "nat \<Rightarrow> byte" where
  "hex_digit_lower n = byte_of (if n < 10 then 48 + n else 87 + n)"

text \<open>\<open>snprintf\<close> with \<open>%04x\<close> of a 16-bit value, after the backslash and the \<open>u\<close>.\<close>

definition u_escape :: "nat \<Rightarrow> bytes" where
  "u_escape n = [CHR 0x5C, CHR ''u'', hex_digit_lower (n div 4096 mod 16),
     hex_digit_lower (n div 256 mod 16), hex_digit_lower (n div 16 mod 16), hex_digit_lower (n mod 16)]"

text \<open>The switch on an accepted code point; \<open>b\<close> is the current byte.\<close>

definition emit_codepoint :: "bool \<Rightarrow> byte \<Rightarrow> escaper \<Rightarrow> escaper result" where
  "emit_codepoint ensure_ascii b e =
     (let cp = codepoint e in
      if cp = 0x08 then push_bytes [CHR 0x5C, CHR ''b''] 0 e
      else if cp = 0x09 then push_bytes [CHR 0x5C, CHR ''t''] 0 e
      else if cp = 0x0A then push_bytes [CHR 0x5C, CHR ''n''] 0 e
      else if cp = 0x0C then push_bytes [CHR 0x5C, CHR ''f''] 0 e
      else if cp = 0x0D then push_bytes [CHR 0x5C, CHR ''r''] 0 e
      else if cp = 0x22 then push_bytes [CHR 0x5C, CHR 0x22] 0 e
      else if cp = 0x5C then push_bytes [CHR 0x5C, CHR 0x5C] 0 e
      else if cp \<le> 0x1F \<or> (ensure_ascii \<and> 0x7F \<le> cp) then
        (if cp \<le> 0xFFFF then push_bytes (u_escape cp) 1 e
         else push_bytes (u_escape (0xD7C0 + cp div 1024) @ u_escape (0xDC00 + cp mod 1024)) 1 e)
      else push_bytes [b] 0 e)"

definition on_accept :: "bool \<Rightarrow> byte \<Rightarrow> escaper \<Rightarrow> escaper result" where
  "on_accept ensure_ascii b e =
     rbind (emit_codepoint ensure_ascii b e) (\<lambda>e. let e = flush_if_short e in
       Inr (e\<lparr>bytes_after_last_accept := length (string_buffer e), undumped_chars := 0\<rparr>))"

text \<open>A rejected byte, for the three error handlers; the boolean says that the byte is read
  again (\<open>--i\<close>).\<close>

definition replacement :: "bool \<Rightarrow> bytes" where
  "replacement ensure_ascii = (if ensure_ascii then CHR 0x5C # ''ufffd'' else [CHR 0xEF, CHR 0xBF, CHR 0xBD])"

definition on_reject :: "error_handler_t \<Rightarrow> bool \<Rightarrow> escaper \<Rightarrow> (bool \<times> escaper) result" where
  "on_reject handler ensure_ascii e =
     (if handler = strict then Inl (Json_type_error 316)
      else (let again = 0 < undumped_chars e;
                e = e\<lparr>string_buffer := take (bytes_after_last_accept e) (string_buffer e)\<rparr>
            in rbind (if handler = replace
                      then rbind (push_bytes (replacement ensure_ascii) 0 e) (\<lambda>e. let e = flush_if_short e in
                             Inr (e\<lparr>bytes_after_last_accept := length (string_buffer e)\<rparr>))
                      else Inr e)
                (\<lambda>e. Inr (again, e\<lparr>undumped_chars := 0, state := UTF8_ACCEPT\<rparr>))))"

definition on_incomplete :: "bool \<Rightarrow> byte \<Rightarrow> escaper \<Rightarrow> escaper result" where
  "on_incomplete ensure_ascii b e =
     rbind (if ensure_ascii then Inr e else push_bytes [b] 0 e) (\<lambda>e.
       Inr (e\<lparr>undumped_chars := undumped_chars e + 1\<rparr>))"

definition escape_step :: "error_handler_t \<Rightarrow> bool \<Rightarrow> byte \<Rightarrow> escaper \<Rightarrow> (bool \<times> escaper) result" where
  "escape_step handler ensure_ascii b e =
     (let (st, cp) = decode (state e) (codepoint e) (byte_val b);
          e = e\<lparr>state := st, codepoint := cp\<rparr> in
      if st = UTF8_ACCEPT then rbind (on_accept ensure_ascii b e) (\<lambda>e. Inr (False, e))
      else if st = UTF8_REJECT then on_reject handler ensure_ascii e
      else rbind (on_incomplete ensure_ascii b e) (\<lambda>e. Inr (False, e)))"

lemma escape_step_again:
  "escape_step h a b e = Inr (True, e') \<Longrightarrow> 0 < undumped_chars e \<and> undumped_chars e' = 0"
  by (auto simp: escape_step_def on_reject_def rbind_eq_Inr_iff Let_def split_beta split: if_splits)

function escape_loop :: "error_handler_t \<Rightarrow> bool \<Rightarrow> bytes \<Rightarrow> escaper \<Rightarrow> escaper result" where
  "escape_loop h a [] e = Inr e"
| "escape_loop h a (b # bs) e = (case escape_step h a b e of
       Inl err \<Rightarrow> Inl err
     | Inr (True, e') \<Rightarrow> escape_loop h a (b # bs) e'
     | Inr (False, e') \<Rightarrow> escape_loop h a bs e')"
  by pat_completeness auto
termination
  by (relation "measure (\<lambda>(h, a, bs, e). 2 * length bs + min 1 (undumped_chars e))")
     (auto dest!: sym [of _ "escape_step _ _ _ _"] dest: escape_step_again)

definition dump_escaped_end :: "error_handler_t \<Rightarrow> bool \<Rightarrow> escaper \<Rightarrow> bytes result" where
  "dump_escaped_end handler ensure_ascii e =
     (if state e = UTF8_ACCEPT then Inr (written e @ string_buffer e)
      else (case handler of
          strict \<Rightarrow> Inl (Json_type_error 316)
        | ignore \<Rightarrow> Inr (written e @ take (bytes_after_last_accept e) (string_buffer e))
        | replace \<Rightarrow> Inr (written e @ take (bytes_after_last_accept e) (string_buffer e) @
                         replacement ensure_ascii)))"

definition dump_escaped :: "error_handler_t \<Rightarrow> bool \<Rightarrow> bytes \<Rightarrow> bytes result" where
  "dump_escaped handler ensure_ascii s =
     rbind (escape_loop handler ensure_ascii s new_escaper) (dump_escaped_end handler ensure_ascii)"

section \<open>Integers\<close>

function count_digits_loop :: "nat \<Rightarrow> nat \<Rightarrow> nat" where
  "count_digits_loop n_digits x =
     (if x < 10 then n_digits
      else if x < 100 then n_digits + 1
      else if x < 1000 then n_digits + 2
      else if x < 10000 then n_digits + 3
      else count_digits_loop (n_digits + 4) (x div 10000))"
  by pat_completeness auto
termination by (relation "measure snd") auto

declare count_digits_loop.simps [simp del]

definition count_digits :: "nat \<Rightarrow> nat" where
  "count_digits x = count_digits_loop 1 x"

text \<open>\<open>static_cast<number_unsigned_t>(-(x + 1)) + 1\<close>.\<close>

definition remove_sign :: "int \<Rightarrow> nat" where
  "remove_sign x = nat (- (x + 1)) + 1"

definition digit_byte :: "nat \<Rightarrow> byte" where
  "digit_byte n = byte_of (48 + n)"

definition digits_to_99 :: "nat \<Rightarrow> bytes" where
  "digits_to_99 n = [digit_byte (n div 10), digit_byte (n mod 10)]"

text \<open>The digits written before \<open>buffer_ptr\<close>, two at a time from the back.\<close>

function write_digits :: "nat \<Rightarrow> bytes \<Rightarrow> bytes" where
  "write_digits abs_value after =
     (if abs_value \<ge> 100 then write_digits (abs_value div 100) (digits_to_99 (abs_value mod 100) @ after)
      else if abs_value \<ge> 10 then digits_to_99 abs_value @ after
      else digit_byte abs_value # after)"
  by pat_completeness auto
termination by (relation "measure fst") auto

declare write_digits.simps [simp del]

text \<open>The digits are written backwards from offset \<open>n_chars\<close> and \<open>n_chars\<close> bytes are output:
  with fewer digits the front of the buffer would be output as well, and with more the code
  would write before it.\<close>

definition dump_integer :: "int \<Rightarrow> bytes result" where
  "dump_integer x =
     (if x = 0 then Inr [CHR ''0'']
      else (let sign = (if x < 0 then [CHR ''-''] else []);
                abs_value = (if x < 0 then remove_sign x else nat x);
                n_chars = length sign + count_digits abs_value;
                digits = write_digits abs_value []
            in if 63 \<le> n_chars then Inl (Assertion_failed ''n_chars < number_buffer.size() - 1'')
               else if length sign + length digits \<noteq> n_chars
               then Inl (Undefined_behaviour ''number_buffer'')
               else Inr (sign @ digits)))"

section \<open>Values\<close>

record serializer =
  out_str :: bytes
  indent_string_size :: nat

definition write_characters :: "bytes \<Rightarrow> serializer \<Rightarrow> serializer" where
  "write_characters bs s = s\<lparr>out_str := out_str s @ bs\<rparr>"

definition write_escaped :: "error_handler_t \<Rightarrow> bool \<Rightarrow> bytes \<Rightarrow> serializer \<Rightarrow> serializer result" where
  "write_escaped h a k s = rbind (dump_escaped h a k) (\<lambda>bs. Inr (write_characters bs s))"

text \<open>\<open>indent_string.resize(indent_string.size() * 2, ' ')\<close>, and writing \<open>n\<close> of its
  characters.\<close>

definition grow_indent :: "nat \<Rightarrow> serializer \<Rightarrow> serializer" where
  "grow_indent n s = (if indent_string_size s < n
     then s\<lparr>indent_string_size := indent_string_size s * 2\<rparr> else s)"

definition write_indent :: "nat \<Rightarrow> byte \<Rightarrow> serializer \<Rightarrow> serializer result" where
  "write_indent n indent_char s =
     (if n \<le> indent_string_size s then Inr (write_characters (replicate n indent_char) s)
      else Inl (Undefined_behaviour ''indent_string overrun''))"

record dump_options =
  pretty_print :: bool
  ensure_ascii :: bool
  indent_step :: nat
  indent_char :: byte
  error_handler :: error_handler_t

definition indent_if_pretty :: "dump_options \<Rightarrow> nat \<Rightarrow> serializer \<Rightarrow> serializer result" where
  "indent_if_pretty opts n s =
     (if pretty_print opts then write_indent n (indent_char opts) s else Inr s)"

text \<open>What opens and closes a non-empty object or array.\<close>

definition open_bracket :: "dump_options \<Rightarrow> byte \<Rightarrow> nat \<Rightarrow> serializer \<Rightarrow> serializer" where
  "open_bracket opts c new_indent s =
     (if pretty_print opts then grow_indent new_indent (write_characters [c, CHR 0x0A] s)
      else write_characters [c] s)"

definition close_bracket :: "dump_options \<Rightarrow> byte \<Rightarrow> nat \<Rightarrow> serializer \<Rightarrow> serializer result" where
  "close_bracket opts c current_indent s =
     rbind (if pretty_print opts
            then write_indent current_indent (indent_char opts) (write_characters [CHR 0x0A] s)
            else Inr s) (\<lambda>s. Inr (write_characters [c] s))"

definition comma :: "dump_options \<Rightarrow> bytes" where
  "comma opts = (if pretty_print opts then [CHR '','', CHR 0x0A] else [CHR '',''])"

definition dump_key :: "dump_options \<Rightarrow> nat \<Rightarrow> bytes \<Rightarrow> serializer \<Rightarrow> serializer result" where
  "dump_key opts new_indent k s =
     rbind (indent_if_pretty opts new_indent s) (\<lambda>s.
     rbind (write_escaped (error_handler opts) (ensure_ascii opts) k (write_characters [CHR 0x22] s)) (\<lambda>s.
       Inr (write_characters (if pretty_print opts then [CHR 0x22, CHR '':'', CHR '' '']
                              else [CHR 0x22, CHR '':'']) s)))"

text \<open>In the code the last element is written after the loop over the others: each element
  but the last is followed by a comma.\<close>

fun dump_val :: "dump_options \<Rightarrow> nat \<Rightarrow> json \<Rightarrow> serializer \<Rightarrow> serializer result"
  and dump_members :: "dump_options \<Rightarrow> nat \<Rightarrow> (bytes \<times> json) list \<Rightarrow> serializer \<Rightarrow> serializer result"
  and dump_elements :: "dump_options \<Rightarrow> nat \<Rightarrow> json list \<Rightarrow> serializer \<Rightarrow> serializer result" where
  "dump_val opts ci (JObject m) s =
     (if m = [] then Inr (write_characters [CHR 0x7B, CHR 0x7D] s)
      else (let ni = ci + (if pretty_print opts then indent_step opts else 0) in
        rbind (dump_members opts ni m (open_bracket opts (CHR 0x7B) ni s))
          (close_bracket opts (CHR 0x7D) ci)))"
| "dump_val opts ci (JArray vs) s =
     (if vs = [] then Inr (write_characters [CHR 0x5B, CHR 0x5D] s)
      else (let ni = ci + (if pretty_print opts then indent_step opts else 0) in
        rbind (dump_elements opts ni vs (open_bracket opts (CHR 0x5B) ni s))
          (close_bracket opts (CHR 0x5D) ci)))"
| "dump_val opts ci (JString str) s =
     rbind (write_escaped (error_handler opts) (ensure_ascii opts) str (write_characters [CHR 0x22] s))
       (\<lambda>s. Inr (write_characters [CHR 0x22] s))"
| "dump_val opts ci (JBool b) s = Inr (write_characters (if b then ''true'' else ''false'') s)"
| "dump_val opts ci (JInteger i) s = rbind (dump_integer i) (\<lambda>bs. Inr (write_characters bs s))"
| "dump_val opts ci (JUnsigned n) s = rbind (dump_integer (int n)) (\<lambda>bs. Inr (write_characters bs s))"
| "dump_val opts ci (JFloat x) s = rbind (dump_float x) (\<lambda>bs. Inr (write_characters bs s))"
| "dump_val opts ci JNull s = Inr (write_characters ''null'' s)"
| "dump_members opts ni [] s = Inr s"
| "dump_members opts ni ((k, v) # m) s =
     rbind (dump_key opts ni k s) (\<lambda>s. rbind (dump_val opts ni v s) (\<lambda>s.
       if m = [] then Inr s else dump_members opts ni m (write_characters (comma opts) s)))"
| "dump_elements opts ni [] s = Inr s"
| "dump_elements opts ni (v # vs) s =
     rbind (indent_if_pretty opts ni s) (\<lambda>s. rbind (dump_val opts ni v s) (\<lambda>s.
       if vs = [] then Inr s else dump_elements opts ni vs (write_characters (comma opts) s)))"

text \<open>\<open>basic_json::dump\<close>; \<open>indent_string\<close> starts with 512 characters.\<close>

definition json_dump :: "int \<Rightarrow> byte \<Rightarrow> bool \<Rightarrow> error_handler_t \<Rightarrow> json \<Rightarrow> bytes result" where
  "json_dump indent ch ascii handler j =
     (let opts = \<lparr>pretty_print = (0 \<le> indent), ensure_ascii = ascii,
                   indent_step = (if 0 \<le> indent then nat indent else 0), indent_char = ch,
                   error_handler = handler\<rparr>
      in rbind (dump_val opts 0 j \<lparr>out_str = [], indent_string_size = 512\<rparr>) (\<lambda>s. Inr (out_str s)))"

end
