(* ===== verification/Json_Utf8.thy ===== *)
theory Json_Utf8
  imports Json_Dump
begin

text \<open>
  UTF-8 as a streaming specification, the decoder table of the serializer as an implementation
  of it, and the escaping of a string as a map over its bytes: what \<open>dump_escaped\<close> computes
  through its automaton and its 512 byte buffer.
\<close>

section \<open>The specification\<close>

text \<open>The ranges the next bytes must lie in; the empty list between two characters.\<close>

fun utf8_advance :: "(nat \<times> nat) list \<Rightarrow> byte \<Rightarrow> (nat \<times> nat) list option" where
  "utf8_advance [] c = (if byte_val c \<le> 0x7F then Some [] else utf8_ranges (byte_val c))"
| "utf8_advance ((lo, hi) # rs) c = (if lo \<le> byte_val c \<and> byte_val c \<le> hi then Some rs else None)"

fun utf8_run :: "(nat \<times> nat) list \<Rightarrow> bytes \<Rightarrow> (nat \<times> nat) list option" where
  "utf8_run rs [] = Some rs"
| "utf8_run rs (c # cs) = (case utf8_advance rs c of None \<Rightarrow> None | Some rs' \<Rightarrow> utf8_run rs' cs)"

definition utf8_valid :: "bytes \<Rightarrow> bool" where
  "utf8_valid s \<longleftrightarrow> utf8_run [] s = Some []"

lemma utf8_run_append:
  "utf8_run rs (s @ t) = (case utf8_run rs s of None \<Rightarrow> None | Some rs' \<Rightarrow> utf8_run rs' t)"
  by (induction s arbitrary: rs) (auto split: option.split)

lemma utf8_valid_Nil [simp]: "utf8_valid []"
  by (simp add: utf8_valid_def)

lemma utf8_valid_append: "utf8_valid s \<Longrightarrow> utf8_valid t \<Longrightarrow> utf8_valid (s @ t)"
  by (simp add: utf8_valid_def utf8_run_append)

lemma utf8_valid_ascii: "\<forall>c \<in> set s. byte_val c \<le> 0x7F \<Longrightarrow> utf8_valid s"
  unfolding utf8_valid_def by (induction s) auto

section \<open>The automaton\<close>

text \<open>What the states of the automaton stand for; 1 rejects.\<close>

definition dfa_ranges :: "nat \<Rightarrow> (nat \<times> nat) list option" where
  "dfa_ranges st =
     (if st = 0 then Some []
      else if st = 2 then Some [(0x80, 0xBF)]
      else if st = 3 then Some [(0x80, 0xBF), (0x80, 0xBF)]
      else if st = 4 then Some [(0xA0, 0xBF), (0x80, 0xBF)]
      else if st = 5 then Some [(0x80, 0x9F), (0x80, 0xBF)]
      else if st = 6 then Some [(0x90, 0xBF), (0x80, 0xBF), (0x80, 0xBF)]
      else if st = 7 then Some [(0x80, 0xBF), (0x80, 0xBF), (0x80, 0xBF)]
      else if st = 8 then Some [(0x80, 0x8F), (0x80, 0xBF), (0x80, 0xBF)]
      else None)"

lemma dfa_ranges_simps [simp]:
  "dfa_ranges 0 = Some []" "dfa_ranges (Suc 0) = None" "dfa_ranges 2 = Some [(0x80, 0xBF)]"
  "dfa_ranges 3 = Some [(0x80, 0xBF), (0x80, 0xBF)]" "dfa_ranges 4 = Some [(0xA0, 0xBF), (0x80, 0xBF)]"
  "dfa_ranges 5 = Some [(0x80, 0x9F), (0x80, 0xBF)]"
  "dfa_ranges 6 = Some [(0x90, 0xBF), (0x80, 0xBF), (0x80, 0xBF)]"
  "dfa_ranges 7 = Some [(0x80, 0xBF), (0x80, 0xBF), (0x80, 0xBF)]"
  "dfa_ranges 8 = Some [(0x80, 0x8F), (0x80, 0xBF), (0x80, 0xBF)]"
  by (simp_all add: dfa_ranges_def)

text \<open>The character class of a byte.\<close>

definition utf8_class :: "nat \<Rightarrow> nat" where
  "utf8_class v =
     (if v < 0x80 then 0 else if v < 0x90 then 1 else if v < 0xA0 then 9 else if v < 0xC0 then 7
      else if v < 0xC2 then 8 else if v < 0xE0 then 2 else if v = 0xE0 then 0xA
      else if v = 0xED then 4 else if v < 0xF0 then 3 else if v = 0xF0 then 0xB
      else if v < 0xF4 then 6 else if v = 0xF4 then 5 else 8)"

lemma less_16_cases: "k < (16::nat) \<Longrightarrow>
    k = 0 \<or> k = 1 \<or> k = 2 \<or> k = 3 \<or> k = 4 \<or> k = 5 \<or> k = 6 \<or> k = 7 \<or>
    k = 8 \<or> k = 9 \<or> k = 10 \<or> k = 11 \<or> k = 12 \<or> k = 13 \<or> k = 14 \<or> k = 15"
  by presburger

lemma utf8d_e0_class: "k < 16 \<Longrightarrow> utf8d_e0 ! k = utf8_class (224 + k)"
  by (drule less_16_cases, elim disjE) (simp_all add: utf8d_e0_def utf8_class_def)

lemma utf8d_f0_class: "k < 16 \<Longrightarrow> utf8d_f0 ! k = utf8_class (240 + k)"
  by (drule less_16_cases, elim disjE) (simp_all add: utf8d_f0_def utf8_class_def)

lemma nth_middle:
  "length xs \<le> n \<Longrightarrow> n < length xs + length ys \<Longrightarrow> (xs @ ys @ zs) ! n = ys ! (n - length xs)"
  by (auto simp: nth_append)

definition utf8d_below_e0 :: "nat list" where
  "utf8d_below_e0 = replicate 128 0 @ replicate 16 1 @ replicate 16 9 @ replicate 32 7 @
     replicate 2 8 @ replicate 30 2"

lemma utf8d_lengths [simp]: "length utf8d_below_e0 = 224" "length utf8d_e0 = 16" "length utf8d_f0 = 16"
  by (simp_all add: utf8d_below_e0_def utf8d_e0_def utf8d_f0_def)

lemma utf8d_split: "utf8d = utf8d_below_e0 @ utf8d_e0 @ utf8d_f0 @ concat utf8d_states"
  by (simp add: utf8d_def utf8d_below_e0_def)

lemma utf8d_class:
  assumes "v < 256" shows "utf8d ! v = utf8_class v"
proof -
  consider "v < 224" | "224 \<le> v" "v < 240" | "240 \<le> v" using assms by linarith
  then show ?thesis
  proof cases
    case 1
    then show ?thesis by (auto simp: utf8d_def utf8_class_def nth_append)
  next
    case 2
    then show ?thesis
      using utf8d_e0_class [of "v - 224"]
        nth_middle [of utf8d_below_e0 v utf8d_e0 "utf8d_f0 @ concat utf8d_states"]
      by (simp add: utf8d_split)
  next
    case 3
    then show ?thesis
      using utf8d_f0_class [of "v - 240"] assms
        nth_middle [of "utf8d_below_e0 @ utf8d_e0" v utf8d_f0 "concat utf8d_states"]
      by (simp add: utf8d_split)
  qed
qed

lemma nth_concat_rows:
  "\<forall>r \<in> set rows. length r = n \<Longrightarrow> i < length rows \<Longrightarrow> k < n \<Longrightarrow> concat rows ! (i * n + k) = rows ! i ! k"
proof (induction rows arbitrary: i)
  case (Cons r rows)
  then show ?case by (cases i) (simp_all add: nth_append add.assoc)
qed simp

lemma utf8d_transition:
  assumes "st < 9" "type < 16"
  shows "utf8d ! (256 + st * 16 + type) = utf8d_states ! st ! type"
proof -
  have len: "length utf8d_states = 9" "\<forall>r \<in> set utf8d_states. length r = 16"
    by (simp_all add: utf8d_states_def)
  have "utf8d ! (256 + st * 16 + type) = concat utf8d_states ! (st * 16 + type)"
    by (simp add: utf8d_split nth_append)
  then show ?thesis using assms len by (simp add: nth_concat_rows)
qed

lemma utf8_class_less: "utf8_class v < 16"
  by (simp add: utf8_class_def)

lemma fst_decode:
  "st < 9 \<Longrightarrow> v < 256 \<Longrightarrow> fst (decode st cp v) = utf8d_states ! st ! utf8_class v"
  by (simp add: decode_def Let_def utf8d_class utf8d_transition utf8_class_less)

text \<open>The rows of the table, and the classes of continuation bytes, as conditions.\<close>

lemma utf8d_rows:
  "k < 16 \<Longrightarrow> utf8d_states ! 2 ! k = (if k \<in> {1, 7, 9} then 0 else 1)"
  "k < 16 \<Longrightarrow> utf8d_states ! 3 ! k = (if k \<in> {1, 7, 9} then 2 else 1)"
  "k < 16 \<Longrightarrow> utf8d_states ! 4 ! k = (if k = 7 then 2 else 1)"
  "k < 16 \<Longrightarrow> utf8d_states ! 5 ! k = (if k \<in> {1, 9} then 2 else 1)"
  "k < 16 \<Longrightarrow> utf8d_states ! 6 ! k = (if k \<in> {7, 9} then 3 else 1)"
  "k < 16 \<Longrightarrow> utf8d_states ! 7 ! k = (if k \<in> {1, 7, 9} then 3 else 1)"
  "k < 16 \<Longrightarrow> utf8d_states ! 8 ! k = (if k = 1 then 3 else 1)"
  by (drule less_16_cases, elim disjE, simp_all add: utf8d_states_def)+

lemma utf8_class_iff:
  "utf8_class v = 1 \<longleftrightarrow> 0x80 \<le> v \<and> v \<le> 0x8F" "utf8_class v = 9 \<longleftrightarrow> 0x90 \<le> v \<and> v \<le> 0x9F"
  "utf8_class v = 7 \<longleftrightarrow> 0xA0 \<le> v \<and> v \<le> 0xBF"
  by (auto simp: utf8_class_def)

lemma utf8d_lead:
  "v < 256 \<Longrightarrow> utf8d_states ! 0 ! utf8_class v =
     (if v \<le> 0x7F then 0 else if 0xC2 \<le> v \<and> v \<le> 0xDF then 2 else if v = 0xE0 then 4
      else if v = 0xED then 5 else if 0xE1 \<le> v \<and> v \<le> 0xEF then 3 else if v = 0xF0 then 6
      else if 0xF1 \<le> v \<and> v \<le> 0xF3 then 7 else if v = 0xF4 then 8 else 1)"
  by (simp add: utf8_class_def utf8d_states_def)

lemma decode_continue:
  assumes "v < 256"
  shows "fst (decode 2 cp v) = (if 0x80 \<le> v \<and> v \<le> 0xBF then 0 else 1)"
    "fst (decode 3 cp v) = (if 0x80 \<le> v \<and> v \<le> 0xBF then 2 else 1)"
    "fst (decode 4 cp v) = (if 0xA0 \<le> v \<and> v \<le> 0xBF then 2 else 1)"
    "fst (decode 5 cp v) = (if 0x80 \<le> v \<and> v \<le> 0x9F then 2 else 1)"
    "fst (decode 6 cp v) = (if 0x90 \<le> v \<and> v \<le> 0xBF then 3 else 1)"
    "fst (decode 7 cp v) = (if 0x80 \<le> v \<and> v \<le> 0xBF then 3 else 1)"
    "fst (decode 8 cp v) = (if 0x80 \<le> v \<and> v \<le> 0x8F then 3 else 1)"
  using assms by (simp_all only: fst_decode utf8d_rows utf8_class_less utf8_class_iff rel_simps
      insert_iff empty_iff) auto

lemma dfa_ranges_states:
  "dfa_ranges st = Some rs \<Longrightarrow>
    st = 0 \<and> rs = [] \<or> st = 2 \<and> rs = [(0x80, 0xBF)] \<or> st = 3 \<and> rs = [(0x80, 0xBF), (0x80, 0xBF)] \<or>
    st = 4 \<and> rs = [(0xA0, 0xBF), (0x80, 0xBF)] \<or> st = 5 \<and> rs = [(0x80, 0x9F), (0x80, 0xBF)] \<or>
    st = 6 \<and> rs = [(0x90, 0xBF), (0x80, 0xBF), (0x80, 0xBF)] \<or>
    st = 7 \<and> rs = [(0x80, 0xBF), (0x80, 0xBF), (0x80, 0xBF)] \<or>
    st = 8 \<and> rs = [(0x80, 0x8F), (0x80, 0xBF), (0x80, 0xBF)]"
  by (simp add: dfa_ranges_def split: if_splits)

lemma decode_ranges:
  assumes "dfa_ranges st = Some rs"
  shows "(case utf8_advance rs c of
            None \<Rightarrow> fst (decode st cp (byte_val c)) = UTF8_REJECT
          | Some rs' \<Rightarrow> dfa_ranges (fst (decode st cp (byte_val c))) = Some rs')"
proof -
  have lead: "(case utf8_advance [] c of
            None \<Rightarrow> fst (decode 0 cp (byte_val c)) = UTF8_REJECT
          | Some rs' \<Rightarrow> dfa_ranges (fst (decode 0 cp (byte_val c))) = Some rs')"
    by (simp add: fst_decode utf8d_lead utf8_ranges_def UTF8_REJECT_def)
  show ?thesis
  proof (cases "st = 0")
    case True
    then show ?thesis using assms lead by (simp only: dfa_ranges_simps option.inject)
  next
    case False
    with dfa_ranges_states [OF assms] show ?thesis
      by (elim disjE conjE) (simp_all add: decode_continue UTF8_REJECT_def)
  qed
qed

section \<open>Escaping is a map over the bytes\<close>

definition escape_byte :: "byte \<Rightarrow> bytes" where
  "escape_byte b =
     (let v = byte_val b in
      if v = 0x08 then [CHR 0x5C, CHR ''b''] else if v = 0x09 then [CHR 0x5C, CHR ''t'']
      else if v = 0x0A then [CHR 0x5C, CHR ''n''] else if v = 0x0C then [CHR 0x5C, CHR ''f'']
      else if v = 0x0D then [CHR 0x5C, CHR ''r''] else if v = 0x22 then [CHR 0x5C, CHR 0x22]
      else if v = 0x5C then [CHR 0x5C, CHR 0x5C] else if v \<le> 0x1F then u_escape v
      else [b])"

definition escape_text :: "bytes \<Rightarrow> bytes" where
  "escape_text s = concat (map escape_byte s)"

lemma escape_text_simps [simp]:
  "escape_text [] = []" "escape_text (c # cs) = escape_byte c @ escape_text cs"
  "escape_text (s @ t) = escape_text s @ escape_text t"
  by (simp_all add: escape_text_def)

lemma escape_byte_high: "0x5C < byte_val b \<Longrightarrow> escape_byte b = [b]"
  by (simp add: escape_byte_def)

lemma length_u_escape [simp]: "length (u_escape n) = 6"
  by (simp add: u_escape_def)

text \<open>Inside a character the code point read so far is large enough that the character is
  not one of those that are escaped, and small enough that nothing is shifted out.\<close>

definition codepoint_bound :: "nat \<Rightarrow> nat \<Rightarrow> bool" where
  "codepoint_bound st cp \<longleftrightarrow>
     (st = 2 \<longrightarrow> 2 \<le> cp \<and> cp < 2 ^ 15) \<and> (st = 3 \<or> st = 5 \<longrightarrow> 1 \<le> cp \<and> cp < 2 ^ 9) \<and>
     (st = 4 \<longrightarrow> cp = 0) \<and> (st = 6 \<longrightarrow> cp = 0) \<and> (st = 7 \<or> st = 8 \<longrightarrow> 1 \<le> cp \<and> cp < 8)"

lemma snd_decode_lead: "v < 256 \<Longrightarrow> snd (decode 0 cp v) = v mod 2 ^ (8 - utf8_class v)"
  by (simp add: decode_def Let_def utf8d_class UTF8_ACCEPT_def)

lemma snd_decode_continue: "st \<noteq> 0 \<Longrightarrow> snd (decode st cp v) = v mod 64 + cp * 64 mod 2 ^ 32"
  by (simp add: decode_def Let_def UTF8_ACCEPT_def)

lemma fst_decode_lead:
  "v < 256 \<Longrightarrow> fst (decode 0 cp v) =
     (if v \<le> 0x7F then 0 else if 0xC2 \<le> v \<and> v \<le> 0xDF then 2 else if v = 0xE0 then 4
      else if v = 0xED then 5 else if 0xE1 \<le> v \<and> v \<le> 0xEF then 3 else if v = 0xF0 then 6
      else if 0xF1 \<le> v \<and> v \<le> 0xF3 then 7 else if v = 0xF4 then 8 else 1)"
  by (simp only: fst_decode utf8d_lead)

lemma lead_payload:
  "0xC2 \<le> v \<Longrightarrow> v \<le> 0xDF \<Longrightarrow> v mod 64 = v - 192"
  "0xE1 \<le> v \<Longrightarrow> v \<le> 0xEF \<Longrightarrow> v mod 32 = v - 224"
  "0xF1 \<le> v \<Longrightarrow> v \<le> 0xF3 \<Longrightarrow> v mod 4 = v - 240"
  for v :: nat
  by (auto intro!: mod_nat_eqI)

lemma codepoint_lead:
  assumes "v < 256" and "fst (decode 0 cp v) \<noteq> UTF8_REJECT"
  shows "codepoint_bound (fst (decode 0 cp v)) (snd (decode 0 cp v)) \<and>
    (fst (decode 0 cp v) = 0 \<longrightarrow> snd (decode 0 cp v) = v \<and> v \<le> 0x7F)"
proof -
  have ne: "(if v \<le> 0x7F then 0 else if 0xC2 \<le> v \<and> v \<le> 0xDF then 2 else if v = 0xE0 then 4
      else if v = 0xED then 5 else if 0xE1 \<le> v \<and> v \<le> 0xEF then 3 else if v = 0xF0 then 6
      else if 0xF1 \<le> v \<and> v \<le> 0xF3 then 7 else if v = 0xF4 then 8 else 1) \<noteq> (1::nat)"
    using assms(2) unfolding fst_decode_lead [OF assms(1)] UTF8_REJECT_def .
  have "utf8_class v = 0 \<and> v \<le> 0x7F \<or> utf8_class v = 2 \<and> 0xC2 \<le> v \<and> v \<le> 0xDF \<or>
      utf8_class v = 0xA \<and> v = 0xE0 \<or> utf8_class v = 4 \<and> v = 0xED \<or>
      utf8_class v = 3 \<and> 0xE1 \<le> v \<and> v \<le> 0xEF \<and> v \<noteq> 0xED \<or> utf8_class v = 0xB \<and> v = 0xF0 \<or>
      utf8_class v = 6 \<and> 0xF1 \<le> v \<and> v \<le> 0xF3 \<or> utf8_class v = 5 \<and> v = 0xF4"
    using ne by (auto simp: utf8_class_def split: if_splits)
  then show ?thesis
    using assms(1)
    by (elim disjE conjE; simp add: snd_decode_lead fst_decode_lead codepoint_bound_def lead_payload; linarith)
qed

lemma decode_shift:
  "st \<noteq> 0 \<Longrightarrow> cp < 2 ^ 15 \<Longrightarrow> 0x80 \<le> v \<Longrightarrow> v \<le> 0xBF \<Longrightarrow> snd (decode st cp v) = v - 128 + cp * 64"
  using mod_nat_eqI [of "v - 128" 64 v] by (simp add: snd_decode_continue)

lemma codepoint_continue:
  assumes "dfa_ranges st = Some rs" "st \<noteq> 0" "codepoint_bound st cp" "v < 256"
    and "fst (decode st cp v) \<noteq> UTF8_REJECT"
  shows "codepoint_bound (fst (decode st cp v)) (snd (decode st cp v)) \<and> 0x80 \<le> v \<and>
    (fst (decode st cp v) = 0 \<longrightarrow> 0x80 \<le> snd (decode st cp v))"
  using dfa_ranges_states [OF assms(1)] assms(2-5)
  by (elim disjE conjE)
    (auto simp: decode_shift decode_continue codepoint_bound_def UTF8_REJECT_def split: if_splits)

text \<open>What holds of the escaper between two bytes, and what it has put out so far.\<close>

definition escape_inv :: "escaper \<Rightarrow> (nat \<times> nat) list \<Rightarrow> bool" where
  "escape_inv e rs \<longleftrightarrow> dfa_ranges (state e) = Some rs \<and> codepoint_bound (state e) (codepoint e) \<and>
     length (string_buffer e) + length rs \<le> 503 \<and> (rs = [] \<longrightarrow> length (string_buffer e) \<le> 499)"

definition emitted :: "escaper \<Rightarrow> bytes" where
  "emitted e = written e @ string_buffer e"

lemma push_bytes_ok:
  "length (string_buffer e) + length bs + slack \<le> 512 \<Longrightarrow>
   push_bytes bs slack e = Inr (e\<lparr>string_buffer := string_buffer e @ bs\<rparr>)"
  by (simp add: push_bytes_def string_buffer_size_def)

lemma emit_codepoint_ok:
  assumes "length (string_buffer e) \<le> 503" "codepoint e \<le> 0x7F \<Longrightarrow> length (string_buffer e) \<le> 499"
    and "codepoint e \<le> 0x7F \<Longrightarrow> codepoint e = byte_val b" "0x7F < codepoint e \<Longrightarrow> 0x80 \<le> byte_val b"
  shows "emit_codepoint False b e = Inr (e\<lparr>string_buffer := string_buffer e @ escape_byte b\<rparr>)"
proof (cases "codepoint e \<le> 0x7F")
  case True
  then show ?thesis
    using assms(2,3) by (simp add: emit_codepoint_def escape_byte_def push_bytes_ok Let_def)
next
  case False
  then show ?thesis
    using assms(1,4) by (simp add: emit_codepoint_def escape_byte_high push_bytes_ok Let_def)
qed

lemma flush_if_short_emitted:
  "emitted (flush_if_short e) = emitted e" "state (flush_if_short e) = state e"
  "codepoint (flush_if_short e) = codepoint e"
  "length (string_buffer (flush_if_short e)) \<le> 499"
  by (auto simp: flush_if_short_def emitted_def string_buffer_size_def)

lemma dfa_ranges_Nil: "dfa_ranges st = Some rs \<Longrightarrow> rs = [] \<longleftrightarrow> st = 0"
  using dfa_ranges_states by fastforce

text \<open>A byte that is accepted: the ranges that are left and the code point so far; then the step that
  completes a character and the step that does not.\<close>

lemma utf8_advance_length:
  assumes "utf8_advance rs b = Some rs'" "dfa_ranges st' = Some rs'"
  shows "length rs' \<le> 3" and "rs \<noteq> [] \<Longrightarrow> length rs = Suc (length rs')"
proof -
  show "length rs' \<le> 3" using dfa_ranges_states [OF assms(2)] by (elim disjE conjE) simp_all
  show "rs \<noteq> [] \<Longrightarrow> length rs = Suc (length rs')"
    using assms(1) by (cases rs) (auto split: if_splits)
qed

lemma decode_accepts:
  assumes "escape_inv e rs" "utf8_advance rs b = Some rs'"
    and "decode (state e) (codepoint e) (byte_val b) = (st, cp)"
  shows "dfa_ranges st = Some rs'" and "codepoint_bound st cp"
    and "st = 0 \<Longrightarrow> (rs = [] \<and> cp = byte_val b \<and> byte_val b \<le> 0x7F) \<or> (0x7F < cp \<and> 0x80 \<le> byte_val b)"
    and "st \<noteq> 0 \<Longrightarrow> 0x80 \<le> byte_val b"
proof -
  have dfa: "dfa_ranges (state e) = Some rs" and bound: "codepoint_bound (state e) (codepoint e)"
    using assms(1) by (auto simp: escape_inv_def)
  show dfa': "dfa_ranges st = Some rs'"
    using decode_ranges [OF dfa, of "codepoint e" b] assms(2,3) by simp
  then have ne: "st \<noteq> UTF8_REJECT" by (auto simp: UTF8_REJECT_def dfa_ranges_def)
  have first: "codepoint_bound st cp \<and> (st = 0 \<longrightarrow> cp = byte_val b \<and> byte_val b \<le> 0x7F) \<and>
      (st \<noteq> 0 \<longrightarrow> 0x80 \<le> byte_val b)" if "state e = 0"
    using codepoint_lead [of "byte_val b" "codepoint e"] fst_decode_lead [of "byte_val b" "codepoint e"]
      assms(3) ne that by (auto split: if_splits)
  have later: "codepoint_bound st cp \<and> 0x80 \<le> byte_val b \<and> (st = 0 \<longrightarrow> 0x80 \<le> cp)"
    if "state e \<noteq> 0"
    using codepoint_continue [OF dfa that bound, of "byte_val b"] assms(3) ne by simp
  show "codepoint_bound st cp" using first later by blast
  show "(rs = [] \<and> cp = byte_val b \<and> byte_val b \<le> 0x7F) \<or> (0x7F < cp \<and> 0x80 \<le> byte_val b)" if "st = 0"
    using first later dfa_ranges_Nil [OF dfa] that by (cases "state e = 0") auto
  show "0x80 \<le> byte_val b" if "st \<noteq> 0"
    using first later that by (cases "state e = 0") blast+
qed

lemma escape_step_completes:
  assumes inv: "escape_inv e rs" and adv: "utf8_advance rs b = Some rs'"
    and dec: "decode (state e) (codepoint e) (byte_val b) = (0, cp)"
  shows "\<exists>e'. escape_step strict False b e = Inr (False, e') \<and> escape_inv e' rs' \<and>
    emitted e' = emitted e @ escape_byte b"
proof -
  note acc = decode_accepts [OF inv adv dec]
  have "length (string_buffer e) \<le> 503" "rs = [] \<Longrightarrow> length (string_buffer e) \<le> 499"
    using inv by (auto simp: escape_inv_def)
  then have "emit_codepoint False b (e\<lparr>state := 0, codepoint := cp\<rparr>) =
      Inr (e\<lparr>state := 0, codepoint := cp, string_buffer := string_buffer e @ escape_byte b\<rparr>)"
    using acc(3) by (subst emit_codepoint_ok) auto
  moreover have "rs' = []" using dfa_ranges_Nil [OF acc(1)] by simp
  ultimately show ?thesis
    using acc(1) dec
    by (simp add: escape_step_def on_accept_def Let_def UTF8_ACCEPT_def escape_inv_def
        flush_if_short_emitted codepoint_bound_def)
      (auto simp: emitted_def flush_if_short_def string_buffer_size_def)
qed

lemma escape_step_waits:
  assumes inv: "escape_inv e rs" and adv: "utf8_advance rs b = Some rs'"
    and dec: "decode (state e) (codepoint e) (byte_val b) = (st, cp)" and st: "st \<noteq> 0"
  shows "\<exists>e'. escape_step strict False b e = Inr (False, e') \<and> escape_inv e' rs' \<and>
    emitted e' = emitted e @ escape_byte b"
proof -
  note acc = decode_accepts [OF inv adv dec]
  have room: "length (string_buffer e) + length rs \<le> 503" "rs = [] \<Longrightarrow> length (string_buffer e) \<le> 499"
    using inv by (auto simp: escape_inv_def)
  have fits: "length (string_buffer e) + 1 + length rs' \<le> 503"
    using room utf8_advance_length [OF adv acc(1)] by (cases "rs = []") simp_all
  have "rs' \<noteq> []" using dfa_ranges_Nil [OF acc(1)] st by simp
  moreover have "st \<noteq> UTF8_REJECT" using acc(1) by (auto simp: UTF8_REJECT_def dfa_ranges_def)
  moreover have "push_bytes [b] 0 (e\<lparr>state := st, codepoint := cp\<rparr>) =
      Inr (e\<lparr>state := st, codepoint := cp, string_buffer := string_buffer e @ [b]\<rparr>)"
    using fits by (simp add: push_bytes_ok)
  ultimately show ?thesis
    using acc(1,2,4) st fits
    by (simp add: escape_step_def dec on_incomplete_def Let_def UTF8_ACCEPT_def escape_inv_def
        emitted_def escape_byte_high)
qed

lemma escape_step_ok:
  assumes "escape_inv e rs" and "utf8_advance rs b = Some rs'"
  shows "\<exists>e'. escape_step strict False b e = Inr (False, e') \<and> escape_inv e' rs' \<and>
    emitted e' = emitted e @ escape_byte b"
proof (cases "decode (state e) (codepoint e) (byte_val b)")
  case (Pair st cp)
  then show ?thesis
    using escape_step_completes [OF assms, of cp] escape_step_waits [OF assms Pair]
    by (cases "st = 0") simp_all
qed

lemma escape_step_reject:
  assumes "escape_inv e rs" and "utf8_advance rs b = None"
  shows "escape_step strict False b e = Inl (Json_type_error 316)"
  using decode_ranges [of "state e" rs "codepoint e" b] assms
  by (simp add: escape_step_def escape_inv_def on_reject_def UTF8_ACCEPT_def UTF8_REJECT_def Let_def split_beta)

lemma escape_loop_strict:
  "escape_inv e rs \<Longrightarrow>
   (case utf8_run rs s of
      None \<Rightarrow> escape_loop strict False s e = Inl (Json_type_error 316)
    | Some rs' \<Rightarrow> (\<exists>e'. escape_loop strict False s e = Inr e' \<and> escape_inv e' rs' \<and>
        emitted e' = emitted e @ escape_text s))"
proof (induction s arbitrary: e rs)
  case (Cons b s)
  show ?case
  proof (cases "utf8_advance rs b")
    case None
    then show ?thesis using escape_step_reject [OF Cons.prems None] by simp
  next
    case (Some rs')
    obtain e' where e': "escape_step strict False b e = Inr (False, e')" "escape_inv e' rs'"
        "emitted e' = emitted e @ escape_byte b"
      using escape_step_ok [OF Cons.prems Some] by blast
    then show ?thesis using Cons.IH [OF e'(2)] Some by (auto split: option.splits)
  qed
qed simp

text \<open>The escaping routine, its buffer and its automaton against the map over the bytes.\<close>

lemma dump_escaped_eq:
  "dump_escaped strict False s =
     (if utf8_valid s then Inr (escape_text s) else Inl (Json_type_error 316))"
proof -
  have inv: "escape_inv new_escaper []"
    by (simp add: escape_inv_def new_escaper_def UTF8_ACCEPT_def codepoint_bound_def)
  have nil: "emitted new_escaper = []"
    by (simp add: emitted_def new_escaper_def)
  show ?thesis
  proof (cases "utf8_run [] s")
    case None
    then show ?thesis
      using escape_loop_strict [OF inv, of s] by (simp add: dump_escaped_def utf8_valid_def)
  next
    case (Some rs)
    obtain e' where e': "escape_loop strict False s new_escaper = Inr e'" "escape_inv e' rs"
        "emitted e' = escape_text s"
      using escape_loop_strict [OF inv, of s] Some nil by auto
    then have "state e' = 0 \<longleftrightarrow> rs = []"
      using dfa_ranges_Nil by (auto simp: escape_inv_def)
    then show ?thesis
      using Some e' by (simp add: dump_escaped_def dump_escaped_end_def utf8_valid_def UTF8_ACCEPT_def emitted_def)
  qed
qed

end
