(* ===== verification/Json_Tokens.thy ===== *)
theory Json_Tokens
  imports Json_Scan Json_Utf8
begin

text \<open>
  What the lexer does on the texts the serializer writes: one lemma per kind of token, each of
  the form "if the unread input starts with the text of the token, \<open>scan\<close> delivers the token
  with its value and leaves exactly the rest unread".
\<close>

section \<open>Reading known input\<close>

text \<open>The lexer reads on \<open>rest\<close>: nothing else about it matters for the tokens to come.\<close>

definition reads :: "lexer \<Rightarrow> bytes \<Rightarrow> bool" where
  "reads lx rest \<longleftrightarrow> lex_ok lx \<and> unread lx = rest"

named_theorems reads_intros \<open>what is left to read after a call\<close>

lemma reads_get [reads_intros]: "reads lx (c # cs) \<Longrightarrow> reads (lex_get lx) cs"
  using lex_get_unread [of lx] by (simp add: reads_def)

lemma reads_get_Nil: "reads lx [] \<Longrightarrow> reads (lex_get lx) []"
  using lex_get_unread [of lx] by (simp add: reads_def)

lemma reads_current [simp]: "reads lx (c # cs) \<Longrightarrow> current (lex_get lx) = Some c"
  by (simp add: reads_def lex_get_current)

lemma reads_current_Nil: "reads lx [] \<Longrightarrow> current (lex_get lx) = None"
  by (simp add: reads_def lex_get_current)

lemma reads_add [simp]: "reads (lex_add lx c) rest = reads lx rest"
  by (simp add: reads_def)

lemma reads_add_all [simp]: "reads (add_all lx bs) rest = reads lx rest"
  by (simp add: reads_def)

lemma reads_reset [simp]: "reads (lex_reset lx) rest = reads lx rest"
  by (simp add: reads_def)

lemma reads_new_lexer: "reads (new_lexer input) input"
  by (simp add: reads_def new_lexer_def lex_ok_def unread_def)

lemma reads_unget: "reads lx rest \<Longrightarrow> reads (lex_unget (lex_get lx)) rest"
proof (cases rest)
  case Nil
  assume lx: "reads lx rest"
  then have "ia (lex_get lx) = []" using reads_get_Nil Nil by (simp add: reads_def unread_def)
  then show ?thesis using lx by (simp add: reads_def unread_unget_get lex_ok_def)
next
  case (Cons c cs)
  assume "reads lx rest"
  then show ?thesis using Cons reads_current [of lx c cs] by (simp add: reads_def unread_unget_get lex_ok_def)
qed

lemma reads_updates [simp]:
  "reads (lx\<lparr>lex_float := f\<rparr>) rest = reads lx rest" "reads (lx\<lparr>lex_unsigned := u\<rparr>) rest = reads lx rest"
  "reads (lx\<lparr>lex_integer := i\<rparr>) rest = reads lx rest"
  by (simp_all add: reads_def unread_def lex_ok_def)

section \<open>From the scanner to the token\<close>

text \<open>The lexer with the first character of a token current.\<close>

definition starts :: "lexer \<Rightarrow> byte \<Rightarrow> bytes \<Rightarrow> bool" where
  "starts lx c cs \<longleftrightarrow> current lx = Some c \<and> next_unget lx = False \<and> reads lx cs"

lemma reads_bom:
  "reads lx (c # cs) \<Longrightarrow> c \<noteq> CHR 0xEF \<Longrightarrow>
   \<exists>l. (if chars_read_total lx = 0 then skip_bom lx else (True, lx)) = (True, l) \<and> reads l (c # cs)"
  by (cases "chars_read_total lx = 0") (simp_all add: skip_bom_def reads_unget)

lemma skip_whitespace_none:
  "reads lx (c # cs) \<Longrightarrow> \<not> is_json_ws c \<Longrightarrow> skip_whitespace lx = lex_get lx"
  by (simp add: skip_whitespace.simps [of lx])

lemma scan_starts:
  assumes "reads lx (c # cs)" and "c \<noteq> CHR 0xEF" and "\<not> is_json_ws c"
  shows "\<exists>l. scan lx = scan_token l \<and> starts l c cs"
proof -
  obtain l where l: "(if chars_read_total lx = 0 then skip_bom lx else (True, lx)) = (True, l)"
      "reads l (c # cs)"
    using reads_bom assms(1,2) by blast
  have "scan lx = scan_token (lex_get l)"
    using l skip_whitespace_none [OF l(2) assms(3)] by (simp add: scan_def)
  moreover have "starts (lex_get l) c cs"
    using l(2) by (simp add: starts_def reads_get)
  ultimately show ?thesis by blast
qed

lemma lex_get_total: "chars_read_total (lex_get lx) = chars_read_total lx + 1"
  by (simp add: lex_get_def lex_fetch_def Let_def split: option.split list.split)

text \<open>White space before a token: the scanner goes on as if it were not there.\<close>

lemma skip_whitespace_reads:
  "reads lx (ws @ text) \<Longrightarrow> list_all is_json_ws ws \<Longrightarrow> ws \<noteq> [] \<Longrightarrow>
   \<exists>l. reads l text \<and> 0 < chars_read_total l \<and> skip_whitespace lx = skip_whitespace l"
proof (induction ws arbitrary: lx)
  case (Cons c ws)
  have r: "reads (lex_get lx) (ws @ text)" using Cons.prems by (simp add: reads_get)
  have s: "skip_whitespace lx = skip_whitespace (lex_get lx)"
    using Cons.prems by (simp add: skip_whitespace.simps [of lx])
  show ?case
  proof (cases "ws = []")
    case True
    then show ?thesis using r s lex_get_total [of lx] by auto
  next
    case False
    then show ?thesis using Cons.IH [OF r] Cons.prems s by auto
  qed
qed simp

lemma scan_skips_whitespace:
  assumes "reads lx (ws @ text)" "list_all is_json_ws ws"
  shows "\<exists>l. reads l text \<and> scan l = scan lx"
proof (cases ws)
  case Nil
  then show ?thesis using assms by auto
next
  case (Cons c cs)
  have "c \<noteq> CHR 0xEF" using assms(2) Cons by (auto simp: is_json_ws_def)
  then obtain l0 where l0: "(if chars_read_total lx = 0 then skip_bom lx else (True, lx)) = (True, l0)"
      "reads l0 (ws @ text)"
    using reads_bom [of lx c "cs @ text"] assms(1) Cons by auto
  obtain l where l: "reads l text" "0 < chars_read_total l" "skip_whitespace l0 = skip_whitespace l"
    using skip_whitespace_reads [OF l0(2) assms(2)] Cons by auto
  have "scan lx = scan_token (skip_whitespace l)" using l0(1) l(3) by (simp add: scan_def)
  also have "\<dots> = scan l" using l(2) by (simp add: scan_def)
  finally show ?thesis using l(1) by auto
qed

lemma scan_end: "reads lx [] \<Longrightarrow> fst (scan lx) = end_of_input"
proof -
  assume lx: "reads lx []"
  obtain l where l: "(if chars_read_total lx = 0 then skip_bom lx else (True, lx)) = (True, l)" "reads l []"
    using lx reads_current_Nil [OF lx] reads_unget [OF lx] by (cases "chars_read_total lx = 0") (simp_all add: skip_bom_def)
  then show ?thesis
    by (simp add: scan_def scan_token_def skip_whitespace.simps [of l] reads_current_Nil)
qed

text \<open>Tokens of one character.\<close>

definition punctuation :: "byte \<Rightarrow> token_type option" where
  "punctuation c =
     (if c = CHR 0x5B then Some begin_array else if c = CHR 0x5D then Some end_array
      else if c = CHR 0x7B then Some begin_object else if c = CHR 0x7D then Some end_object
      else if c = CHR '':'' then Some name_separator else if c = CHR '','' then Some value_separator
      else None)"

lemma scan_punctuation:
  assumes "reads lx (c # cs)" and "punctuation c = Some t"
  shows "\<exists>lx'. scan lx = (t, lx') \<and> reads lx' cs"
proof -
  have "c \<noteq> CHR 0xEF" "\<not> is_json_ws c"
    using assms(2) by (auto simp: punctuation_def is_json_ws_def split: if_splits)
  then obtain l where l: "scan lx = scan_token l" "starts l c cs"
    using scan_starts assms(1) by blast
  then have "scan_token l = (t, l)"
    using assms(2) by (auto simp: starts_def scan_token_def punctuation_def split: if_splits)
  then show ?thesis using l by (auto simp: starts_def)
qed

section \<open>Literals\<close>

lemma scan_literal_loop_reads:
  "reads lx (ls @ rest) \<Longrightarrow> \<exists>lx'. scan_literal_loop ls t lx = (t, lx') \<and> reads lx' rest"
proof (induction ls arbitrary: lx)
  case (Cons l ls)
  then have "reads (lex_get lx) (ls @ rest)" by (simp add: reads_get)
  then show ?case using Cons.IH Cons.prems by simp
qed simp

lemma scan_literals:
  "reads lx (''true'' @ rest) \<Longrightarrow> \<exists>lx'. scan lx = (literal_true, lx') \<and> reads lx' rest"
  "reads lx (''false'' @ rest) \<Longrightarrow> \<exists>lx'. scan lx = (literal_false, lx') \<and> reads lx' rest"
  "reads lx (''null'' @ rest) \<Longrightarrow> \<exists>lx'. scan lx = (literal_null, lx') \<and> reads lx' rest"
proof -
  have lit: "\<exists>lx'. scan lx = (t, lx') \<and> reads lx' rest"
    if start: "reads lx (c # ls @ rest)" "c \<noteq> CHR 0xEF" "\<not> is_json_ws c"
      and tok: "\<And>l. starts l c (ls @ rest) \<Longrightarrow> scan_token l = scan_literal (c # ls) t l" for c ls t
  proof -
    obtain l where l: "scan lx = scan_token l" "starts l c (ls @ rest)"
      using scan_starts start by blast
    then show ?thesis
      using tok [OF l(2)] scan_literal_loop_reads [of l ls rest t]
      by (simp add: starts_def scan_literal_def)
  qed
  show "reads lx (''true'' @ rest) \<Longrightarrow> \<exists>lx'. scan lx = (literal_true, lx') \<and> reads lx' rest"
    using lit [of "CHR ''t''" "''rue''" literal_true]
    by (simp add: is_json_ws_def starts_def scan_token_def)
  show "reads lx (''false'' @ rest) \<Longrightarrow> \<exists>lx'. scan lx = (literal_false, lx') \<and> reads lx' rest"
    using lit [of "CHR ''f''" "''alse''" literal_false]
    by (simp add: is_json_ws_def starts_def scan_token_def)
  show "reads lx (''null'' @ rest) \<Longrightarrow> \<exists>lx'. scan lx = (literal_null, lx') \<and> reads lx' rest"
    using lit [of "CHR ''n''" "''ull''" literal_null]
    by (simp add: is_json_ws_def starts_def scan_token_def)
qed

section \<open>Numbers\<close>

text \<open>What follows a value in the texts the serializer writes.\<close>

definition delim :: "bytes \<Rightarrow> bool" where
  "delim rest \<longleftrightarrow> (case rest of [] \<Rightarrow> True | c # _ \<Rightarrow> c = CHR '','' \<or> c = CHR 0x5D \<or> c = CHR 0x7D \<or> is_json_ws c)"

lemma delim_simps [simp]:
  "delim []" "delim (CHR '','' # r)" "delim (CHR 0x5D # r)" "delim (CHR 0x7D # r)"
  by (simp_all add: delim_def)

lemma delim_not_digit: "delim rest \<Longrightarrow> rest = [] \<or> \<not> is_digit (hd rest)"
  by (auto simp: delim_def is_digit_def is_json_ws_def split: list.splits)

lemma scan_number_tail_delim:
  "reads l rest \<Longrightarrow> delim rest \<Longrightarrow> scan_number_tail nt (lex_get l) = scan_number_done nt (lex_get l)"
  by (cases rest) (auto simp: scan_number_tail_def delim_def reads_current_Nil is_json_ws_def)

lemma digits_loop_reads:
  assumes "reads lx (ds @ rest)" and "\<forall>c \<in> set ds. is_digit c" and "rest = [] \<or> \<not> is_digit (hd rest)"
  shows "\<exists>l. digits_loop lx = lex_get l \<and> reads l rest \<and> token_buffer l = token_buffer lx @ ds"
  using assms(1,2)
proof (induction ds arbitrary: lx)
  case Nil
  have "digits_loop lx = lex_get lx"
    using Nil(1) assms(3)
    by (cases rest) (simp_all add: digits_loop.simps [of lx] reads_current_Nil)
  then show ?case using Nil by auto
next
  case (Cons d ds)
  have "reads (lex_add (lex_get lx) d) (ds @ rest)" using Cons.prems(1) by (simp add: reads_get)
  from Cons.IH [OF this] Cons.prems show ?case by (simp add: digits_loop.simps [of lx])
qed

lemma scan_number_done_reads:
  assumes "reads l rest" and "token_buffer l = sign @ to_string_nat n"
  shows "sign = [] \<Longrightarrow> n < 2 ^ 64 \<Longrightarrow>
      \<exists>lx'. scan_number_done value_unsigned (lex_get l) = (value_unsigned, lx') \<and> reads lx' rest \<and>
        lex_unsigned lx' = n"
    and "sign = [CHR ''-''] \<Longrightarrow> n \<le> 2 ^ 63 \<Longrightarrow>
      \<exists>lx'. scan_number_done value_integer (lex_get l) = (value_integer, lx') \<and> reads lx' rest \<and>
        lex_integer lx' = - int n"
proof -
  have un: "reads (lex_unget (lex_get l)) rest" using assms(1) by (rule reads_unget)
  have pos: "strto_scan (to_string_nat n) = Some (False, n)"
    using strto_scan_to_string_nat [of "[]" n] by simp
  have neg: "strto_scan (CHR ''-'' # to_string_nat n) = Some (True, n)"
  proof -
    have minus: "\<not> is_space (CHR ''-'')" by (simp add: is_space_def)
    obtain d ds where d: "to_string_nat n = d # ds" by (cases "to_string_nat n") auto
    then have "is_digit d" using to_string_nat_digits [of n] by simp
    then show ?thesis
      using pos digit_not_space_sign [of d] by (simp add: strto_scan_def d minus Let_def)
  qed
  from pos neg show "sign = [] \<Longrightarrow> n < 2 ^ 64 \<Longrightarrow>
      \<exists>lx'. scan_number_done value_unsigned (lex_get l) = (value_unsigned, lx') \<and> reads lx' rest \<and>
        lex_unsigned lx' = n"
    and "sign = [CHR ''-''] \<Longrightarrow> n \<le> 2 ^ 63 \<Longrightarrow>
      \<exists>lx'. scan_number_done value_integer (lex_get l) = (value_integer, lx') \<and> reads lx' rest \<and>
        lex_integer lx' = - int n"
    using assms(2) un by (simp_all add: scan_number_done_def Let_def)
qed

text \<open>A decimal number starts with a zero only when it is zero.\<close>

lemma to_string_nat_leading: "to_string_nat n = CHR ''0'' # ds \<Longrightarrow> n = 0 \<and> ds = []"
proof (induction n arbitrary: ds rule: to_string_nat.induct)
  case (1 n)
  show ?case
  proof (cases "n < 10")
    case True
    then have "digit n = CHR ''0''" "ds = []" using "1.prems" by (simp_all add: to_string_nat.simps [of n])
    then show ?thesis using True digit_val_digit [of n] by (simp add: digit_val_def)
  next
    case False
    then obtain ds' where "to_string_nat (n div 10) = CHR ''0'' # ds'"
      using "1.prems" to_string_nat_nonempty [of "n div 10"]
      by (cases "to_string_nat (n div 10)") (auto simp: to_string_nat.simps [of n])
    then show ?thesis using "1.IH" [OF False] False by auto
  qed
qed

text \<open>The digits behind the first one, from either entry of the state machine.\<close>

lemma scan_number_digits:
  assumes "reads lx (ds @ rest)" and "to_string_nat n = d # ds" and "delim rest"
    and "token_buffer lx = pre @ [d]"
  shows "\<exists>l. reads l rest \<and> token_buffer l = pre @ to_string_nat n \<and>
    (if d = CHR ''0'' then scan_number_zero nt lx else scan_number_any1 nt lx) = scan_number_done nt (lex_get l)"
proof (cases "d = CHR ''0''")
  case True
  then have "ds = []" using to_string_nat_leading assms(2) by simp
  then show ?thesis
    using True assms scan_number_tail_delim [of lx rest nt] by (auto simp: scan_number_zero_def)
next
  case False
  have "\<forall>c \<in> set ds. is_digit c" using to_string_nat_digits [of n] assms(2) by simp
  then obtain l where l: "digits_loop lx = lex_get l" "reads l rest" "token_buffer l = token_buffer lx @ ds"
    using digits_loop_reads [OF _ _ delim_not_digit] assms(1,3) by blast
  then show ?thesis
    using False assms(2-4) scan_number_tail_delim [of l rest nt] by (auto simp: scan_number_any1_def)
qed

lemma digit_not_punctuation:
  assumes "is_digit c"
  shows "c \<noteq> CHR 0x5B" "c \<noteq> CHR 0x5D" "c \<noteq> CHR 0x7B" "c \<noteq> CHR 0x7D" "c \<noteq> CHR '':''" "c \<noteq> CHR '',''"
    "c \<noteq> CHR ''t''" "c \<noteq> CHR ''f''" "c \<noteq> CHR ''n''" "c \<noteq> CHR 0x22" "c \<noteq> CHR 0xEF"
    "c \<noteq> CHR '' ''" "c \<noteq> CHR 0x09" "c \<noteq> CHR 0x0A" "c \<noteq> CHR 0x0D"
  using assms by (auto simp: is_digit_def)

lemma digit_token: "is_digit c \<Longrightarrow> c \<noteq> CHR 0xEF \<and> \<not> is_json_ws c"
  by (simp add: digit_not_punctuation is_json_ws_def)

lemma scan_token_digit: "is_digit c \<Longrightarrow> current lx = Some c \<Longrightarrow> scan_token lx = scan_number lx"
  by (simp add: digit_not_punctuation scan_token_def)

lemma scan_unsigned:
  assumes "reads lx (to_string_nat n @ rest)" and "n < 2 ^ 64" and "delim rest"
  shows "\<exists>lx'. scan lx = (value_unsigned, lx') \<and> reads lx' rest \<and> lex_unsigned lx' = n"
proof -
  obtain d ds where n: "to_string_nat n = d # ds" by (cases "to_string_nat n") auto
  have d: "is_digit d" using to_string_nat_digits [of n] n by simp
  then obtain l where l: "scan lx = scan_token l" "starts l d (ds @ rest)"
    using scan_starts [of lx d "ds @ rest"] digit_token assms(1) n by auto
  let ?l = "lex_add (lex_reset l) d"
  have "reads ?l (ds @ rest)" using l(2) by (simp add: starts_def)
  then obtain k where k: "reads k rest" "token_buffer k = [] @ to_string_nat n"
      "(if d = CHR ''0'' then scan_number_zero value_unsigned ?l else scan_number_any1 value_unsigned ?l) =
        scan_number_done value_unsigned (lex_get k)"
    using scan_number_digits [of ?l ds rest n d "[]"] n assms(3) by auto
  have "scan_token l = scan_number l" using scan_token_digit [OF d] l(2) by (simp add: starts_def)
  also have "\<dots> = scan_number_done value_unsigned (lex_get k)"
    using l(2) k(3) digit_not_space_sign [OF d] by (auto simp: scan_number_def starts_def Let_def)
  finally show ?thesis
    using scan_number_done_reads(1) [OF k(1,2)] assms(2) l(1) by simp
qed

lemma scan_integer:
  assumes "reads lx (CHR ''-'' # to_string_nat n @ rest)" and "n \<le> 2 ^ 63" and "delim rest"
  shows "\<exists>lx'. scan lx = (value_integer, lx') \<and> reads lx' rest \<and> lex_integer lx' = - int n"
proof -
  obtain d ds where n: "to_string_nat n = d # ds" by (cases "to_string_nat n") auto
  have d: "is_digit d" using to_string_nat_digits [of n] n by simp
  obtain l where l: "scan lx = scan_token l" "starts l (CHR ''-'') (d # ds @ rest)"
    using scan_starts [OF assms(1)] n by (auto simp: is_json_ws_def)
  let ?m = "lex_add (lex_reset l) (CHR ''-'')"
  let ?l = "lex_add (lex_get ?m) d"
  have m: "reads ?m (d # ds @ rest)" using l(2) by (simp add: starts_def)
  then have "reads ?l (ds @ rest)" by (simp add: reads_get)
  then obtain k where k: "reads k rest" "token_buffer k = [CHR ''-''] @ to_string_nat n"
      "(if d = CHR ''0'' then scan_number_zero value_integer ?l else scan_number_any1 value_integer ?l) =
        scan_number_done value_integer (lex_get k)"
    using scan_number_digits [of ?l ds rest n d "[CHR ''-'']"] n assms(3) by auto
  have "scan_token l = scan_number_minus ?m"
    using l(2) by (simp add: starts_def scan_token_def scan_number_def is_digit_def)
  also have "\<dots> = scan_number_done value_integer (lex_get k)"
    using reads_current [OF m] k(3) d by (auto simp: scan_number_minus_def Let_def)
  finally show ?thesis
    using scan_number_done_reads(2) [OF k(1,2)] assms(2) l(1) by simp
qed

section \<open>Strings\<close>

definition in_range :: "nat \<times> nat \<Rightarrow> byte \<Rightarrow> bool" where
  "in_range r c \<longleftrightarrow> fst r \<le> byte_val c \<and> byte_val c \<le> snd r"

lemma utf8_run_split:
  "utf8_run rs s = Some [] \<Longrightarrow> \<exists>ms s'. s = ms @ s' \<and> list_all2 in_range rs ms \<and> utf8_run [] s' = Some []"
proof (induction rs arbitrary: s)
  case (Cons r rs)
  obtain lo hi where r: "r = (lo, hi)" by (cases r)
  obtain c cs where s: "s = c # cs" using Cons.prems by (cases s) auto
  have c: "in_range r c" "utf8_run rs cs = Some []"
    using Cons.prems by (auto simp: s r in_range_def split: if_splits option.splits)
  then obtain ms s' where "cs = ms @ s'" "list_all2 in_range rs ms" "utf8_run [] s' = Some []"
    using Cons.IH by blast
  then show ?case using c(1) by (intro exI [of _ "c # ms"] exI [of _ s']) (simp add: s)
qed simp

lemma utf8_ranges_high:
  "utf8_ranges v = Some rs \<Longrightarrow> 0x80 \<le> v \<Longrightarrow> \<forall>r \<in> set rs. 0x80 \<le> fst r"
  by (auto simp: utf8_ranges_def split: if_splits)

lemma escape_text_high: "\<forall>c \<in> set s. 0x5C < byte_val c \<Longrightarrow> escape_text s = s"
  by (induction s) (simp_all add: escape_byte_high)

lemma in_range_high:
  "list_all2 in_range rs ms \<Longrightarrow> \<forall>r \<in> set rs. 0x80 \<le> fst r \<Longrightarrow> \<forall>c \<in> set ms. 0x80 \<le> byte_val c"
  by (induction rs ms rule: list_all2_induct) (auto simp: in_range_def)

lemma next_bytes_reads:
  "list_all2 in_range rs ms \<Longrightarrow> reads lx (ms @ rest) \<Longrightarrow>
   \<exists>lx'. next_bytes_loop rs lx = (True, lx') \<and> reads lx' rest \<and> token_buffer lx' = token_buffer lx @ ms"
proof (induction rs ms arbitrary: lx rule: list_all2_induct)
  case (Cons r rs m ms)
  obtain lo hi where r: "r = (lo, hi)" by (cases r)
  have "reads (lex_add (lex_get lx) m) (ms @ rest)" using Cons.prems by (simp add: reads_get)
  from Cons.IH [OF this] show ?case using Cons.prems Cons.hyps(1) by (simp add: r in_range_def)
qed simp

text \<open>A character of several bytes is taken over whole.\<close>

lemma scan_string_step_multibyte:
  assumes "reads lx (c # ms @ rest)" and "0x80 \<le> byte_val c" and "utf8_ranges (byte_val c) = Some rs"
    and "list_all2 in_range rs ms"
  shows "\<exists>lx'. scan_string_step lx = (None, lx') \<and> reads lx' rest \<and>
    token_buffer lx' = token_buffer lx @ c # ms"
proof -
  have "reads (lex_add (lex_get lx) c) (ms @ rest)" using assms(1) by (simp add: reads_get)
  then obtain lx' where lx': "next_bytes_loop rs (lex_add (lex_get lx) c) = (True, lx')" "reads lx' rest"
      "token_buffer lx' = token_buffer lx @ c # ms"
    using next_bytes_reads [OF assms(4)] by fastforce
  have "c \<noteq> CHR 0x22" "c \<noteq> CHR 0x5C" using assms(2) by auto
  then show ?thesis
    using assms lx' by (simp add: scan_string_step_def next_byte_in_range_def)
qed

lemma reads_step_escape:
  "reads lx (CHR 0x5C # cs) \<Longrightarrow> scan_string_step lx = scan_escape (lex_get lx) \<and> reads (lex_get lx) cs"
  by (simp add: scan_string_step_def reads_get)

lemma byte_val_hex_lower [simp]:
  "n < 16 \<Longrightarrow> byte_val (hex_digit_lower n) = (if n < 10 then 48 + n else 87 + n)"
  by (simp add: hex_digit_lower_def byte_val_of)

text \<open>Hexadecimal digits in either case.\<close>

definition hex_digits :: "(nat \<Rightarrow> byte) \<Rightarrow> bool" where
  "hex_digits hex \<longleftrightarrow> (\<forall>n < 16. byte_val (hex n) = (if n < 10 then 48 + n else 87 + n) \<or>
     byte_val (hex n) = (if n < 10 then 48 + n else 55 + n))"

lemma hex_digits_lower: "hex_digits hex_digit_lower"
  by (simp add: hex_digits_def)

lemma get_codepoint_loop_reads:
  "hex_digits hex \<Longrightarrow> length fs = length ds \<Longrightarrow> \<forall>d \<in> set ds. d < 16 \<Longrightarrow> reads lx (map hex ds @ rest) \<Longrightarrow>
   \<exists>lx'. get_codepoint_loop fs cp lx = (cp + int (\<Sum>(f, d) \<leftarrow> zip fs ds. d * 2 ^ f), lx') \<and> reads lx' rest \<and>
     token_buffer lx' = token_buffer lx"
proof (rotate_tac 1, induction fs ds arbitrary: cp lx rule: list_induct2)
  case (Cons f fs d ds)
  have d: "d < 16" and next_reads: "reads (lex_get lx) (map hex ds @ rest)"
    using Cons.prems by (simp_all add: reads_get)
  obtain lx' where lx': "get_codepoint_loop fs (cp + int (d * 2 ^ f)) (lex_get lx) =
        (cp + int (d * 2 ^ f) + int (\<Sum>(f, d) \<leftarrow> zip fs ds. d * 2 ^ f), lx')" "reads lx' rest"
      "token_buffer lx' = token_buffer lx"
    using Cons.IH [OF _ next_reads, of "cp + int (d * 2 ^ f)"] Cons.prems(1,3) by auto
  have hex: "byte_val (hex d) = (if d < 10 then 48 + d else 87 + d) \<or> byte_val (hex d) = (if d < 10 then 48 + d else 55 + d)"
    using Cons.prems(3) d by (simp add: hex_digits_def)
  have "get_codepoint_loop (f # fs) cp lx = get_codepoint_loop fs (cp + int (d * 2 ^ f)) (lex_get lx)"
    using Cons.prems(2) d hex by (cases "d < 10") (auto simp: Let_def)
  with lx' show ?case by (simp add: add.assoc)
qed simp

lemma hex_digits_value:
  fixes n :: nat
  assumes "n < 0x10000"
  shows "n div 4096 mod 16 * 4096 + (n div 256 mod 16 * 256 + (n div 16 mod 16 * 16 + n mod 16)) = n"
proof -
  have "n div 4096 mod 16 = n div 4096" using assms by simp
  moreover have "n div 256 = n div 4096 * 16 + n div 256 mod 16" "n div 16 = n div 256 * 16 + n div 16 mod 16"
    using div_mult_mod_eq [of "n div 256" 16] div_mult_mod_eq [of "n div 16" 16]
    by (simp_all flip: div_mult2_eq)
  ultimately show ?thesis using div_mult_mod_eq [of n 16] by linarith
qed

definition nibbles :: "nat \<Rightarrow> nat list" where
  "nibbles n = [n div 4096 mod 16, n div 256 mod 16, n div 16 mod 16, n mod 16]"

lemma get_codepoint_reads:
  assumes "hex_digits hex" "n < 0x10000" and "reads lx (map hex (nibbles n) @ rest)"
  shows "\<exists>lx'. get_codepoint lx = (int n, lx') \<and> reads lx' rest \<and> token_buffer lx' = token_buffer lx"
proof -
  have "\<forall>d \<in> set (nibbles n). d < 16" "length [12, 8, 4, 0::nat] = length (nibbles n)" by (simp_all add: nibbles_def)
  moreover have "int (\<Sum>(f, d) \<leftarrow> zip [12, 8, 4, 0::nat] (nibbles n). d * 2 ^ f) = int n"
    using hex_digits_value [OF assms(2)] assms(2) unfolding nibbles_def by (simp only: of_nat_eq_iff)
      (simp only: zip_Cons_Cons zip_Nil list.map sum_list.Cons sum_list.Nil prod.case, simp)
  moreover obtain lx' where "get_codepoint lx =
        (0 + int (\<Sum>(f, d) \<leftarrow> zip [12, 8, 4, 0::nat] (nibbles n). d * 2 ^ f), lx')"
      "reads lx' rest" "token_buffer lx' = token_buffer lx"
    using get_codepoint_loop_reads [OF assms(1) calculation(2,1) assms(3), of 0] unfolding get_codepoint_def by blast
  ultimately show ?thesis by (metis add_0)
qed

text \<open>An escaped control character.\<close>

lemma scan_string_step_hex:
  assumes "hex_digits hex" "reads lx (CHR 0x5C # CHR ''u'' # map hex (nibbles n) @ rest)" and "n < 0x80"
  shows "\<exists>lx'. scan_string_step lx = (None, lx') \<and> reads lx' rest \<and> token_buffer lx' = token_buffer lx @ [byte_of n]"
proof -
  note l1 = reads_step_escape [OF assms(2)]
  let ?l = "lex_get (lex_get lx)"
  have "reads ?l (map hex (nibbles n) @ rest)" using l1 reads_get by blast
  then obtain lx' where lx': "get_codepoint ?l = (int n, lx')" "reads lx' rest"
      "token_buffer lx' = token_buffer lx"
    using get_codepoint_reads [OF assms(1), of n ?l rest] assms(3) by auto
  have "current ?l = Some (CHR ''u'')" using l1 reads_current by blast
  then have "scan_escape (lex_get lx) = scan_unicode_escape ?l" by (simp add: scan_escape_def)
  also have "\<dots> = (None, add_all lx' [byte_of n])"
    using lx'(1) assms(3) by (simp add: scan_unicode_escape_def utf8_encode_def)
  finally show ?thesis using l1 lx' by simp
qed

lemma u_escape_nibbles: "u_escape n = CHR 0x5C # CHR ''u'' # map hex_digit_lower (nibbles n)"
  by (simp add: u_escape_def nibbles_def)

lemma scan_string_step_u_escape:
  assumes "reads lx (u_escape n @ rest)" and "n < 0x80"
  shows "\<exists>lx'. scan_string_step lx = (None, lx') \<and> reads lx' rest \<and> token_buffer lx' = token_buffer lx @ [byte_of n]"
  using scan_string_step_hex [OF hex_digits_lower _ assms(2), of lx rest] assms(1) by (simp add: u_escape_nibbles)

text \<open>Any escaped or plain ASCII byte.\<close>

lemma scan_string_step_ascii:
  assumes "reads lx (escape_byte c @ rest)" and "byte_val c \<le> 0x7F"
  shows "\<exists>lx'. scan_string_step lx = (None, lx') \<and> reads lx' rest \<and> token_buffer lx' = token_buffer lx @ [c]"
proof -
  let ?v = "byte_val c"
  have short: "\<exists>lx'. scan_string_step lx = (None, lx') \<and> reads lx' rest \<and> token_buffer lx' = token_buffer lx @ [c]"
    if "escape_byte c = [CHR 0x5C, e]" "\<And>l. current (lex_get l) = Some e \<Longrightarrow> scan_escape l = (None, lex_add (lex_get l) c)" for e
  proof -
    have lx: "reads lx (CHR 0x5C # e # rest)" using that(1) assms(1) by simp
    note l = reads_step_escape [OF lx]
    then have "current (lex_get (lex_get lx)) = Some e" "reads (lex_get (lex_get lx)) rest"
      by (auto intro: reads_get)
    then show ?thesis using l that(2) by simp
  qed
  have c: "?v = k \<longleftrightarrow> c = byte_of k" if "k < 256" for k
    using that by (metis byte_of_val byte_val_of)
  consider "?v = 8" | "?v = 9" | "?v = 10" | "?v = 12" | "?v = 13" | "?v = 0x22" | "?v = 0x5C" |
    "?v \<le> 0x1F" "?v \<notin> {8, 9, 10, 12, 13}" | "0x20 \<le> ?v" "?v \<noteq> 0x22" "?v \<noteq> 0x5C"
    by fastforce
  then show ?thesis
  proof cases
    case 8
    then have "escape_byte c = u_escape ?v" by (simp add: escape_byte_def)
    then show ?thesis using scan_string_step_u_escape [of lx ?v rest] assms by simp
  next
    case 9
    then have "escape_byte c = [c]" "c \<noteq> CHR 0x22" "c \<noteq> CHR 0x5C" "utf8_ranges ?v = Some []"
      using assms(2) by (auto simp: escape_byte_def utf8_ranges_def)
    then show ?thesis
      using assms(1) 9 by (simp add: scan_string_step_def next_byte_in_range_def reads_get)
  qed (rule short, simp add: escape_byte_def, simp add: scan_escape_def c char_of_def bit_simps)+
qed

text \<open>An escaping of strings the scanner undoes, byte by byte for ASCII; other bytes stand for
  themselves.\<close>

definition readable_escape :: "(byte \<Rightarrow> bytes) \<Rightarrow> bool" where
  "readable_escape esc \<longleftrightarrow> (\<forall>c. 0x80 \<le> byte_val c \<longrightarrow> esc c = [c]) \<and>
     (\<forall>c lx rest. byte_val c \<le> 0x7F \<longrightarrow> reads lx (esc c @ rest) \<longrightarrow>
        (\<exists>lx'. scan_string_step lx = (None, lx') \<and> reads lx' rest \<and> token_buffer lx' = token_buffer lx @ [c]))"

lemma readable_escape_byte: "readable_escape escape_byte"
  using scan_string_step_ascii by (auto simp: readable_escape_def escape_byte_high)

definition quote_with :: "(byte \<Rightarrow> bytes) \<Rightarrow> bytes \<Rightarrow> bytes" where
  "quote_with esc s = concat (map esc s)"

lemma quote_with_simps [simp]:
  "quote_with esc [] = []" "quote_with esc (c # cs) = esc c @ quote_with esc cs"
  "quote_with esc (s @ t) = quote_with esc s @ quote_with esc t"
  by (simp_all add: quote_with_def)

lemma quote_with_escape_byte: "quote_with escape_byte s = escape_text s"
  by (simp add: quote_with_def escape_text_def)

lemma quote_with_high:
  "readable_escape esc \<Longrightarrow> \<forall>c \<in> set s. 0x80 \<le> byte_val c \<Longrightarrow> quote_with esc s = s"
  by (induction s) (simp_all add: readable_escape_def)

lemma scan_string_loop_reads:
  "readable_escape esc \<Longrightarrow> utf8_valid s \<Longrightarrow> reads lx (quote_with esc s @ CHR 0x22 # rest) \<Longrightarrow>
   \<exists>lx'. scan_string_loop lx = (value_string, lx') \<and> reads lx' rest \<and> token_buffer lx' = token_buffer lx @ s"
proof (rotate_tac 1, induction s arbitrary: lx rule: length_induct)
  case (1 s)
  show ?case
  proof (cases s)
    case Nil
    then show ?thesis
      using "1.prems" reads_get [of lx "CHR 0x22" rest]
      by (simp add: scan_string_loop.simps [of lx] scan_string_step_def)
  next
    case (Cons c cs)
    obtain rs where rs: "utf8_advance [] c = Some rs" "utf8_run rs cs = Some []"
      using "1.prems"(1) Cons by (auto simp: utf8_valid_def split: option.splits)
    obtain ms s' where ms: "cs = ms @ s'" "list_all2 in_range rs ms" "utf8_valid s'"
      using utf8_run_split [OF rs(2)] by (auto simp: utf8_valid_def)
    have step: "\<exists>l. scan_string_step lx = (None, l) \<and> reads l (quote_with esc s' @ CHR 0x22 # rest) \<and>
        token_buffer l = token_buffer lx @ c # ms"
    proof (cases "byte_val c \<le> 0x7F")
      case True
      then have "ms = []" using rs(1) ms(2) by auto
      then show ?thesis using "1.prems"(2,3) True Cons ms(1) by (simp add: readable_escape_def)
    next
      case False
      then have high: "\<forall>r \<in> set rs. 0x80 \<le> fst r" "utf8_ranges (byte_val c) = Some rs"
        using rs(1) utf8_ranges_high [of "byte_val c" rs] by auto
      have "quote_with esc ms = ms"
        using in_range_high [OF ms(2) high(1)] "1.prems"(3) by (intro quote_with_high) auto
      then have "reads lx (c # ms @ quote_with esc s' @ CHR 0x22 # rest)"
        using "1.prems"(2,3) Cons ms(1) False by (simp add: readable_escape_def)
      then show ?thesis using scan_string_step_multibyte [OF _ _ high(2) ms(2)] False by simp
    qed
    then obtain l where l: "scan_string_step lx = (None, l)" "reads l (quote_with esc s' @ CHR 0x22 # rest)"
        "token_buffer l = token_buffer lx @ c # ms" by blast
    have "length s' < length s" using Cons ms(1) by simp
    with "1.IH" ms(3) l(2) "1.prems"(3) obtain lx' where "scan_string_loop l = (value_string, lx')" "reads lx' rest"
        "token_buffer lx' = token_buffer l @ s'" by blast
    then show ?thesis using l Cons ms(1) by (simp add: scan_string_loop.simps [of lx])
  qed
qed

lemma scan_string_token:
  assumes "readable_escape esc" "utf8_valid s" and "reads lx (CHR 0x22 # quote_with esc s @ CHR 0x22 # rest)"
  shows "\<exists>lx'. scan lx = (value_string, lx') \<and> reads lx' rest \<and> token_buffer lx' = s"
proof -
  obtain l where l: "scan lx = scan_token l" "starts l (CHR 0x22) (quote_with esc s @ CHR 0x22 # rest)"
    using scan_starts [OF assms(3)] by (auto simp: is_json_ws_def)
  then have "scan_token l = scan_string_loop (lex_reset l)"
    by (simp add: starts_def scan_token_def scan_string_def)
  then show ?thesis
    using scan_string_loop_reads [OF assms(1,2), of "lex_reset l" rest] l by (simp add: starts_def)
qed

end
