(* ===== verification/Json_Dtoa_Arith.thy ===== *)
theory Json_Dtoa_Arith
  imports Json_Dtoa
begin

text \<open>
  Arithmetic of the 64-bit words of \<^verbatim>\<open>Json_Dtoa\<close>: masks and differences as numbers, and that
  \<open>diyfp_mul\<close>, which multiplies by halves, is the product divided by \<open>2 ^ 64\<close> and rounded, without a carry lost.
\<close>

unbundle bit_operations_syntax

section \<open>Words as numbers\<close>

lemma unat_mask: "unat (w AND (push_bit n 1 - 1)) = unat w mod 2 ^ n" for w :: "64 word"
proof -
  have "w AND (push_bit n 1 - 1) = take_bit n w"
    by (simp add: take_bit_eq_mask mask_eq_exp_minus_1 push_bit_eq_mult)
  then have "unat (w AND (push_bit n 1 - 1)) = take_bit n (unat w)" by (simp only: unsigned_take_bit_eq)
  then show ?thesis by (simp only: take_bit_eq_mod)
qed

lemma unat_push: "unat w * 2 ^ n < 2 ^ 64 \<Longrightarrow> unat (push_bit n w) = unat w * 2 ^ n" for w :: "64 word"
  by (simp only: unsigned_push_bit_eq) (simp add: push_bit_eq_mult take_bit_nat_eq_self)

lemma unat_add: "unat x + unat y < 2 ^ 64 \<Longrightarrow> unat (x + y) = unat x + unat y" for x y :: "64 word"
  by (simp add: unat_word_ariths)

lemma unat_mult: "unat x * unat y < 2 ^ 64 \<Longrightarrow> unat (x * y) = unat x * unat y" for x y :: "64 word"
  by (simp add: unat_word_ariths)

lemma unat_diff: "y \<le> x \<Longrightarrow> unat (x - y) = unat x - unat y" for x y :: "64 word"
  by (simp add: unat_sub)

section \<open>The product\<close>

text \<open>The four partial products of two 64-bit numbers, cut into halves, give the upper half of the
  product, rounded.\<close>

lemma rounded_halves:
  fixes a b c d :: nat
  shows "((a + 2 ^ 32 * b) * (c + 2 ^ 32 * d) + 2 ^ 63) div 2 ^ 64 =
    b * d + b * c div 2 ^ 32 + a * d div 2 ^ 32 +
      (a * c div 2 ^ 32 + a * d mod 2 ^ 32 + b * c mod 2 ^ 32 + 2 ^ 31) div 2 ^ 32"
proof -
  define Q where "Q = a * c div 2 ^ 32 + a * d mod 2 ^ 32 + b * c mod 2 ^ 32 + 2 ^ 31"
  define H where "H = b * d + b * c div 2 ^ 32 + a * d div 2 ^ 32"
  have "(a + 2 ^ 32 * b) * (c + 2 ^ 32 * d) + 2 ^ 63 =
      a * c + 2 ^ 32 * (a * d) + 2 ^ 32 * (b * c) + 2 ^ 64 * (b * d) + 2 ^ 63"
    by (simp add: algebra_simps)
  also have "\<dots> = a * c mod 2 ^ 32 + 2 ^ 32 * Q + 2 ^ 64 * H"
  proof -
    have "ac + X * ad + X * bc + X * X * bd + X * Y =
        ac mod X + X * (ac div X + ad mod X + bc mod X + Y) + X * X * (bd + bc div X + ad div X)"
      for ac ad bc bd X Y :: nat
    proof -
      obtain a1 a0 d1 d0 c1 c0 where q: "a1 = ac div X" "a0 = ac mod X" "d1 = ad div X" "d0 = ad mod X" "c1 = bc div X" "c0 = bc mod X"
        by blast
      then have "ac = a1 * X + a0" "ad = d1 * X + d0" "bc = c1 * X + c0" by simp_all
      then show ?thesis unfolding q [symmetric] by (simp add: algebra_simps)
    qed
    from this [of "a * c" "2 ^ 32" "a * d" "b * c" "b * d" "2 ^ 31"] show ?thesis by (simp add: Q_def H_def)
  qed
  also have "(a * c mod 2 ^ 32 + 2 ^ 32 * Q + 2 ^ 64 * H) div 2 ^ 64 =
      (a * c mod 2 ^ 32 + 2 ^ 32 * Q) div 2 ^ 64 + H"
    by simp
  also have "(a * c mod 2 ^ 32 + 2 ^ 32 * Q) div 2 ^ 64 = (a * c mod 2 ^ 32 + 2 ^ 32 * Q) div 2 ^ 32 div 2 ^ 32"
    by (simp only: div_mult2_eq [symmetric]) simp
  also have "(a * c mod 2 ^ 32 + 2 ^ 32 * Q) div 2 ^ 32 = Q" by simp
  finally show ?thesis by (simp add: Q_def H_def)
qed

lemma product_of_halves: "a < 2 ^ 32 \<Longrightarrow> b < 2 ^ 32 \<Longrightarrow> a * b \<le> (2 ^ 32 - 1) * (2 ^ 32 - 1)" for a b :: nat
  by (intro mult_le_mono) simp_all

lemma mul_value:
  "unat (fp_f (diyfp_mul x y)) = (unat (fp_f x) * unat (fp_f y) + 2 ^ 63) div 2 ^ 64"
  "fp_e (diyfp_mul x y) = fp_e x + fp_e y + 64"
proof -
  let ?U = "unat (fp_f x)" and ?V = "unat (fp_f y)"
  define a b c d where "a = ?U mod 2 ^ 32" and "b = ?U div 2 ^ 32" and "c = ?V mod 2 ^ 32" and "d = ?V div 2 ^ 32"
  note abcd = a_def b_def c_def d_def
  have low: "unat (w AND 0xFFFFFFFF) = unat w mod 2 ^ 32" for w :: "64 word"
    using unat_mask [of w 32] by (simp add: push_bit_eq_mult)
  have less: "a < 2 ^ 32" "b < 2 ^ 32" "c < 2 ^ 32" "d < 2 ^ 32"
    using unat_word64 [of "fp_f x"] unat_word64 [of "fp_f y"] by (simp_all add: abcd less_mult_imp_div_less)
  note p = product_of_halves [OF less(1) less(3)] product_of_halves [OF less(1) less(4)]
    product_of_halves [OF less(2) less(3)] product_of_halves [OF less(2) less(4)]
  let ?ul = "fp_f x AND 0xFFFFFFFF" and ?uh = "drop_bit 32 (fp_f x)"
  let ?vl = "fp_f y AND 0xFFFFFFFF" and ?vh = "drop_bit 32 (fp_f y)"
  have parts: "unat ?ul = a" "unat ?uh = b" "unat ?vl = c" "unat ?vh = d"
    by (simp_all add: low unat_drop abcd)
  have prods: "unat (?ul * ?vl) = a * c" "unat (?ul * ?vh) = a * d" "unat (?uh * ?vl) = b * c" "unat (?uh * ?vh) = b * d"
    using p by (simp_all add: unat_mult parts)
  let ?Q = "drop_bit 32 (?ul * ?vl) + ((?ul * ?vh) AND 0xFFFFFFFF) + ((?uh * ?vl) AND 0xFFFFFFFF)"
  have small: "a * c div 2 ^ 32 < 2 ^ 32" using p(1) by (simp add: less_mult_imp_div_less)
  have mods: "a * d mod 2 ^ 32 < 2 ^ 32" "b * c mod 2 ^ 32 < 2 ^ 32" by simp_all
  have "unat ?Q = a * c div 2 ^ 32 + a * d mod 2 ^ 32 + b * c mod 2 ^ 32"
    using small mods by (simp add: unat_add low unat_drop prods)
  then have "unat (?Q + push_bit (64 - 32 - 1) 1) = a * c div 2 ^ 32 + a * d mod 2 ^ 32 + b * c mod 2 ^ 32 + 2 ^ 31"
    using small mods by (simp add: unat_add push_bit_eq_mult)
  then have Q: "unat (drop_bit 32 (?Q + push_bit (64 - 32 - 1) 1)) =
      (a * c div 2 ^ 32 + a * d mod 2 ^ 32 + b * c mod 2 ^ 32 + 2 ^ 31) div 2 ^ 32"
    by (simp add: unat_drop)
  have eq: "(?U * ?V + 2 ^ 63) div 2 ^ 64 = b * d + b * c div 2 ^ 32 + a * d div 2 ^ 32 +
      (a * c div 2 ^ 32 + a * d mod 2 ^ 32 + b * c mod 2 ^ 32 + 2 ^ 31) div 2 ^ 32"
    using rounded_halves [of a b c d] by (simp add: abcd)
  have "?U * ?V \<le> (2 ^ 64 - 1) * (2 ^ 64 - 1)"
    using unat_word64 [of "fp_f x"] unat_word64 [of "fp_f y"] by (intro mult_le_mono) simp_all
  then have "(?U * ?V + 2 ^ 63) div 2 ^ 64 < 2 ^ 64" by (simp add: less_mult_imp_div_less)
  then have sum: "b * d + b * c div 2 ^ 32 + a * d div 2 ^ 32 +
      (a * c div 2 ^ 32 + a * d mod 2 ^ 32 + b * c mod 2 ^ 32 + 2 ^ 31) div 2 ^ 32 < 2 ^ 64"
    by (simp only: eq)
  have "unat (p3 + p2 + p1 + q) = b * d + b * c div 2 ^ 32 + a * d div 2 ^ 32 +
      (a * c div 2 ^ 32 + a * d mod 2 ^ 32 + b * c mod 2 ^ 32 + 2 ^ 31) div 2 ^ 32"
    if "unat p3 = b * d" "unat p2 = b * c div 2 ^ 32" "unat p1 = a * d div 2 ^ 32"
      "unat q = (a * c div 2 ^ 32 + a * d mod 2 ^ 32 + b * c mod 2 ^ 32 + 2 ^ 31) div 2 ^ 32" for p3 p2 p1 q :: "64 word"
    using sum that by (simp add: unat_add)
  from this [OF prods(4) _ _ Q] show "unat (fp_f (diyfp_mul x y)) = (?U * ?V + 2 ^ 63) div 2 ^ 64"
    unfolding eq diyfp_mul_def Let_def diyfp.select_convs by (simp only: unat_drop prods)
qed (simp add: diyfp_mul_def Let_def)

end
