(* ===== verification/Json_Dtoa_Powers.thy ===== *)
theory Json_Dtoa_Powers
  imports Json_Dtoa_Arith
begin

text \<open>
  The table of powers of ten of \<^verbatim>\<open>Json_Dtoa\<close>: every entry is normalized and the nearest there is to its power of
  ten, and the entry chosen for a binary exponent passes all assertions and brings the product into the range the digit
  generation asks for.
\<close>

section \<open>The cached powers\<close>

text \<open>Each entry is normalized and no more than half a unit away from its power of ten. An enclosure of
  the exact significand, with 24 bits more, is carried from an entry to the next: \<open>L\<close> and
  \<open>L + w\<close> bound it.\<close>

fun close_powers :: "int \<Rightarrow> int \<Rightarrow> (64 word \<times> int \<times> int) list \<Rightarrow> bool" where
  "close_powers L w [] = True"
| "close_powers L w [(f, e, k)] = (2 ^ 63 \<le> uint f \<and> L + w \<le> uint f * 2 ^ 24 + 2 ^ 23 \<and> uint f * 2 ^ 24 \<le> L + 2 ^ 23)"
| "close_powers L w ((f, e, k) # (f', e', k') # ts) =
     (2 ^ 63 \<le> uint f \<and> L + w \<le> uint f * 2 ^ 24 + 2 ^ 23 \<and> uint f * 2 ^ 24 \<le> L + 2 ^ 23 \<and> k' = k + 8 \<and> e \<le> e' \<and>
      close_powers (L * 10 ^ 8 div 2 ^ nat (e' - e)) (w * 10 ^ 8 div 2 ^ nat (e' - e) + 2) ((f', e', k') # ts))"

lemma table_close: "close_powers 0xAB70FE17C79AC6CA6DBD63 1 cached_powers_table"
  unfolding cached_powers_table_def by simp

definition exact_power :: "int \<Rightarrow> int \<Rightarrow> rat" where
  "exact_power e k = 10 powi k * 2 powi (- e)"

definition near_power :: "64 word \<Rightarrow> int \<Rightarrow> int \<Rightarrow> bool" where
  "near_power f e k \<longleftrightarrow> 2 ^ 63 \<le> unat f \<and> \<bar>of_nat (unat f) - exact_power e k\<bar> \<le> 1 / 2"

lemma within_half:
  fixes l v x y :: rat
  assumes "l + v \<le> x * 2 ^ 24 + 2 ^ 23" "x * 2 ^ 24 \<le> l + 2 ^ 23" "l \<le> y * 2 ^ 24" "y * 2 ^ 24 \<le> l + v"
  shows "\<bar>x - y\<bar> \<le> 1 / 2"
proof -
  have "x - y \<le> 1 / 2" "y - x \<le> 1 / 2" using assms by simp_all
  then show ?thesis by (simp only: abs_le_iff minus_diff_eq)
qed

lemma near_powerI:
  assumes "2 ^ 63 \<le> uint f" "L + w \<le> uint f * 2 ^ 24 + 2 ^ 23" "uint f * 2 ^ 24 \<le> L + 2 ^ 23"
    and "of_int L \<le> exact_power e k * 2 ^ 24" "exact_power e k * 2 ^ 24 \<le> of_int (L + w)"
  shows "near_power f e k"
proof -
  have "of_int (L + w) \<le> (of_int (uint f * 2 ^ 24 + 2 ^ 23) :: rat)"
      "of_int (uint f * 2 ^ 24) \<le> (of_int (L + 2 ^ 23) :: rat)"
    using assms(2,3) by (simp_all only: of_int_le_iff)
  then have "\<bar>of_int (uint f) - exact_power e k\<bar> \<le> 1 / 2"
    using assms(4,5) by (intro within_half [of "of_int L" "of_int w"]) (simp_all only: of_int_add of_int_mult of_int_power of_int_numeral)
  moreover have "int (2 ^ 63) \<le> int (unat f)" using assms(1) by (simp only: uint_nat of_nat_power of_nat_numeral)
  then have "2 ^ 63 \<le> unat f" by (simp only: of_nat_le_iff)
  moreover have "(of_int (uint f) :: rat) = of_nat (unat f)" by (metis of_int_of_nat_eq uint_nat)
  ultimately show ?thesis by (simp only: near_power_def simp_thms)
qed

lemma exact_power_next: "exact_power (e + int d) (k + 8) * 2 ^ d = exact_power e k * 10 ^ 8"
proof -
  have "exact_power (e + int d) (k + 8) = exact_power e k * 10 powi 8 * 2 powi (- int d)"
    by (simp add: exact_power_def power_int_add power_int_diff power_int_minus divide_inverse)
  moreover have "(2 :: rat) powi (- int d) * 2 ^ d = 1" by (simp add: power_int_minus)
  ultimately show ?thesis by simp
qed

lemma enclosure_next:
  fixes L w :: int and d :: nat and x y :: rat
  assumes "of_int L \<le> x" "x \<le> of_int (L + w)" "y * 2 ^ d = x * 10 ^ 8"
  shows "of_int (L * 10 ^ 8 div 2 ^ d) \<le> y" "y \<le> of_int (L * 10 ^ 8 div 2 ^ d + (w * 10 ^ 8 div 2 ^ d + 2))"
proof -
  let ?l = "L * 10 ^ 8 div 2 ^ d" and ?v = "w * 10 ^ 8 div 2 ^ d"
  have div: "z div 2 ^ d * 2 ^ d \<le> z" "z \<le> (z div 2 ^ d + 1) * 2 ^ d" for z :: int
  proof -
    have m: "z mod 2 ^ d < 2 ^ d" "0 \<le> z mod 2 ^ d" by simp_all
    show "z div 2 ^ d * 2 ^ d \<le> z" "z \<le> (z div 2 ^ d + 1) * 2 ^ d"
      using m div_mult_mod_eq [of z "2 ^ d"] unfolding distrib_right by linarith+
  qed
  have "(of_int (?l * 2 ^ d) :: rat) \<le> of_int (L * 10 ^ 8)"
    using div(1) [of "L * 10 ^ 8"] by (simp only: of_int_le_iff)
  also have "\<dots> \<le> y * 2 ^ d" using assms(1) by (simp add: assms(3))
  finally show "of_int ?l \<le> y" by simp
  have "y * 2 ^ d \<le> of_int ((L + w) * 10 ^ 8)" using assms(2) by (simp add: assms(3))
  also have "(L + w) * 10 ^ 8 \<le> (?l + (?v + 2)) * 2 ^ d"
    using div(2) [of "L * 10 ^ 8"] div(2) [of "w * 10 ^ 8"] unfolding distrib_right mult_2 by linarith
  then have "of_int ((L + w) * 10 ^ 8) \<le> (of_int ((?l + (?v + 2)) * 2 ^ d) :: rat)" by (simp only: of_int_le_iff)
  finally have "y * 2 ^ d \<le> of_int (?l + (?v + 2)) * 2 ^ d" by simp
  then show "y \<le> of_int (?l + (?v + 2))" by simp
qed

lemma close_powers_near:
  "close_powers L w ts \<Longrightarrow>
   (\<And>f e k ts'. ts = (f, e, k) # ts' \<Longrightarrow>
      of_int L \<le> exact_power e k * 2 ^ 24 \<and> exact_power e k * 2 ^ 24 \<le> of_int (L + w)) \<Longrightarrow>
   (f, e, k) \<in> set ts \<Longrightarrow> near_power f e k"
proof (induction L w ts arbitrary: f e k rule: close_powers.induct)
  case (2 L w f' e' k')
  then show ?case using near_powerI [of f' L w e' k'] by auto
next
  case (3 L w f1 e1 k1 f2 e2 k2 ts)
  have b: "of_int L \<le> exact_power e1 k1 * 2 ^ 24" "exact_power e1 k1 * 2 ^ 24 \<le> of_int (L + w)"
    using "3.prems"(2) by auto
  show ?case
  proof (cases "(f, e, k) = (f1, e1, k1)")
    case True
    then show ?thesis using "3.prems"(1) b near_powerI [of f1 L w e1 k1] by simp
  next
    case False
    define d where "d = nat (e2 - e1)"
    have adj: "e2 = e1 + int d" "k2 = k1 + 8" using "3.prems"(1) by (simp_all add: d_def)
    have "exact_power e2 k2 * 2 ^ 24 * 2 ^ d = exact_power e1 k1 * 2 ^ 24 * 10 ^ 8"
      using exact_power_next [of e1 d k1] adj by (simp add: mult_ac)
    note e = enclosure_next [OF b this]
    show ?thesis
    proof (rule "3.IH")
      show "(f, e, k) \<in> set ((f2, e2, k2) # ts)" using "3.prems"(3) False by auto
      show "close_powers (L * 10 ^ 8 div 2 ^ nat (e2 - e1)) (w * 10 ^ 8 div 2 ^ nat (e2 - e1) + 2) ((f2, e2, k2) # ts)"
        using "3.prems"(1) unfolding close_powers.simps by blast
    qed (use e in \<open>auto simp: d_def\<close>)
  qed
qed simp

lemma first_enclosure:
  "of_int 0xAB70FE17C79AC6CA6DBD63 \<le> exact_power (- 1060) (- 300) * 2 ^ 24"
  "exact_power (- 1060) (- 300) * 2 ^ 24 \<le> of_int (0xAB70FE17C79AC6CA6DBD63 + 1)"
proof -
  have "(10 :: rat) powi (- 300) * 2 powi 1060 * 2 ^ 24 = 2 ^ 784 / 5 ^ 300"
  proof -
    have "(10 :: rat) ^ 300 = 2 ^ 300 * 5 ^ 300" by (simp only: power_mult_distrib [symmetric]) simp
    moreover have "(2 :: rat) ^ 1060 * 2 ^ 24 = 2 ^ 784 * 2 ^ 300" by (simp only: power_add [symmetric]) simp
    moreover have "a * inverse c = b / s" if "c = r * s" "a = b * r" "r \<noteq> 0" for a b c r s :: rat
      using that by (simp add: field_simps)
    ultimately have "(2 :: rat) ^ 1060 * 2 ^ 24 * inverse (10 ^ 300) = 2 ^ 784 / 5 ^ 300"
      by (metis power_not_zero zero_neq_numeral)
    then show ?thesis by (simp only: power_int_minus power_int_numeral mult_ac)
  qed
  then have eq: "exact_power (- 1060) (- 300) * 2 ^ 24 = 2 ^ 784 / 5 ^ 300"
    by (simp only: exact_power_def minus_minus)
  have "0xAB70FE17C79AC6CA6DBD63 * 5 ^ 300 \<le> (2 :: int) ^ 784" "(2 :: int) ^ 784 \<le> (0xAB70FE17C79AC6CA6DBD63 + 1) * 5 ^ 300"
    by simp_all
  then have "of_int (0xAB70FE17C79AC6CA6DBD63 * 5 ^ 300) \<le> (of_int (2 ^ 784) :: rat)"
      "of_int (2 ^ 784) \<le> (of_int ((0xAB70FE17C79AC6CA6DBD63 + 1) * 5 ^ 300) :: rat)"
    by (simp_all only: of_int_le_iff)
  then show "of_int 0xAB70FE17C79AC6CA6DBD63 \<le> exact_power (- 1060) (- 300) * 2 ^ 24"
    "exact_power (- 1060) (- 300) * 2 ^ 24 \<le> of_int (0xAB70FE17C79AC6CA6DBD63 + 1)"
    unfolding eq of_int_mult of_int_power of_int_numeral
    by (simp_all only: pos_le_divide_eq pos_divide_le_eq zero_less_power zero_less_numeral)
qed

lemma cached_powers_near: "(f, e, k) \<in> set cached_powers_table \<Longrightarrow> near_power f e k"
  by (rule close_powers_near [OF table_close]) (use first_enclosure in \<open>auto simp: cached_powers_table_def\<close>)

text \<open>The entry that is chosen lifts the exponent into the range, because the exponents of adjacent
  entries are near enough to each other.\<close>

definition chosen_range :: "64 word \<times> int \<times> int \<Rightarrow> bool" where
  "chosen_range = (\<lambda>(f, e, k). (e + 34) * 78913 < (k - 8) * 2 ^ 18 \<and> k * 2 ^ 18 < (e + 64) * 78913)"

lemma table_chosen: "list_all chosen_range cached_powers_table"
  unfolding cached_powers_table_def by (simp add: chosen_range_def)

lemma table_decimal: "map (\<lambda>(f, e, k). k) cached_powers_table = map (\<lambda>i. 8 * int i - 300) [0..<79]"
  unfolding cached_powers_table_def by (simp add: upt_rec)

lemma table_length: "length cached_powers_table = 79"
  using arg_cong [OF table_decimal, of length] by simp

lemma table_entry:
  assumes "i < 79" "cached_powers_table ! i = (f, e, k)"
  shows "k = 8 * int i - 300" "chosen_range (f, e, k)" "near_power f e k"
proof -
  have "map (\<lambda>(f, e, k). k) cached_powers_table ! i = k" using assms by (simp add: table_length)
  then show "k = 8 * int i - 300" using assms(1) by (simp add: table_decimal)
  have mem: "(f, e, k) \<in> set cached_powers_table" using assms nth_mem [of i cached_powers_table] by (simp add: table_length)
  then show "chosen_range (f, e, k)" using table_chosen by (auto simp: list_all_iff)
  show "near_power f e k" using mem by (rule cached_powers_near)
qed

lemma cached_power_k_bounds:
  "(cached_power_k e - 1) * 2 ^ 18 \<le> (- 61 - e) * 78913" "(- 61 - e) * 78913 \<le> cached_power_k e * 2 ^ 18"
proof -
  have "(cached_power_k e - 1) * 2 ^ 18 \<le> (- 61 - e) * 78913 \<and> (- 61 - e) * 78913 \<le> cached_power_k e * 2 ^ 18"
  proof (cases "0 < - 61 - e")
    case True
    then have "cached_power_k e = (- 61 - e) * 78913 div 2 ^ 18 + 1"
      by (simp add: cached_power_k_def kAlpha_def Let_def signed_divide_int_def)
    then show ?thesis by (intro conjI) (simp_all, (linarith+)?)
  next
    case False
    then have "cached_power_k e = - ((- ((- 61 - e) * 78913)) div 2 ^ 18)"
      by (simp add: cached_power_k_def kAlpha_def Let_def signed_divide_int_def sgn_if abs_if)
    then show ?thesis by (intro conjI) (simp_all, (linarith+)?)
  qed
  then show "(cached_power_k e - 1) * 2 ^ 18 \<le> (- 61 - e) * 78913" "(- 61 - e) * 78913 \<le> cached_power_k e * 2 ^ 18"
    by blast+
qed

lemma cached_power_chosen:
  assumes "- 1137 \<le> e" "e \<le> 960"
  obtains c where "get_cached_power_for_binary_exponent e = Inr c" "near_power (cp_f c) (cp_e c) (cp_k c)"
    "- 60 \<le> cp_e c + e + 64" "cp_e c + e + 64 \<le> - 32" "\<bar>cp_k c\<bar> \<le> 324"
proof -
  define k where "k = cached_power_k e"
  have k: "(k - 1) * 2 ^ 18 \<le> (- 61 - e) * 78913" "(- 61 - e) * 78913 \<le> k * 2 ^ 18"
    using cached_power_k_bounds [of e] by (simp_all only: k_def)
  then have range: "- 307 \<le> k" "k \<le> 324" using assms by simp_all
  define i where "i = nat ((307 + k) div 8)"
  have index: "cached_power_index e = int i"
    using range by (simp add: cached_power_index_def kCachedPowersMinDecExp_def kCachedPowersDecStep_def
        k_def [symmetric] signed_divide_int_def sgn_if i_def add.commute)
  have i: "i < 79" "8 * int i \<le> 307 + k" "307 + k \<le> 8 * int i + 7"
    using range by (simp_all add: i_def) linarith+
  obtain f ec kc where t: "cached_powers_table ! i = (f, ec, kc)" by (cases "cached_powers_table ! i") auto
  note entry = table_entry [OF i(1) t]
  have "(ec + 34) * 78913 < (- 61 - e) * 78913" "(- 61 - e) * 78913 < (ec + 64) * 78913"
    using entry(1,2) i(2,3) k unfolding chosen_range_def prod.case by (simp_all, (linarith+)?)
  then have "ec + 34 < - 61 - e" "- 61 - e < ec + 64" by (simp_all only: mult_less_cancel_right_pos zero_less_numeral)
  then have fits: "- 60 \<le> ec + e + 64" "ec + e + 64 \<le> - 32" by linarith+
  have "get_cached_power_for_binary_exponent e = Inr \<lparr>cp_f = f, cp_e = ec, cp_k = kc\<rparr>"
    using assms i(1) t fits
    by (simp add: get_cached_power_for_binary_exponent_def Let_def index kCachedPowers_def table_length kAlpha_def kGamma_def)
  then show thesis using that entry(1,3) fits i(1) by simp
qed

end
