(* ===== verification/Json_Dtoa_Bounds.thy ===== *)
theory Json_Dtoa_Bounds
  imports Json_Dtoa_Arith
begin

text \<open>
  The numbers of \<^verbatim>\<open>Json_Dtoa\<close> as rationals: what a \<open>double\<close> is worth, what it is for a
  rational to be nearer to it than to any other, and that \<open>compute_boundaries\<close> finds the
  midpoints to its neighbours.
\<close>

section \<open>What a \<open>double\<close> is worth\<close>

definition fp_value :: "diyfp \<Rightarrow> rat" where
  "fp_value x = of_nat (unat (fp_f x)) * 2 powi fp_e x"

definition value_of :: "double \<Rightarrow> rat" where
  "value_of b = (if signbit b then - fp_value (double_diyfp (negated b)) else fp_value (double_diyfp b))"

text \<open>The magnitude in the order of the bits: adding one to the bits is a step to the next number.\<close>

definition step_size :: "nat \<Rightarrow> rat" where
  "step_size n = 2 powi (int (max 1 (n div 2 ^ 52)) - 1075)"

definition magnitude :: "nat \<Rightarrow> rat" where
  "magnitude n = of_nat (if n div 2 ^ 52 = 0 then n mod 2 ^ 52 else n mod 2 ^ 52 + 2 ^ 52) * step_size n"

lemma step_size_pos [simp]: "0 < step_size n"
  by (simp add: step_size_def zero_less_power_int)

lemma magnitude_0 [simp]: "magnitude 0 = 0"
  by (simp add: magnitude_def)

lemma Suc_div_cases:
  fixes d :: nat assumes "0 < d"
  shows "(Suc (n mod d) < d \<and> Suc n div d = n div d \<and> Suc n mod d = Suc (n mod d)) \<or>
    (Suc (n mod d) = d \<and> Suc n div d = Suc (n div d) \<and> Suc n mod d = 0)"
  using mod_less_divisor [OF assms, of n] by (auto simp: mod_Suc div_Suc)

lemma powi_step: "E \<noteq> 0 \<Longrightarrow> 2 powi (int (max 1 (Suc E)) - 1075) = 2 * (2 :: rat) powi (int (max 1 E) - 1075)"
proof -
  assume "E \<noteq> 0"
  then have "int (max 1 (Suc E)) - 1075 = 1 + (int (max 1 E) - 1075)" by simp
  then have "(2 :: rat) powi (int (max 1 (Suc E)) - 1075) = 2 powi (1 + (int (max 1 E) - 1075))" by (rule arg_cong)
  also have "\<dots> = 2 powi 1 * 2 powi (int (max 1 E) - 1075)" by (rule power_int_add) simp
  finally show ?thesis by (simp only: power_int_1_right)
qed

lemma magnitude_carry:
  fixes E F H :: nat and x y :: rat
  assumes "Suc F = H" "E = 0 \<Longrightarrow> y = x" "E \<noteq> 0 \<Longrightarrow> y = 2 * x"
  shows "of_nat H * y = of_nat (if E = 0 then F else F + H) * x + x"
proof -
  have "of_nat H = of_nat F + (1 :: rat)" by (simp flip: assms(1))
  then show ?thesis using assms(2,3) by (cases "E = 0") (simp_all add: algebra_simps)
qed

lemma magnitude_Suc: "magnitude (Suc n) = magnitude n + step_size n"
proof -
  let ?E = "n div 2 ^ 52" and ?F = "n mod 2 ^ 52"
  consider (same) "Suc n div 2 ^ 52 = ?E" "Suc n mod 2 ^ 52 = Suc ?F"
    | (carry) "Suc n div 2 ^ 52 = Suc ?E" "Suc n mod 2 ^ 52 = 0" "Suc ?F = 2 ^ 52"
    using Suc_div_cases [of "2 ^ 52" n] by fastforce
  then show ?thesis
  proof cases
    case same
    then show ?thesis by (simp add: magnitude_def step_size_def algebra_simps)
  next
    case carry
    have step: "step_size (Suc n) = 2 powi (int (max 1 (Suc ?E)) - 1075)" by (simp only: step_size_def carry(1))
    have same: "?E = 0 \<Longrightarrow> step_size (Suc n) = step_size n" unfolding step step_size_def [of n] by simp
    have double: "?E \<noteq> 0 \<Longrightarrow> step_size (Suc n) = 2 * step_size n" unfolding step step_size_def [of n] by (rule powi_step)
    have "magnitude (Suc n) = of_nat (2 ^ 52) * step_size (Suc n)"
      by (simp only: magnitude_def carry(1,2) nat.distinct if_False add_0)
    also have "\<dots> = magnitude n + step_size n"
      unfolding magnitude_def [of n] by (rule magnitude_carry [OF carry(3) same double])
    finally show ?thesis .
  qed
qed

lemma magnitude_strict_mono: "m < n \<Longrightarrow> magnitude m < magnitude n"
  by (rule lift_Suc_mono_less) (simp_all add: magnitude_Suc)

lemma magnitude_mono: "m \<le> n \<Longrightarrow> magnitude m \<le> magnitude n"
  using magnitude_strict_mono [of m n] by (cases "m = n") (simp_all add: order_le_less)

text \<open>A rational between the midpoints to the neighbours is nearer to the number than to any other.\<close>

definition between_midpoints :: "nat \<Rightarrow> rat \<Rightarrow> bool" where
  "between_midpoints n q \<longleftrightarrow>
     magnitude (n - 1) + magnitude n < 2 * q \<and> 2 * q < magnitude n + magnitude (n + 1)"

lemma between_midpoints_nearest:
  assumes "between_midpoints n q" "0 < n" "x = magnitude m \<or> x = - magnitude m" "x \<noteq> magnitude n"
  shows "\<bar>q - magnitude n\<bar> < \<bar>q - x\<bar>"
proof -
  have b: "magnitude (n - 1) + magnitude n < 2 * q" "2 * q < magnitude n + magnitude (n + 1)"
    using assms(1) by (simp_all add: between_midpoints_def)
  have near: "0 \<le> magnitude (n - 1)" "magnitude (n - 1) < magnitude n" "magnitude n < magnitude (n + 1)"
    using magnitude_mono [of 0 "n - 1"] magnitude_strict_mono [of "n - 1" n] magnitude_strict_mono [of n "n + 1"] assms(2)
    by simp_all
  consider "x = magnitude m" "n < m" | "x = magnitude m" "m < n" | "x = - magnitude m"
    using assms(3,4) by (cases m n rule: linorder_cases) auto
  then have "x \<le> magnitude (n - 1) \<or> magnitude (n + 1) \<le> x"
    using magnitude_mono [of "n + 1" m] magnitude_mono [of m "n - 1"] magnitude_mono [of 0 m] near(1) by cases simp_all
  then show ?thesis using b near by linarith
qed

section \<open>The parts of a \<open>double\<close>\<close>

lemma push_one: "unat (push_bit n (1 :: 64 word)) = 2 ^ n" if "n < 64"
  using unat_push [of 1 n] power_strict_increasing [OF that, of "2 :: nat"] by simp

lemma signbit_iff: "signbit b \<longleftrightarrow> 2 ^ 63 \<le> unat b"
proof -
  have "signbit b \<longleftrightarrow> odd (unat b div 2 ^ 63)"
    unfolding signbit_def by (simp only: bit_iff_odd [of "unat b", symmetric] bit_unsigned_iff) simp
  moreover have "unat b div 2 ^ 63 < 2" using unat_word64 [of b] by (simp add: less_mult_imp_div_less)
  ultimately show ?thesis by (cases "unat b div 2 ^ 63 = 0") (simp_all add: div_eq_0_iff less_2_cases_iff)
qed

text \<open>Changing the sign.\<close>

lemma negated_sign: "signbit (negated b) \<longleftrightarrow> \<not> signbit b"
  unfolding signbit_def negated_def by (simp add: bit_xor_iff bit_push_bit_iff)

lemma negated_finite: "isfinite (negated b) \<longleftrightarrow> isfinite b"
proof -
  have "drop_bit 52 (b XOR push_bit 63 1) AND 0x7FF = (drop_bit 52 b XOR 0x800) AND 0x7FF"
    by (simp only: drop_bit_xor drop_bit_push_bit) simp
  also have "\<dots> = (drop_bit 52 b AND 0x7FF) XOR (0x800 AND 0x7FF)" by (rule bit.conj_xor_distrib2)
  also have "\<dots> = drop_bit 52 b AND 0x7FF" by simp
  finally show ?thesis by (simp only: isfinite_def negated_def)
qed

lemma double_parts:
  assumes "\<not> signbit b"
  shows "unat (drop_bit 52 b) = unat b div 2 ^ 52" "unat b div 2 ^ 52 < 2 ^ 11"
    "unat (b AND (push_bit 52 1 - 1)) = unat b mod 2 ^ 52"
proof -
  show "unat b div 2 ^ 52 < 2 ^ 11" using assms by (simp add: signbit_iff less_mult_imp_div_less)
qed (simp_all only: unat_drop unat_mask)

lemma isfinite_iff: "\<not> signbit b \<Longrightarrow> isfinite b \<longleftrightarrow> unat b div 2 ^ 52 < 2047"
proof -
  assume b: "\<not> signbit b"
  have "unat (drop_bit 52 b AND (push_bit 11 1 - 1)) = unat b div 2 ^ 52 mod 2 ^ 11"
    by (simp only: unat_mask unat_drop)
  then have "unat (drop_bit 52 b AND 0x7FF) = unat b div 2 ^ 52"
    using double_parts(2) [OF b] by (simp add: push_bit_eq_mult)
  then have "isfinite b \<longleftrightarrow> unat b div 2 ^ 52 \<noteq> 2047"
    unfolding isfinite_def word_unat_eq_iff by simp
  then show ?thesis using double_parts(2) [OF b] by auto
qed

text \<open>The significand and the exponent, and what they are worth.\<close>

lemma double_diyfp_value:
  assumes b: "\<not> signbit b"
  shows "unat (fp_f (double_diyfp b)) =
      (if unat b div 2 ^ 52 = 0 then unat b mod 2 ^ 52 else unat b mod 2 ^ 52 + 2 ^ 52)"
    "fp_e (double_diyfp b) = int (max 1 (unat b div 2 ^ 52)) - 1075"
    "fp_value (double_diyfp b) = magnitude (unat b)"
proof -
  note parts = double_parts [OF b]
  have zero: "drop_bit 52 b = 0 \<longleftrightarrow> unat b div 2 ^ 52 = 0"
    unfolding parts(1) [symmetric] by (simp only: unat_eq_0)
  have sum: "unat ((b AND (push_bit 52 1 - 1)) + push_bit 52 1) = unat b mod 2 ^ 52 + 2 ^ 52"
    using unat_add [of "b AND (push_bit 52 1 - 1)" "push_bit 52 1"] unfolding parts(3) push_one [of 52, simplified]
    by (simp add: less_trans [OF mod_less_divisor])
  show f: "unat (fp_f (double_diyfp b)) =
      (if unat b div 2 ^ 52 = 0 then unat b mod 2 ^ 52 else unat b mod 2 ^ 52 + 2 ^ 52)"
    using parts(3) sum zero by (simp add: double_diyfp_def Let_def)
  have "uint (drop_bit 52 b) = int (unat b div 2 ^ 52)" using parts(1) by (simp add: uint_nat)
  then show e: "fp_e (double_diyfp b) = int (max 1 (unat b div 2 ^ 52)) - 1075"
    using zero by (auto simp add: double_diyfp_def Let_def max_def)
  show "fp_value (double_diyfp b) = magnitude (unat b)"
    by (simp only: fp_value_def f e magnitude_def step_size_def)
qed

text \<open>Without its sign a \<open>double\<close> is a magnitude.\<close>

definition unsigned_bits :: "double \<Rightarrow> double" where
  "unsigned_bits b = (if signbit b then negated b else b)"

lemma unsigned_bits_sign: "\<not> signbit (unsigned_bits b)"
  by (simp add: unsigned_bits_def negated_sign)

lemma unsigned_bits_finite: "isfinite (unsigned_bits b) \<longleftrightarrow> isfinite b"
  by (simp add: unsigned_bits_def negated_finite)

lemma value_of_magnitude:
  "value_of b = (if signbit b then - magnitude (unat (unsigned_bits b)) else magnitude (unat (unsigned_bits b)))"
  using double_diyfp_value(3) [OF unsigned_bits_sign [of b]]
  by (cases "signbit b") (simp_all add: value_of_def unsigned_bits_def)

section \<open>Normalization\<close>

lemma normalize_shifts:
  "fp_f x \<noteq> 0 \<Longrightarrow> \<exists>j y. diyfp_normalize x = Inr y \<and> unat (fp_f y) = unat (fp_f x) * 2 ^ j \<and> fp_e y = fp_e x - int j \<and>
     2 ^ 63 \<le> unat (fp_f y)"
proof (induction x rule: diyfp_normalize.induct)
  case (1 x)
  show ?case
  proof (cases "drop_bit 63 (fp_f x) = 0")
    case True
    let ?x = "\<lparr>fp_f = push_bit 1 (fp_f x), fp_e = fp_e x - 1\<rparr>"
    have double: "unat (push_bit 1 (fp_f x)) = 2 * unat (fp_f x)" using True by (rule unat_push_bit_1)
    then have "fp_f ?x \<noteq> 0" using "1.prems" by (metis diyfp.select_convs(1) mult_eq_0_iff unat_eq_0 zero_neq_numeral)
    then obtain j y where "diyfp_normalize ?x = Inr y" "unat (fp_f y) = unat (fp_f ?x) * 2 ^ j" "fp_e y = fp_e ?x - int j"
        "2 ^ 63 \<le> unat (fp_f y)"
      using "1.IH" "1.prems" True by blast
    then show ?thesis
      using "1.prems" True double
      by (intro exI [of _ "Suc j"] exI [of _ y]) (simp add: diyfp_normalize.simps [of x])
  next
    case False
    then have "unat (fp_f x) div 2 ^ 63 \<noteq> 0" by (metis unat_drop unat_eq_0)
    then have "2 ^ 63 \<le> unat (fp_f x)" by (metis div_less not_less)
    then show ?thesis
      using "1.prems" False by (intro exI [of _ 0] exI [of _ x]) (simp add: diyfp_normalize.simps [of x])
  qed
qed

text \<open>The number of places is determined by the result being normalized.\<close>

lemma normal_shift_unique:
  fixes x :: nat
  assumes "2 ^ 63 \<le> x * 2 ^ i" "x * 2 ^ i < 2 ^ 64" "2 ^ 63 \<le> x * 2 ^ j" "x * 2 ^ j < 2 ^ 64"
  shows "i = j"
proof -
  have "\<not> i < j" if "2 ^ 63 \<le> x * 2 ^ i" "x * 2 ^ j < 2 ^ 64" for i j
  proof
    assume "i < j"
    then have "(2 :: nat) ^ Suc i \<le> 2 ^ j" by (intro power_increasing) simp_all
    then have "x * 2 ^ Suc i \<le> x * 2 ^ j" by (rule mult_le_mono2)
    moreover have "x * 2 ^ Suc i = 2 * (x * 2 ^ i)" "2 * 2 ^ 63 = (2 :: nat) ^ 64" by simp_all
    ultimately show False using that by linarith
  qed
  then show ?thesis using assms by (meson linorder_neqE_nat)
qed

lemma normalize_by:
  assumes "2 ^ 63 \<le> unat (fp_f x) * 2 ^ i" "unat (fp_f x) * 2 ^ i < 2 ^ 64"
  obtains y where "diyfp_normalize x = Inr y" "unat (fp_f y) = unat (fp_f x) * 2 ^ i" "fp_e y = fp_e x - int i"
proof -
  have "fp_f x \<noteq> 0" using assms(1) by auto
  then obtain j y where y: "diyfp_normalize x = Inr y" "unat (fp_f y) = unat (fp_f x) * 2 ^ j" "fp_e y = fp_e x - int j"
      "2 ^ 63 \<le> unat (fp_f y)"
    using normalize_shifts by blast
  have "unat (fp_f x) * 2 ^ j < 2 ^ 64" using unat_word64 [of "fp_f y"] y(2) by (simp only:)
  then have "i = j" using y(2,4) by (intro normal_shift_unique [OF assms]) (simp_all only:)
  then show thesis using that y by blast
qed

lemma normalize_to_by:
  assumes "unat (fp_f x) * 2 ^ i < 2 ^ 64" "fp_e x - t = int i" "i < 64"
  obtains y where "diyfp_normalize_to x t = Inr y" "unat (fp_f y) = unat (fp_f x) * 2 ^ i" "fp_e y = t"
proof -
  have f: "unat (push_bit i (fp_f x)) = unat (fp_f x) * 2 ^ i" using assms(1) by (rule unat_push)
  have "unat (drop_bit i (push_bit i (fp_f x))) = unat (fp_f x)"
    by (simp only: unat_drop f) simp
  then have "drop_bit i (push_bit i (fp_f x)) = fp_f x" by (simp only: word_unat_eq_iff)
  then have "diyfp_normalize_to x t = Inr \<lparr>fp_f = push_bit i (fp_f x), fp_e = t\<rparr>"
    unfolding diyfp_normalize_to_def Let_def assms(2) nat_int using assms(3) by (simp only: of_nat_0_le_iff check_simps) simp
  then show thesis using that f by simp
qed

lemma fp_value_shifted:
  assumes "unat (fp_f y) = unat (fp_f x) * 2 ^ i" "fp_e y = fp_e x - int i"
  shows "fp_value y = fp_value x"
  unfolding fp_value_def assms by (simp add: power_int_diff)

section \<open>The boundaries\<close>

lemma if_add_less: "m + k < n \<Longrightarrow> (if c then m else m + k) < n" for k m n :: nat
  by simp

lemma positive_parts:
  assumes "isfinite b" "is_positive b"
  shows "\<not> signbit b" "0 < unat b" "0 < unat (fp_f (double_diyfp b))" "unat (fp_f (double_diyfp b)) < 2 ^ 53"
    "- 1074 \<le> fp_e (double_diyfp b)" "fp_e (double_diyfp b) \<le> 971"
proof -
  show sign: "\<not> signbit b" using assms(2) by (simp add: is_positive_def)
  show pos: "0 < unat b" using assms(2) by (simp add: is_positive_def unat_gt_0)
  have E: "unat b div 2 ^ 52 < 2047" using assms(1) isfinite_iff [OF sign] by simp
  have F: "unat b mod 2 ^ 52 < 2 ^ 52" by simp
  note v = double_diyfp_value [OF sign]
  have "2 ^ 52 + 2 ^ 52 = (2 :: nat) ^ 53" by simp
  with F have "unat b mod 2 ^ 52 + 2 ^ 52 < 2 ^ 53" by linarith
  then show "unat (fp_f (double_diyfp b)) < 2 ^ 53"
    unfolding v(1) by (rule if_add_less)
  show "0 < unat (fp_f (double_diyfp b))"
    unfolding v(1) using pos div_mult_mod_eq [of "unat b" "2 ^ 52"] by (auto simp del: div_eq_0_iff)
  show "- 1074 \<le> fp_e (double_diyfp b)" "fp_e (double_diyfp b) \<le> 971" unfolding v(2) using E by simp_all
qed

lemma lower_closer_iff:
  "\<not> signbit b \<Longrightarrow> lower_boundary_is_closer b \<longleftrightarrow> unat b mod 2 ^ 52 = 0 \<and> 1 < unat b div 2 ^ 52"
  using unat_mask [of b 52] unat_drop [of 52 b]
  unfolding lower_boundary_is_closer_def word_less_nat_alt by (simp add: unat_eq_0 [symmetric])

lemma upper_boundary_parts:
  assumes "isfinite b" "is_positive b"
  shows "unat (fp_f (upper_boundary b)) = 2 * unat (fp_f (double_diyfp b)) + 1"
    "fp_e (upper_boundary b) = fp_e (double_diyfp b) - 1"
proof -
  have "unat (2 * fp_f (double_diyfp b)) = 2 * unat (fp_f (double_diyfp b))"
    using positive_parts(4) [OF assms] unat_mult [of 2 "fp_f (double_diyfp b)"] by simp
  then show "unat (fp_f (upper_boundary b)) = 2 * unat (fp_f (double_diyfp b)) + 1"
    using positive_parts(4) [OF assms] unat_add [of "2 * fp_f (double_diyfp b)" 1] by (simp add: upper_boundary_def Let_def)
qed (simp add: upper_boundary_def Let_def)

lemma lower_boundary_parts:
  assumes "isfinite b" "is_positive b"
  shows "unat (fp_f (lower_boundary b)) = (if lower_boundary_is_closer b then 4 else 2) * unat (fp_f (double_diyfp b)) - 1"
    "fp_e (lower_boundary b) = fp_e (double_diyfp b) - (if lower_boundary_is_closer b then 2 else 1)"
proof -
  let ?f = "fp_f (double_diyfp b)"
  have "unat (c * ?f - 1) = unat c * unat ?f - 1" if "unat c = 2 \<or> unat c = 4" for c :: "64 word"
  proof -
    have m: "unat (c * ?f) = unat c * unat ?f"
      using positive_parts(4) [OF assms] that by (intro unat_mult) auto
    then have "1 \<le> c * ?f" using positive_parts(3) [OF assms] that by (auto simp: word_le_nat_alt)
    then show ?thesis using m by (simp add: unat_diff)
  qed
  from this [of 2] this [of 4]
  show "unat (fp_f (lower_boundary b)) = (if lower_boundary_is_closer b then 4 else 2) * unat ?f - 1"
    by (simp add: lower_boundary_def Let_def)
qed (simp add: lower_boundary_def Let_def)

lemma upper_boundary_value:
  assumes "isfinite b" "is_positive b"
  shows "2 * fp_value (upper_boundary b) = magnitude (unat b) + magnitude (unat b + 1)"
proof -
  note v = double_diyfp_value [OF positive_parts(1) [OF assms]]
  let ?f = "of_nat (unat (fp_f (double_diyfp b))) :: rat" and ?x = "2 powi (fp_e (double_diyfp b)) :: rat"
  have "fp_value (upper_boundary b) = (2 * ?f + 1) * (?x / 2)"
    unfolding fp_value_def upper_boundary_parts [OF assms] by (simp add: power_int_diff)
  moreover have "?x = step_size (unat b)" by (simp only: step_size_def v(2))
  moreover have "magnitude (unat b) = ?f * ?x" by (simp only: v(3) [symmetric] fp_value_def)
  ultimately show ?thesis by (simp add: magnitude_Suc algebra_simps)
qed

lemma step_size_pred:
  assumes "\<not> signbit b" "0 < unat b"
  shows "step_size (unat b - 1) = 2 powi fp_e (double_diyfp b) / (if lower_boundary_is_closer b then 2 else 1)"
proof -
  let ?E = "unat b div 2 ^ 52" and ?F = "unat b mod 2 ^ 52"
  have suc: "unat b = Suc (unat b - 1)" using assms(2) by simp
  have "if ?F = 0 then ?E = Suc ((unat b - 1) div 2 ^ 52) else (unat b - 1) div 2 ^ 52 = ?E"
    using Suc_div_cases [of "2 ^ 52" "unat b - 1"] suc by fastforce
  then have "(unat b - 1) div 2 ^ 52 = (if ?F = 0 then ?E - 1 else ?E)" by (simp split: if_splits)
  then have "int (max 1 ((unat b - 1) div 2 ^ 52)) - 1075 = fp_e (double_diyfp b) - (if lower_boundary_is_closer b then 1 else 0)"
    unfolding double_diyfp_value(2) [OF assms(1)] lower_closer_iff [OF assms(1)] by (auto simp: max_def)
  then show ?thesis unfolding step_size_def by (simp add: power_int_diff)
qed

lemma lower_boundary_value:
  assumes "isfinite b" "is_positive b"
  shows "2 * fp_value (lower_boundary b) = magnitude (unat b - 1) + magnitude (unat b)"
proof -
  note p = positive_parts [OF assms]
  note v = double_diyfp_value [OF p(1)]
  let ?f = "of_nat (unat (fp_f (double_diyfp b))) :: rat" and ?x = "2 powi (fp_e (double_diyfp b)) :: rat"
  have "fp_value (lower_boundary b) =
      (if lower_boundary_is_closer b then (4 * ?f - 1) * (?x / 4) else (2 * ?f - 1) * (?x / 2))"
    unfolding fp_value_def lower_boundary_parts [OF assms] using p(3) by (simp add: power_int_diff of_nat_diff)
  moreover have "magnitude (unat b) = magnitude (unat b - 1) + step_size (unat b - 1)"
    using magnitude_Suc [of "unat b - 1"] p(2) by simp
  moreover have "magnitude (unat b) = ?f * ?x" by (simp only: v(3) [symmetric] fp_value_def)
  ultimately show ?thesis using step_size_pred [OF p(1,2)] by (simp add: algebra_simps split: if_splits)
qed

text \<open>The three significands over the common exponent: how far apart they are.\<close>

lemma significand_bounds:
  fixes f s :: nat
  assumes "2 ^ 63 \<le> f * 2 ^ s" "f * 2 ^ s < 2 ^ 64" "0 < f" "f < 2 ^ 53"
  obtains p where "f * 2 ^ s = 4 * (f * p)" "2 ^ s = 4 * p" "2 ^ (s - 1) = 2 * p" "2 ^ (s - 2) = p" "2 ^ 9 \<le> p"
    "11 \<le> s" "s < 64" "4 * (f * p) + 4 * p \<le> 2 ^ 64"
proof -
  have s: "11 \<le> s"
  proof (rule ccontr)
    assume "\<not> 11 \<le> s"
    then have "(2 :: nat) ^ s \<le> 2 ^ 10" by (intro power_increasing) simp_all
    then have "f * 2 ^ s < 2 ^ 53 * 2 ^ 10" using assms(4) by (intro mult_less_le_imp_less) simp_all
    then show False using assms(1) by simp
  qed
  have s': "s < 64"
  proof (rule ccontr)
    assume "\<not> s < 64"
    then have "(2 :: nat) ^ 64 \<le> 2 ^ s" by (intro power_increasing) simp_all
    then have "2 ^ 64 \<le> f * 2 ^ s" using assms(3) by (metis One_nat_def Suc_leI le_trans mult_le_mono1 nat_mult_1)
    then show False using assms(2) by simp
  qed
  have pow: "(2 :: nat) ^ s = 4 * 2 ^ (s - 2)" "(2 :: nat) ^ (s - 1) = 2 * 2 ^ (s - 2)"
    using s power_add [of "2 :: nat" 2 "s - 2"] power_add [of "2 :: nat" 1 "s - 2"] by (simp_all add: Suc_diff_Suc numeral_2_eq_2)
  have nine: "(2 :: nat) ^ 9 \<le> 2 ^ (s - 2)" using s by (intro power_increasing) simp_all
  have four: "f * 2 ^ s = 4 * (f * 2 ^ (s - 2))" unfolding pow(1) by (rule mult.left_commute)
  have "(f + 1) * 2 ^ s \<le> 2 ^ 64"
  proof -
    have "(2 :: nat) ^ 64 = 2 ^ (64 - s) * 2 ^ s" using s' by (simp flip: power_add)
    then have "f * 2 ^ s < 2 ^ (64 - s) * 2 ^ s" using assms(2) by simp
    then have "f + 1 \<le> 2 ^ (64 - s)" by simp
    then have "(f + 1) * 2 ^ s \<le> 2 ^ (64 - s) * 2 ^ s" by (rule mult_le_mono1)
    then show ?thesis using \<open>2 ^ 64 = 2 ^ (64 - s) * 2 ^ s\<close> by simp
  qed
  then have "4 * (f * 2 ^ (s - 2)) + 4 * 2 ^ (s - 2) \<le> 2 ^ 64"
    unfolding distrib_right mult_1 four pow(1) [symmetric] .
  then show thesis by (rule that [OF four pow refl nine s s'])
qed

lemma compute_boundaries_ok:
  assumes b: "isfinite b" "is_positive b"
  obtains w minus plus where
    "compute_boundaries b = Inr \<lparr>bd_w = w, bd_minus = minus, bd_plus = plus\<rparr>"
    "fp_e minus = fp_e plus" "fp_e w = fp_e plus" "- 1137 \<le> fp_e plus" "fp_e plus \<le> 960"
    "2 * fp_value minus = magnitude (unat b - 1) + magnitude (unat b)"
    "2 * fp_value plus = magnitude (unat b) + magnitude (unat b + 1)"
    "2 ^ 62 \<le> unat (fp_f minus)" "unat (fp_f minus) + 512 \<le> unat (fp_f w)" "2 ^ 63 \<le> unat (fp_f w)"
    "unat (fp_f w) + 1024 \<le> unat (fp_f plus)"
    "unat (fp_f plus) \<le> 2 ^ 53 * (unat (fp_f plus) - unat (fp_f minus))"
proof -
  let ?v = "double_diyfp b"
  define f where "f = unat (fp_f ?v)"
  note v = positive_parts [OF b, folded f_def]
  have "fp_f ?v \<noteq> 0" using v(3) by (auto simp: f_def)
  then obtain s w where w: "diyfp_normalize ?v = Inr w" "unat (fp_f w) = f * 2 ^ s" "fp_e w = fp_e ?v - int s" "2 ^ 63 \<le> unat (fp_f w)"
    using normalize_shifts unfolding f_def by blast
  have less: "f * 2 ^ s < 2 ^ 64" using unat_word64 [of "fp_f w"] w(2) by (simp only:)
  obtain p where p: "f * 2 ^ s = 4 * (f * p)" "2 ^ s = 4 * p" "2 ^ (s - 1) = 2 * p" "2 ^ (s - 2) = p" "2 ^ 9 \<le> p"
      "11 \<le> s" "s < 64" "4 * (f * p) + 4 * p \<le> 2 ^ 64"
    using significand_bounds [OF _ less v(3,4)] w(2,4) by metis
  have fp: "p \<le> f * p" using v(3) by (cases f) simp_all
  have up: "unat (fp_f (upper_boundary b)) * 2 ^ (s - 1) = 4 * (f * p) + 2 * p"
    unfolding upper_boundary_parts(1) [OF b] f_def [symmetric] p(3) by (simp add: algebra_simps)
  have p0: "0 < p" using p(5) by (cases p) simp_all
  have range: "2 ^ 63 \<le> 4 * (f * p) + 2 * p" "4 * (f * p) + 2 * p < 2 ^ 64" using w(2,4) p(1,8) p0 by linarith+
  obtain plus where plus: "diyfp_normalize (upper_boundary b) = Inr plus" "unat (fp_f plus) = 4 * (f * p) + 2 * p"
      "fp_e plus = fp_e (upper_boundary b) - int (s - 1)"
    by (rule normalize_by [of "upper_boundary b" "s - 1", unfolded up, OF range])
  have eplus: "fp_e plus = fp_e w" using plus(3) w(3) p(6) unfolding upper_boundary_parts(2) [OF b] by simp
  define i where "i = (if lower_boundary_is_closer b then s - 2 else s - 1)"
  define D where "D = (if lower_boundary_is_closer b then p else 2 * p)"
  have low: "unat (fp_f (lower_boundary b)) * 2 ^ i = 4 * (f * p) - D"
    unfolding lower_boundary_parts(1) [OF b] f_def [symmetric] i_def D_def using p(3,4) by (simp add: diff_mult_distrib mult.assoc)
  have i: "fp_e (lower_boundary b) - fp_e plus = int i" "i < 64"
    using p(6,7) w(3) unfolding eplus lower_boundary_parts(2) [OF b] i_def by (simp_all add: less_imp_diff_less)
  have lowless: "unat (fp_f (lower_boundary b)) * 2 ^ i < 2 ^ 64" unfolding low using range(2) by linarith
  obtain minus where minus: "diyfp_normalize_to (lower_boundary b) (fp_e plus) = Inr minus"
      "unat (fp_f minus) = 4 * (f * p) - D" "fp_e minus = fp_e plus"
    by (rule normalize_to_by [OF lowless i, unfolded low])
  have D: "p \<le> D" "D \<le> 2 * p" by (simp_all add: D_def)
  have "4 * (f * p) + 2 * p \<le> 2 ^ 53 * (D + 2 * p)"
  proof (cases "lower_boundary_is_closer b")
    case True
    then have "f = 2 ^ 52"
      unfolding f_def double_diyfp_value(1) [OF v(1)] lower_closer_iff [OF v(1)] by simp
    then show ?thesis using True by (simp add: D_def)
  next
    case False
    have "(2 :: nat) ^ 64 = 2 ^ 53 * (4 * 2 ^ 9)" by simp
    also have "\<dots> \<le> 2 ^ 53 * (4 * p)" using p(5) by (intro mult_le_mono le_refl)
    also have "4 * p = D + 2 * p" using False by (simp add: D_def)
    finally show ?thesis using range(2) by (rule order.trans [OF less_imp_le, rotated])
  qed
  moreover have "4 * (f * p) + 2 * p - (4 * (f * p) - D) = D + 2 * p" using D fp by linarith
  ultimately have ratio: "unat (fp_f plus) \<le> 2 ^ 53 * (unat (fp_f plus) - unat (fp_f minus))"
    unfolding plus(2) minus(2) by (simp only:)
  have W: "unat (fp_f w) = 4 * (f * p)" using w(2) p(1) by (rule trans)
  have gaps: "2 ^ 62 \<le> unat (fp_f minus)" "unat (fp_f minus) + 512 \<le> unat (fp_f w)"
      "unat (fp_f w) + 1024 \<le> unat (fp_f plus)"
  proof -
    have pow: "2 * 2 ^ 62 = (2 :: nat) ^ 63" "2 ^ 9 = (512 :: nat)" by simp_all
    show "2 ^ 62 \<le> unat (fp_f minus)" "unat (fp_f minus) + 512 \<le> unat (fp_f w)"
        "unat (fp_f w) + 1024 \<le> unat (fp_f plus)"
      using D fp p(5) w(4) pow unfolding W plus(2) minus(2) by linarith+
  qed
  have "compute_boundaries b = Inr \<lparr>bd_w = w, bd_minus = minus, bd_plus = plus\<rparr>"
    using b w(1) plus(1) minus(1) by (simp add: compute_boundaries_def)
  moreover have "fp_value minus = fp_value (lower_boundary b)"
    using minus(2,3) i low by (intro fp_value_shifted [of _ _ i]) simp_all
  moreover have "fp_value plus = fp_value (upper_boundary b)"
    using plus(2,3) up by (intro fp_value_shifted [of _ _ "s - 1"]) simp_all
  moreover have "- 1137 \<le> fp_e plus" "fp_e plus \<le> 960" using v(5,6) p(6,7) w(3) unfolding eplus by simp_all
  ultimately show thesis
    using that upper_boundary_value [OF b] lower_boundary_value [OF b] gaps ratio w(4) eplus minus(3) by metis
qed

end
