(* ===== verification/Json_Dtoa_Digits.thy ===== *)
theory Json_Dtoa_Digits
  imports Json_Dtoa_Arith
begin

text \<open>
  What the digit generation of \<^verbatim>\<open>Json_Dtoa\<close> computes, in natural numbers: no operation
  wraps around, no assertion fails, and the digits denote a number between the two bounds.
\<close>

section \<open>Digits and the numbers they denote\<close>

definition digits_number :: "bytes \<Rightarrow> nat" where
  "digits_number ds = foldl (\<lambda>n c. n * 10 + digit_val c) 0 ds"

lemma digits_number_Nil [simp]: "digits_number [] = 0"
  by (simp add: digits_number_def)

lemma digits_number_snoc: "digits_number (ds @ [c]) = digits_number ds * 10 + digit_val c"
  by (simp add: digits_number_def)

lemma digits_number_Cons: "digits_number (c # ds) = digit_val c * 10 ^ length ds + digits_number ds"
proof (induction ds rule: rev_induct)
  case (snoc d ds)
  then show ?case using digits_number_snoc [of "c # ds" d] digits_number_snoc [of ds d] by (simp add: algebra_simps)
qed (simp add: digits_number_def)

lemma digits_number_append: "digits_number (xs @ ys) = digits_number xs * 10 ^ length ys + digits_number ys"
  by (induction xs) (simp_all add: digits_number_Cons algebra_simps power_add)

abbreviation all_digits :: "bytes \<Rightarrow> bool" where
  "all_digits ds \<equiv> \<forall>c \<in> set ds. is_digit c"

lemma digit_byte: "d \<le> 9 \<Longrightarrow> is_digit (byte_of (48 + d)) \<and> digit_val (byte_of (48 + d)) = d"
  by (simp add: is_digit_def digit_val_def byte_val_of)

section \<open>The highest power of ten\<close>

lemma find_largest_pow10_spec:
  assumes "0 < n"
  obtains k p where "find_largest_pow10 n = (Suc k, p)" "unat p = 10 ^ k" "10 ^ k \<le> unat n" "unat n < 10 ^ Suc k" "k \<le> 9"
proof -
  have "unat n < 2 ^ 32" using unsigned_less [of n, where ?'a = nat] by simp
  then have n: "unat n < 10 ^ 10" by simp
  have "0 < unat n" using assms by (simp add: word_less_nat_alt)
  then show thesis
    using n that [of 9 1000000000] that [of 8 100000000] that [of 7 10000000] that [of 6 1000000] that [of 5 100000]
      that [of 4 10000] that [of 3 1000] that [of 2 100] that [of 1 10] that [of 0 1]
    unfolding find_largest_pow10_def word_le_nat_alt by (simp split: if_splits) (meson leI)
qed

section \<open>Rounding\<close>

lemma dec_last_digit:
  assumes "is_digit (last buf)" "1 \<le> digit_val (last buf)"
  shows "is_digit (last (dec_last buf))" "digit_val (last (dec_last buf)) = digit_val (last buf) - 1"
    "butlast (dec_last buf) = butlast buf"
proof -
  have v: "48 < byte_val (last buf)" "byte_val (last buf) \<le> 57"
    using assms by (simp_all add: is_digit_def digit_val_def)
  then have "byte_val (last (dec_last buf)) = byte_val (last buf) - 1"
    by (simp add: dec_last_def of_char_of take_bit_eq_mod mod_if)
  then show "is_digit (last (dec_last buf))" "digit_val (last (dec_last buf)) = digit_val (last buf) - 1"
    using v unfolding is_digit_def digit_val_def by linarith+
qed (simp add: dec_last_def)

lemma round_loop_spec:
  "buf \<noteq> [] \<Longrightarrow> is_digit (last buf) \<Longrightarrow> unat rest \<le> unat delta \<Longrightarrow> 0 < unat ten_k \<Longrightarrow>
   unat delta < unat rest + digit_val (last buf) * unat ten_k \<Longrightarrow>
   \<exists>c j. round_loop buf distance delta rest ten_k = Inr (butlast buf @ [c]) \<and> is_digit c \<and> 1 \<le> digit_val c \<and>
     digit_val c + j = digit_val (last buf) \<and> unat rest + j * unat ten_k \<le> unat delta"
proof (induction buf distance delta rest ten_k rule: round_loop.induct)
  case (1 buf distance delta rest ten_k)
  let ?go = "rest < distance \<and> delta - rest \<ge> ten_k \<and> (rest + ten_k < distance \<or> distance - rest > rest + ten_k - distance)"
  have pos: "1 \<le> digit_val (last buf)" using "1.prems"(3,5) by (cases "digit_val (last buf)") simp_all
  show ?case
  proof (cases ?go)
    case True
    have room: "unat rest + unat ten_k \<le> unat delta"
      using True "1.prems"(3) unat_diff [of rest delta] unfolding word_le_nat_alt by linarith
    then have sum: "unat (rest + ten_k) = unat rest + unat ten_k"
      using unat_word64 [of delta] by (intro unat_add) linarith
    have two: "2 \<le> digit_val (last buf)"
    proof (rule ccontr)
      assume "\<not> 2 \<le> digit_val (last buf)"
      then have "digit_val (last buf) = 1" using pos by simp
      then show False using "1.prems"(5) room by simp
    qed
    then have nz: "last buf \<noteq> CHR ''0''" by (auto simp: digit_val_def)
    note d = dec_last_digit [OF "1.prems"(2) pos]
    have "digit_val (last buf) * unat ten_k = digit_val (last (dec_last buf)) * unat ten_k + unat ten_k"
      unfolding d(2) using pos by (cases "digit_val (last buf)") simp_all
    then have "\<exists>c j. round_loop (dec_last buf) distance delta (rest + ten_k) ten_k = Inr (butlast (dec_last buf) @ [c]) \<and>
        is_digit c \<and> 1 \<le> digit_val c \<and> digit_val c + j = digit_val (last (dec_last buf)) \<and>
        unat (rest + ten_k) + j * unat ten_k \<le> unat delta"
      using True nz d(1) sum room "1.prems"(4,5) by (intro "1.IH") (simp_all add: dec_last_def)
    then obtain c j where "round_loop (dec_last buf) distance delta (rest + ten_k) ten_k = Inr (butlast buf @ [c])"
        "is_digit c" "1 \<le> digit_val c" "digit_val c + j = digit_val (last (dec_last buf))"
        "unat (rest + ten_k) + j * unat ten_k \<le> unat delta"
      using d(3) by auto
    then show ?thesis
      using True nz d(2) pos sum by (intro exI [of _ c] exI [of _ "Suc j"]) (simp add: round_loop.simps [of buf])
  next
    case False
    then have "round_loop buf distance delta rest ten_k = Inr buf" by (subst round_loop.simps) (simp only: if_False)
    then show ?thesis
      using "1.prems"(1-3) pos by (intro exI [of _ "last buf"] exI [of _ 0]) simp
  qed
qed

section \<open>The integral part\<close>

text \<open>One digit of the integral part: what is left behind it, and the unit of the next digit.\<close>

lemma integral_step:
  fixes p1 pow10 :: "32 word"
  assumes "unat p1 < 10 * 10 ^ n" "unat pow10 = 10 ^ n"
  shows "pow10 \<noteq> 0" "p1 div pow10 \<le> 9" "unat (p1 div pow10) \<le> 9"
    "unat p1 = unat (p1 div pow10) * 10 ^ n + unat (p1 mod pow10)" "unat (p1 mod pow10) < 10 ^ n"
proof -
  show "pow10 \<noteq> 0" using assms(2) by auto
  show d: "unat (p1 div pow10) \<le> 9" using assms by (simp add: unat_div less_mult_imp_div_less less_Suc_eq_le [symmetric] eval_nat_numeral)
  then show "p1 div pow10 \<le> 9" by (simp add: word_le_nat_alt)
  show "unat p1 = unat (p1 div pow10) * 10 ^ n + unat (p1 mod pow10)" "unat (p1 mod pow10) < 10 ^ n"
    by (simp_all only: unat_div unat_mod assms(2) div_mult_mod_eq mod_less_divisor zero_less_power zero_less_numeral)
qed

lemma unat_widen: "unat (ucast w :: 64 word) = unat w" for w :: "32 word"
proof -
  have "unat w < 2 ^ 64" using unsigned_less [of w, where ?'a = nat] by simp
  then show ?thesis by (simp only: unsigned_ucast_eq) (simp add: take_bit_nat_eq_self)
qed

lemma unat_rest:
  fixes r :: "32 word" and p2 :: "64 word"
  assumes "unat r * 2 ^ s + unat p2 < 2 ^ 64"
  shows "unat (push_bit s (ucast r) + p2) = unat r * 2 ^ s + unat p2"
proof -
  have u: "unat (ucast r :: 64 word) = unat r" by (rule unat_widen)
  have "unat (push_bit s (ucast r) :: 64 word) = unat r * 2 ^ s"
    using unat_push [of "ucast r" s] assms unfolding u by linarith
  then show ?thesis using unat_add [of "push_bit s (ucast r)" p2] assms by simp
qed

text \<open>The outcomes of the loop: it stops with as many digits as it needs, or has all of them.\<close>

definition integral_stop :: "nat \<Rightarrow> nat \<Rightarrow> 64 word \<Rightarrow> nat \<Rightarrow> bytes \<Rightarrow> nat \<times> 64 word \<times> 64 word \<Rightarrow> bool" where
  "integral_stop s value delta n ds = (\<lambda>(n', rest, ten).
     n' + length ds = n \<and> unat ten = 10 ^ n' * 2 ^ s \<and> value = digits_number ds * unat ten + unat rest \<and>
     unat rest < unat ten \<and> unat rest \<le> unat delta \<and> unat delta < unat rest + digit_val (last ds) * unat ten)"

lemma integral_digits_spec:
  "unat p1 < 10 ^ n \<Longrightarrow> (\<forall>n'. n = Suc n' \<longrightarrow> unat pow10 = 10 ^ n') \<Longrightarrow> unat p2 < 2 ^ s \<Longrightarrow>
   unat p1 * 2 ^ s + unat p2 < 2 ^ 64 \<Longrightarrow> unat delta < unat p1 * 2 ^ s + unat p2 \<Longrightarrow>
   (\<exists>ds st. integral_digits s p2 delta buf n p1 pow10 = Inr (buf @ ds, Some st) \<and> all_digits ds \<and> ds \<noteq> [] \<and>
      integral_stop s (unat p1 * 2 ^ s + unat p2) delta n ds st) \<or>
   (\<exists>ds. integral_digits s p2 delta buf n p1 pow10 = Inr (buf @ ds, None) \<and> all_digits ds \<and> length ds = n \<and>
      unat p1 = digits_number ds \<and> unat delta < unat p2)"
proof (induction n arbitrary: buf p1 pow10)
  case 0
  then show ?case by auto
next
  case (Suc n)
  have pow: "unat pow10 = 10 ^ n" "unat p1 < 10 * 10 ^ n" using Suc.prems(1,2) by simp_all
  note step = integral_step [OF pow(2,1)]
  define d where "d = unat (p1 div pow10)"
  define r where "r = p1 mod pow10"
  let ?c = "byte_of (48 + d)"
  define rest where "rest = push_bit s (ucast r) + p2"
  have c: "is_digit ?c" "digit_val ?c = d" using digit_byte [of d] step(3) by (simp_all add: d_def)
  have p1: "unat p1 = d * 10 ^ n + unat r" "unat r < 10 ^ n" using step(4,5) by (simp_all add: d_def r_def)
  have split: "unat p1 * 2 ^ s + unat p2 = d * (10 ^ n * 2 ^ s) + (unat r * 2 ^ s + unat p2)"
    unfolding p1(1) by (simp add: algebra_simps)
  have rest: "unat rest = unat r * 2 ^ s + unat p2"
    unfolding rest_def using Suc.prems(4) split by (intro unat_rest) linarith
  have small: "unat rest < 10 ^ n * 2 ^ s"
  proof -
    have "unat rest < (unat r + 1) * 2 ^ s" using Suc.prems(3) by (simp add: rest)
    also have "\<dots> \<le> 10 ^ n * 2 ^ s" using p1(2) by (intro mult_le_mono1) simp
    finally show ?thesis .
  qed
  have eq: "integral_digits s p2 delta buf (Suc n) p1 pow10 =
      (if rest \<le> delta then Inr (buf @ [?c], Some (n, rest, push_bit s (ucast pow10)))
       else integral_digits s p2 delta (buf @ [?c]) n r (pow10 div 10))"
    using step(1,2) by (simp add: Let_def d_def r_def rest_def)
  show ?case
  proof (cases "rest \<le> delta")
    case True
    have u: "unat (ucast pow10 :: 64 word) = 10 ^ n" by (rule trans [OF unat_widen pow(1)])
    have "d \<noteq> 0"
    proof
      assume "d = 0"
      then show False using True Suc.prems(5) split rest by (simp add: word_le_nat_alt)
    qed
    then have "10 ^ n * 2 ^ s \<le> d * (10 ^ n * 2 ^ s)" by simp
    then have "unat (push_bit s (ucast pow10) :: 64 word) = 10 ^ n * 2 ^ s"
      using unat_push [of "ucast pow10" s] Suc.prems(4) split unfolding u by linarith
    then have "integral_stop s (unat p1 * 2 ^ s + unat p2) delta (Suc n) [?c] (n, rest, push_bit s (ucast pow10))"
      using True Suc.prems(5) split rest small c(2) by (simp add: integral_stop_def digits_number_Cons word_le_nat_alt)
    then show ?thesis using True c(1) unfolding eq by (intro disjI1 exI [of _ "[?c]"] exI conjI) auto
  next
    case False
    have pow': "\<forall>n'. n = Suc n' \<longrightarrow> unat (pow10 div 10) = 10 ^ n'" using pow(1) by (auto simp: unat_div)
    have less: "unat r * 2 ^ s + unat p2 < 2 ^ 64" "unat delta < unat r * 2 ^ s + unat p2"
      using Suc.prems(4) split False rest by (simp_all add: word_le_nat_alt)
    from Suc.IH [OF p1(2) pow' Suc.prems(3) less, of "buf @ [?c]"] show ?thesis
    proof (elim disjE exE conjE)
      fix ds st
      assume st: "integral_digits s p2 delta (buf @ [?c]) n r (pow10 div 10) = Inr ((buf @ [?c]) @ ds, Some st)"
        "all_digits ds" "ds \<noteq> []" "integral_stop s (unat r * 2 ^ s + unat p2) delta n ds st"
      obtain n' rst ten where st': "st = (n', rst, ten)" by (cases st) auto
      note stop = st(4) [unfolded integral_stop_def st' prod.case]
      then have "d * (10 ^ n * 2 ^ s) = d * 10 ^ length ds * unat ten" by (auto simp: power_add)
      then have "unat p1 * 2 ^ s + unat p2 = digits_number (?c # ds) * unat ten + unat rst"
        using stop split unfolding digits_number_Cons c(2) distrib_right by linarith
      then have "integral_stop s (unat p1 * 2 ^ s + unat p2) delta (Suc n) (?c # ds) st"
        using st(3) stop unfolding integral_stop_def st' prod.case by (elim conjE) simp
      then show ?thesis
        using st(1-3) c(1) False unfolding eq by (intro disjI1 exI [of _ "?c # ds"] exI [of _ st]) simp
    next
      fix ds
      assume ds: "integral_digits s p2 delta (buf @ [?c]) n r (pow10 div 10) = Inr ((buf @ [?c]) @ ds, None)"
        "all_digits ds" "length ds = n" "unat r = digits_number ds" "unat delta < unat p2"
      then show ?thesis
        using c p1(1) False unfolding eq by (intro disjI2 exI [of _ "?c # ds"]) (simp add: digits_number_Cons)
    qed
  qed
qed

section \<open>The fractional part\<close>

lemma fraction_step:
  fixes p2 delta :: "64 word"
  assumes "unat p2 < 2 ^ s" "s \<le> 60" "delta < p2"
  shows "p2 \<le> 0xFFFFFFFFFFFFFFFF div 10" "unat (10 * p2) = 10 * unat p2" "unat (10 * delta) = 10 * unat delta"
    "drop_bit s (10 * p2) \<le> 9" "unat (drop_bit s (10 * p2)) \<le> 9"
    "10 * unat p2 = unat (drop_bit s (10 * p2)) * 2 ^ s + unat (10 * p2 AND (push_bit s 1 - 1))"
    "unat (10 * p2 AND (push_bit s 1 - 1)) < 2 ^ s"
proof -
  have "(2 :: nat) ^ s \<le> 2 ^ 60" using assms(2) by (intro power_increasing) simp_all
  then have small: "unat p2 < 2 ^ 60" using assms(1) by linarith
  have less: "unat delta < unat p2" using assms(3) by (simp add: word_less_nat_alt)
  show "p2 \<le> 0xFFFFFFFFFFFFFFFF div 10" using small by (simp add: word_le_nat_alt unat_div)
  show ten: "unat (10 * p2) = 10 * unat p2" using unat_mult [of 10 p2] small by simp
  show "unat (10 * delta) = 10 * unat delta" using unat_mult [of 10 delta] small less by simp
  show d: "unat (drop_bit s (10 * p2)) \<le> 9"
    unfolding unat_drop ten using assms(1) by (simp add: less_mult_imp_div_less less_Suc_eq_le [symmetric] eval_nat_numeral)
  then show "drop_bit s (10 * p2) \<le> 9" by (simp only: word_le_nat_alt) simp
  show "10 * unat p2 = unat (drop_bit s (10 * p2)) * 2 ^ s + unat (10 * p2 AND (push_bit s 1 - 1))"
    "unat (10 * p2 AND (push_bit s 1 - 1)) < 2 ^ s"
    unfolding unat_drop unat_mask ten
    by (simp_all only: div_mult_mod_eq mod_less_divisor zero_less_power zero_less_numeral)
qed

text \<open>The outcome of the loop, with \<open>delta\<close> and \<open>distance\<close> scaled along.\<close>

definition fraction_stop :: "nat \<Rightarrow> 64 word \<Rightarrow> 64 word \<Rightarrow> 64 word \<Rightarrow> bytes \<Rightarrow> 64 word \<times> 64 word \<times> 64 word \<Rightarrow> bool" where
  "fraction_stop s p2 delta distance ds = (\<lambda>(rest, delta', distance').
     unat delta' = 10 ^ length ds * unat delta \<and> unat distance' = 10 ^ length ds * unat distance \<and>
     10 ^ length ds * unat p2 = digits_number ds * 2 ^ s + unat rest \<and>
     unat rest < 2 ^ s \<and> unat rest \<le> unat delta' \<and> unat delta' < unat rest + digit_val (last ds) * 2 ^ s)"

lemma fractional_digits_spec:
  "unat p2 < 2 ^ s \<Longrightarrow> s \<le> 60 \<Longrightarrow> delta < p2 \<Longrightarrow> distance \<le> delta \<Longrightarrow>
   \<exists>ds st. fractional_digits s buf m p2 delta distance = Inr (buf @ ds, m + length ds, st) \<and> all_digits ds \<and> ds \<noteq> [] \<and>
     fraction_stop s p2 delta distance ds st"
proof (induction s buf m p2 delta distance rule: fractional_digits.induct)
  case (1 s buf m p2 delta distance)
  note step = fraction_step [OF "1.prems"(1-3)]
  define d where "d = unat (drop_bit s (10 * p2))"
  define r where "r = 10 * p2 AND (push_bit s 1 - 1)"
  let ?c = "byte_of (48 + d)"
  have c: "is_digit ?c" "digit_val ?c = d" using digit_byte [of d] step(5) by (simp_all add: d_def)
  have distance: "unat (10 * distance) = 10 * unat distance"
    using unat_mult [of 10 distance] unat_word64 [of "10 * delta"] step(3) "1.prems"(4) by (simp add: word_le_nat_alt)
  have p2: "10 * unat p2 = d * 2 ^ s + unat r" "unat r < 2 ^ s" using step(6,7) by (simp_all add: d_def r_def)
  have above: "10 * unat delta < d * 2 ^ s + unat r" using "1.prems"(3) p2(1) by (simp add: word_less_nat_alt)
  have eq: "fractional_digits s buf m p2 delta distance =
      (if r \<le> 10 * delta then Inr (buf @ [?c], m + 1, r, 10 * delta, 10 * distance)
       else fractional_digits s (buf @ [?c]) (m + 1) r (10 * delta) (10 * distance))"
    using step(1,4) by (subst fractional_digits.simps) (simp only: Let_def d_def r_def check_simps)
  show ?case
  proof (cases "r \<le> 10 * delta")
    case True
    then have "fraction_stop s p2 delta distance [?c] (r, 10 * delta, 10 * distance)"
      using step(3) distance p2 above c(2) by (simp add: fraction_stop_def digits_number_Cons word_le_nat_alt)
    then show ?thesis
      using True c(1) unfolding eq by (intro exI [of _ "[?c]"] exI [of _ "(r, 10 * delta, 10 * distance)"]) simp
  next
    case False
    have "10 * distance \<le> 10 * delta" using distance step(3) "1.prems"(4) by (simp add: word_le_nat_alt)
    then have "\<exists>ds st. fractional_digits s (buf @ [?c]) (m + 1) r (10 * delta) (10 * distance) =
        Inr ((buf @ [?c]) @ ds, m + 1 + length ds, st) \<and> all_digits ds \<and> ds \<noteq> [] \<and>
        fraction_stop s r (10 * delta) (10 * distance) ds st"
      using False step(1,4) "1.prems"(2) p2(2) unfolding d_def r_def by (intro "1.IH") simp_all
    then obtain ds rest delta' distance' where ds: "fractional_digits s (buf @ [?c]) (m + 1) r (10 * delta) (10 * distance) =
        Inr ((buf @ [?c]) @ ds, m + 1 + length ds, rest, delta', distance')" "all_digits ds" "ds \<noteq> []"
        "fraction_stop s r (10 * delta) (10 * distance) ds (rest, delta', distance')"
      by auto
    note stop = ds(4) [unfolded fraction_stop_def prod.case step(3) distance]
    have "10 ^ length (?c # ds) * unat p2 = 10 ^ length ds * (10 * unat p2)" by simp
    also have "\<dots> = 10 ^ length ds * (d * 2 ^ s) + 10 ^ length ds * unat r" unfolding p2(1) by (rule distrib_left)
    finally have "10 ^ length (?c # ds) * unat p2 = digits_number (?c # ds) * 2 ^ s + unat rest"
      using stop unfolding digits_number_Cons c(2) by (simp add: algebra_simps)
    then have "fraction_stop s p2 delta distance (?c # ds) (rest, delta', distance')"
      using ds(3) stop unfolding fraction_stop_def prod.case by (elim conjE) simp
    then show ?thesis
      using ds(1-3) c(1) False unfolding eq by (intro exI [of _ "?c # ds"] exI [of _ "(rest, delta', distance')"]) simp
  qed
qed

section \<open>The digits after rounding\<close>

lemma digit_val_le: "is_digit c \<Longrightarrow> digit_val c \<le> 9"
  unfolding is_digit_def digit_val_def by linarith

lemma digits_number_less: "all_digits ds \<Longrightarrow> digits_number ds < 10 ^ length ds"
proof (induction ds)
  case (Cons c ds)
  have "digit_val c \<le> 9" using Cons.prems by (simp add: digit_val_le)
  then have "digit_val c * 10 ^ length ds \<le> 9 * 10 ^ length ds" by (rule mult_le_mono1)
  moreover have "digits_number ds < 10 ^ length ds" using Cons by simp
  ultimately have "digit_val c * 10 ^ length ds + digits_number ds < 10 * 10 ^ length ds" by linarith
  then show ?case by (simp add: digits_number_Cons)
qed simp

lemma leading_digit:
  assumes "all_digits ds" "ds \<noteq> []" "10 ^ (length ds - 1) \<le> digits_number ds"
  shows "1 \<le> digit_val (hd ds)"
proof (cases ds)
  case (Cons c cs)
  have "digits_number cs < 10 ^ length cs" using assms(1) Cons by (intro digits_number_less) simp
  then show ?thesis using assms(3) Cons by (cases "digit_val c") (simp_all add: digits_number_Cons)
qed (use assms in simp)

text \<open>What every way out of the digit generation ends with: \<open>hi\<close> is the upper bound in the unit of
  the last digit's fraction, \<open>delta\<close> the distance of the bounds.\<close>

definition good_digits :: "bytes \<Rightarrow> bool" where
  "good_digits buf \<longleftrightarrow> all_digits buf \<and> buf \<noteq> [] \<and> length buf \<le> 17 \<and> 1 \<le> digit_val (hd buf) \<and> 1 \<le> digit_val (last buf)"

lemma digits_at_most_17:
  fixes ten hi delta :: nat
  assumes "10 ^ n * ten \<le> hi" "delta < 10 * ten" "hi < 10 ^ 16 * delta"
  shows "n < 17"
proof -
  have "10 ^ n * delta \<le> 10 ^ n * (10 * ten)" using assms(2) by (intro mult_le_mono2) simp
  also have "\<dots> = 10 * (10 ^ n * ten)" by simp
  also have "\<dots> \<le> 10 * hi" using assms(1) by simp
  also have "\<dots> < 10 * (10 ^ 16 * delta)" using assms(3) by simp
  finally have "10 ^ n * delta < 10 ^ 17 * delta" by simp
  then have "(10 :: nat) ^ n < 10 ^ 17" by simp
  then show ?thesis by (rule power_less_imp_less_exp [rotated]) simp
qed

lemma rounded_digits:
  assumes ds: "all_digits ds" "ds \<noteq> []" and hi: "hi = digits_number ds * unat ten + unat rest"
    and rest: "unat rest < unat ten" "unat rest \<le> unat delta" "unat delta < unat rest + digit_val (last ds) * unat ten"
    and len: "10 ^ (length ds - 1) * unat ten \<le> hi" "hi < 10 ^ 16 * unat delta"
    and distance: "unat distance \<le> unat delta"
  obtains buf where "grisu2_round ds distance delta rest ten = Inr buf" "good_digits buf" "length buf = length ds"
    "digits_number buf * unat ten \<le> hi" "hi \<le> digits_number buf * unat ten + unat delta"
proof -
  have pos: "0 < unat ten" using rest(1) by simp
  have last: "is_digit (last ds)" using ds by simp
  have nine: "digit_val (last ds) \<le> 9" using last by (rule digit_val_le)
  then have "digit_val (last ds) * unat ten \<le> 9 * unat ten" by (rule mult_le_mono1)
  then have "unat delta < 10 * unat ten" using rest by linarith
  from digits_at_most_17 [OF len(1) this len(2)] have len17: "length ds \<le> 17" by simp
  have "10 ^ (length ds - 1) * unat ten < (digits_number ds + 1) * unat ten"
    using len(1) rest(1) by (simp add: hi)
  then have "10 ^ (length ds - 1) < digits_number ds + 1" by (simp only: mult_less_cancel2)
  then have "10 ^ (length ds - 1) \<le> digits_number ds" by simp
  then have hd1: "1 \<le> digit_val (hd ds)" by (rule leading_digit [OF ds])
  obtain c j where c: "round_loop ds distance delta rest ten = Inr (butlast ds @ [c])" "is_digit c" "1 \<le> digit_val c"
      "digit_val c + j = digit_val (last ds)" "unat rest + j * unat ten \<le> unat delta"
    using round_loop_spec [OF ds(2) last rest(2) pos rest(3)] by blast
  let ?buf = "butlast ds @ [c]"
  have "digits_number ds = digits_number ?buf + j"
    using digits_number_snoc [of "butlast ds" "last ds"] ds(2) c(4) by (simp add: digits_number_snoc)
  then have split: "hi = digits_number ?buf * unat ten + (unat rest + j * unat ten)"
    by (simp add: hi algebra_simps)
  have "1 \<le> digit_val (hd ?buf)"
    using hd1 c(3) ds(2) by (cases ds) (auto simp: hd_append)
  then have "good_digits ?buf"
    using ds c(2,3) len17 by (auto simp: good_digits_def dest: in_set_butlastD)
  moreover have "grisu2_round ds distance delta rest ten = Inr ?buf"
    using c(1) ds(2) distance rest(2) pos by (simp add: grisu2_round_def word_le_nat_alt word_less_nat_alt Suc_le_eq)
  ultimately show thesis using that split c(5) ds(2) by simp
qed

section \<open>The digit generation\<close>

text \<open>The digits denote a number in the closed interval of the two bounds, in the unit \<open>10 ^ p\<close>.\<close>

definition in_bounds :: "nat \<Rightarrow> nat \<Rightarrow> nat \<Rightarrow> nat \<Rightarrow> int \<Rightarrow> bool" where
  "in_bounds s lo hi v p \<longleftrightarrow>
     lo * 10 ^ nat (- p) \<le> v * 10 ^ nat p * 2 ^ s \<and> v * 10 ^ nat p * 2 ^ s \<le> hi * 10 ^ nat (- p)"

lemma integral_case:
  assumes stop: "integral_stop s hi delta (Suc k) ds (n, rest, ten)" "all_digits ds" "ds \<noteq> []"
    and hi: "10 ^ k * 2 ^ s \<le> hi" "hi < 10 ^ 16 * unat delta" "unat delta \<le> hi" and distance: "distance \<le> delta"
  obtains buf where "grisu2_round ds distance delta rest ten = Inr buf" "good_digits buf" "n \<le> k"
    "in_bounds s (hi - unat delta) hi (digits_number buf) (int n)"
proof -
  have st: "n + length ds = Suc k" and ten: "unat ten = 10 ^ n * 2 ^ s"
    and split: "hi = digits_number ds * unat ten + unat rest" "unat rest < unat ten" "unat rest \<le> unat delta"
      "unat delta < unat rest + digit_val (last ds) * unat ten"
    using stop(1) unfolding integral_stop_def prod.case by blast+
  have len: "k = n + (length ds - 1)" using stop(3) st by (cases ds) auto
  have "10 ^ (length ds - 1) * unat ten = 10 ^ k * 2 ^ s" unfolding ten len by (simp add: power_add)
  then have "10 ^ (length ds - 1) * unat ten \<le> hi" using hi(1) by (simp only:)
  then obtain buf where buf: "grisu2_round ds distance delta rest ten = Inr buf" "good_digits buf"
      "digits_number buf * unat ten \<le> hi" "hi \<le> digits_number buf * unat ten + unat delta"
    using rounded_digits [OF stop(2,3) split _ hi(2)] distance unfolding word_le_nat_alt by blast
  have "in_bounds s (hi - unat delta) hi (digits_number buf) (int n)"
    using buf(3,4) hi(3) unfolding ten by (simp add: in_bounds_def algebra_simps)
  then show thesis using that buf(1,2) len by simp
qed

lemma fraction_case:
  assumes stop: "fraction_stop s p2 delta distance ds (rest, delta', distance')" "all_digits ds" "ds \<noteq> []"
    and int: "all_digits ds1" "length ds1 = Suc k" and s: "s \<le> 60" and distance: "distance \<le> delta"
    and hi: "hi = digits_number ds1 * 2 ^ s + unat p2" "10 ^ k * 2 ^ s \<le> hi" "hi < 10 ^ 16 * unat delta" "unat delta \<le> hi"
  obtains buf where "grisu2_round (ds1 @ ds) distance' delta' rest (push_bit s 1) = Inr buf" "good_digits buf" "length ds \<le> 16"
    "in_bounds s (hi - unat delta) hi (digits_number buf) (- int (length ds))"
proof -
  let ?m = "length ds"
  have scaled: "unat delta' = 10 ^ ?m * unat delta" "unat distance' = 10 ^ ?m * unat distance"
    and split: "10 ^ ?m * unat p2 = digits_number ds * 2 ^ s + unat rest"
    and rest: "unat rest < 2 ^ s" "unat rest \<le> unat delta'" "unat delta' < unat rest + digit_val (last ds) * 2 ^ s"
    using stop(1) unfolding fraction_stop_def prod.case by blast+
  have ten: "unat (push_bit s (1 :: 64 word)) = 2 ^ s"
    using unat_push [of 1 s] power_strict_increasing [of s 64 "2 :: nat"] s by simp
  have "10 ^ ?m * hi = 10 ^ ?m * (digits_number ds1 * 2 ^ s) + (digits_number ds * 2 ^ s + unat rest)"
    using split unfolding hi(1) by (simp add: distrib_left)
  also have "\<dots> = digits_number (ds1 @ ds) * unat (push_bit s (1 :: 64 word)) + unat rest"
    unfolding ten by (simp add: digits_number_append algebra_simps)
  finally have top: "10 ^ ?m * hi = digits_number (ds1 @ ds) * unat (push_bit s (1 :: 64 word)) + unat rest" .
  have "10 ^ (length (ds1 @ ds) - 1) * unat (push_bit s (1 :: 64 word)) = 10 ^ ?m * (10 ^ k * 2 ^ s)"
    unfolding ten using int(2) by (simp add: power_add)
  then have len: "10 ^ (length (ds1 @ ds) - 1) * unat (push_bit s (1 :: 64 word)) \<le> 10 ^ ?m * hi"
    using hi(2) by simp
  have "10 ^ ?m * hi < 10 ^ ?m * (10 ^ 16 * unat delta)" using hi(3) by simp
  then have "10 ^ ?m * hi < 10 ^ 16 * unat delta'" by (simp add: scaled mult.left_commute)
  note hi' = this
  have distance': "unat distance' \<le> unat delta'" using distance by (simp add: scaled word_le_nat_alt)
  have ds: "all_digits (ds1 @ ds)" "ds1 @ ds \<noteq> []" "last (ds1 @ ds) = last ds" using int(1) stop(2,3) by auto
  obtain buf where buf: "grisu2_round (ds1 @ ds) distance' delta' rest (push_bit s 1) = Inr buf" "good_digits buf"
      "length buf = length (ds1 @ ds)" "digits_number buf * 2 ^ s \<le> 10 ^ ?m * hi"
      "10 ^ ?m * hi \<le> digits_number buf * 2 ^ s + unat delta'"
    using rounded_digits [OF ds(1,2) top _ rest(2) _ len hi' distance'] rest(1,3) unfolding ds(3) ten by blast
  have "in_bounds s (hi - unat delta) hi (digits_number buf) (- int ?m)"
    using buf(4,5) hi(4) by (simp add: in_bounds_def scaled algebra_simps diff_mult_distrib)
  moreover have "?m \<le> 16" using buf(2,3) int(2) by (simp add: good_digits_def)
  ultimately show thesis using that buf(1,2) by blast
qed

lemma digit_gen_spec:
  assumes e: "fp_e M_minus = - int s" "fp_e w = - int s" "fp_e M_plus = - int s" "32 \<le> s" "s \<le> 60"
    and w: "fp_f M_minus \<le> fp_f w" "fp_f w \<le> fp_f M_plus" and pos: "0 < unat (fp_f M_minus)" "2 ^ s \<le> unat (fp_f M_plus)"
    and ratio: "unat (fp_f M_plus) < 10 ^ 16 * (unat (fp_f M_plus) - unat (fp_f M_minus))"
  obtains buf p where "grisu2_digit_gen exponent M_minus w M_plus = Inr (buf, exponent + p)" "good_digits buf"
    "- 16 \<le> p" "p \<le> 9" "in_bounds s (unat (fp_f M_minus)) (unat (fp_f M_plus)) (digits_number buf) p"
proof -
  let ?hi = "unat (fp_f M_plus)" and ?lo = "unat (fp_f M_minus)"
  define delta where "delta = fp_f M_plus - fp_f M_minus"
  define distance where "distance = fp_f M_plus - fp_f w"
  define p1 where "p1 = (ucast (drop_bit s (fp_f M_plus)) :: 32 word)"
  define p2 where "p2 = fp_f M_plus AND (push_bit s 1 - 1)"
  have delta: "unat delta = ?hi - ?lo" "unat delta \<le> ?hi" "?hi - unat delta = ?lo"
    using unat_diff [of "fp_f M_minus" "fp_f M_plus"] w by (simp_all add: delta_def word_le_nat_alt)
  have distance: "distance \<le> delta"
    using unat_diff [of "fp_f w" "fp_f M_plus"] delta(1) w by (simp add: distance_def word_le_nat_alt)
  have p1: "unat p1 = ?hi div 2 ^ s"
  proof -
    have "?hi < 2 ^ 32 * 2 ^ s"
      using unat_word64 [of "fp_f M_plus"] e(4) power_increasing [of 32 s "2 :: nat"] by simp
    then have "?hi div 2 ^ s < 2 ^ 32" by (simp add: less_mult_imp_div_less)
    then show ?thesis
      unfolding p1_def by (simp only: unsigned_ucast_eq unat_drop) (simp add: take_bit_nat_eq_self)
  qed
  have p2: "unat p2 = ?hi mod 2 ^ s" "unat p2 < 2 ^ s" by (simp_all only: p2_def unat_mask mod_less_divisor zero_less_power zero_less_numeral)
  have hi: "unat p1 * 2 ^ s + unat p2 = ?hi" by (simp only: p1 p2(1) div_mult_mod_eq)
  have "1 \<le> ?hi div 2 ^ s" using pos(2) by (simp add: Suc_le_eq div_greater_zero_iff)
  then have p1_pos: "0 < p1" by (simp add: word_less_nat_alt p1)
  obtain k pow10 where k: "find_largest_pow10 p1 = (Suc k, pow10)" "unat pow10 = 10 ^ k" "10 ^ k \<le> unat p1"
      "unat p1 < 10 ^ Suc k" "k \<le> 9"
    using find_largest_pow10_spec [OF p1_pos] by blast
  have "10 ^ k * 2 ^ s \<le> unat p1 * 2 ^ s" using k(3) by (rule mult_le_mono1)
  then have lead: "10 ^ k * 2 ^ s \<le> ?hi" using hi by linarith
  have ratio': "?hi < 10 ^ 16 * unat delta" using ratio by (simp add: delta(1))
  have go: "grisu2_digit_gen exponent M_minus w M_plus =
      rbind (integral_digits s p2 delta [] (Suc k) p1 pow10) (\<lambda>(buffer, stopped). case stopped of
        Some (n, rest, ten_n) \<Rightarrow> rbind (grisu2_round buffer distance delta rest ten_n) (\<lambda>buffer. Inr (buffer, exponent + int n))
      | None \<Rightarrow> check (p2 > delta) ''p2 > delta''
          (rbind (fractional_digits s buffer 0 p2 delta distance) (\<lambda>(buffer, m, p2, delta, distance).
           rbind (grisu2_round buffer distance delta p2 (push_bit s 1)) (\<lambda>buffer. Inr (buffer, exponent - int m)))))"
    using e(4,5) w p1_pos k(1) order_trans [OF w]
    unfolding grisu2_digit_gen_def Let_def diyfp_sub_def
    by (simp only: e(1-3) minus_minus nat_int kAlpha_def kGamma_def check_simps rbind_Inr diyfp.select_convs delta_def [symmetric]
        distance_def [symmetric] p1_def [symmetric] p2_def [symmetric] prod.case)
      (simp del: integral_digits.simps push_bit_of_1)
  have pre: "unat p1 * 2 ^ s + unat p2 < 2 ^ 64" "unat delta < unat p1 * 2 ^ s + unat p2"
    unfolding hi using unat_word64 delta(1) pos(1) by simp_all (use w in \<open>simp add: word_le_nat_alt\<close>)
  have "\<forall>n'. Suc k = Suc n' \<longrightarrow> unat pow10 = 10 ^ n'" using k(2) by simp
  from integral_digits_spec [OF k(4) this p2(2) pre, of "[]"] show thesis
    unfolding hi append_Nil
  proof (elim disjE exE conjE)
    fix ds st
    assume st: "integral_digits s p2 delta [] (Suc k) p1 pow10 = Inr (ds, Some st)" "all_digits ds" "ds \<noteq> []"
      "integral_stop s ?hi delta (Suc k) ds st"
    obtain n rest ten where st': "st = (n, rest, ten)" by (cases st) auto
    obtain buf where "grisu2_round ds distance delta rest ten = Inr buf" "good_digits buf" "n \<le> k"
        "in_bounds s ?lo ?hi (digits_number buf) (int n)"
      using integral_case [OF _ st(2,3) lead ratio' delta(2) distance] st(4) unfolding st' delta(3) by blast
    then show thesis using that [of buf "int n"] go st(1) st' k(5) by simp
  next
    fix ds1
    assume ds1: "integral_digits s p2 delta [] (Suc k) p1 pow10 = Inr (ds1, None)" "all_digits ds1" "length ds1 = Suc k"
      "unat p1 = digits_number ds1" "unat delta < unat p2"
    then have less: "delta < p2" by (simp add: word_less_nat_alt)
    obtain ds rest delta' distance' where ds: "fractional_digits s ds1 0 p2 delta distance = Inr (ds1 @ ds, 0 + length ds, rest, delta', distance')"
        "all_digits ds" "ds \<noteq> []" "fraction_stop s p2 delta distance ds (rest, delta', distance')"
      using fractional_digits_spec [OF p2(2) e(5) less distance, of ds1 0] by auto
    obtain buf where "grisu2_round (ds1 @ ds) distance' delta' rest (push_bit s 1) = Inr buf" "good_digits buf" "length ds \<le> 16"
        "in_bounds s ?lo ?hi (digits_number buf) (- int (length ds))"
      using fraction_case [OF ds(4,2,3) ds1(2,3) e(5) distance hi [symmetric, unfolded ds1(4)] lead ratio' delta(2)]
      unfolding delta(3) by blast
    then show thesis using that [of buf "- int (length ds)"] go ds1(1) less ds(1) by simp
  qed
qed

end
