(* ===== verification/Json_Dtoa_Correct.thy ===== *)
theory Json_Dtoa_Correct
  imports Json_Dtoa_Powers Json_Dtoa_Bounds Json_Dtoa_Digits
begin

text \<open>
  The parts of \<open>grisu2\<close> put together: scaling by a cached power, with the error of one unit on either side taken
  off the bounds, and the digits generated between them. The decimal number lies strictly between the midpoints to the
  neighbours of the \<open>double\<close>, and no assertion fails on the way.
\<close>

section \<open>Scaling\<close>

text \<open>The error of a scaled number is less than one unit of its last place.\<close>

definition scaled :: "diyfp \<Rightarrow> cached_power \<Rightarrow> diyfp" where
  "scaled x c = diyfp_mul x \<lparr>fp_f = cp_f c, fp_e = cp_e c\<rparr>"

lemma scaled_parts:
  "unat (fp_f (scaled x c)) = (unat (fp_f x) * unat (cp_f c) + 2 ^ 63) div 2 ^ 64"
  "fp_e (scaled x c) = fp_e x + cp_e c + 64"
  by (simp_all only: scaled_def mul_value diyfp.select_convs)

lemma rounded_quotient:
  fixes n :: nat
  shows "of_nat ((n + 2 ^ 63) div 2 ^ 64) * 2 ^ 64 \<le> (of_nat n + 2 ^ 63 :: rat)"
    "(of_nat n + 2 ^ 63 :: rat) < (of_nat ((n + 2 ^ 63) div 2 ^ 64) + 1) * 2 ^ 64"
proof -
  let ?q = "(n + 2 ^ 63) div 2 ^ 64"
  have "?q * 2 ^ 64 \<le> n + 2 ^ 63" by (rule div_times_less_eq_dividend)
  then have "(of_nat (?q * 2 ^ 64) :: rat) \<le> of_nat (n + 2 ^ 63)" by (simp only: of_nat_le_iff)
  then show "of_nat ?q * 2 ^ 64 \<le> (of_nat n + 2 ^ 63 :: rat)" by (simp only: of_nat_add of_nat_mult of_nat_power of_nat_numeral)
  have "n + 2 ^ 63 < 2 ^ 64 + ?q * 2 ^ 64" by (rule dividend_less_div_times) simp
  then have "n + 2 ^ 63 < (?q + 1) * 2 ^ 64" by simp
  then have "(of_nat (n + 2 ^ 63) :: rat) < of_nat ((?q + 1) * 2 ^ 64)" by (simp only: of_nat_less_iff)
  then show "(of_nat n + 2 ^ 63 :: rat) < (of_nat ?q + 1) * 2 ^ 64"
    by (simp only: of_nat_add of_nat_mult of_nat_power of_nat_numeral of_nat_1)
qed

lemma scaled_error:
  fixes U C :: nat and g :: rat
  assumes "\<bar>of_nat C - g\<bar> \<le> 1 / 2" "U < 2 ^ 64"
  shows "of_nat U * g < (of_nat ((U * C + 2 ^ 63) div 2 ^ 64) + 1) * 2 ^ 64"
    "(of_nat ((U * C + 2 ^ 63) div 2 ^ 64) - 1) * 2 ^ 64 < of_nat U * g"
proof -
  let ?w = "of_nat ((U * C + 2 ^ 63) div 2 ^ 64) :: rat" and ?u = "of_nat U :: rat"
  have u: "0 \<le> ?u" "?u < 2 ^ 64"
    using assms(2) by (simp, metis of_nat_less_iff of_nat_numeral of_nat_power)
  have "\<bar>?u * of_nat C - ?u * g\<bar> = ?u * \<bar>of_nat C - g\<bar>" using u(1) by (simp add: abs_mult right_diff_distrib [symmetric])
  also have "\<dots> \<le> ?u * (1 / 2)" using assms(1) u(1) by (rule mult_left_mono)
  finally have "\<bar>?u * of_nat C - ?u * g\<bar> < 2 ^ 63" using u(2) by simp
  moreover note rounded_quotient [of "U * C"]
  ultimately show "?u * g < (?w + 1) * 2 ^ 64" "(?w - 1) * 2 ^ 64 < ?u * g"
    unfolding of_nat_mult abs_less_iff distrib_right left_diff_distrib by simp_all
qed

lemma scaled_value:
  assumes "near_power (cp_f c) (cp_e c) (cp_k c)"
  shows "fp_value x * 10 powi cp_k c < (of_nat (unat (fp_f (scaled x c))) + 1) * 2 powi fp_e (scaled x c)"
    "(of_nat (unat (fp_f (scaled x c))) - 1) * 2 powi fp_e (scaled x c) < fp_value x * 10 powi cp_k c"
proof -
  let ?g = "exact_power (cp_e c) (cp_k c)" and ?s = "2 powi (fp_e x + cp_e c) :: rat"
  have exact: "fp_value x * 10 powi cp_k c = of_nat (unat (fp_f x)) * ?g * ?s"
    by (simp add: fp_value_def exact_power_def power_int_add power_int_minus)
  have "2 powi fp_e (scaled x c) = (2 ^ 64 :: rat) * ?s" unfolding scaled_parts(2) by (simp add: power_int_add)
  moreover have "0 < ?s" by (simp add: zero_less_power_int)
  moreover have "\<bar>of_nat (unat (cp_f c)) - ?g\<bar> \<le> 1 / 2" using assms by (simp add: near_power_def)
  note scaled_error [OF this unat_word64 [of "fp_f x"], folded scaled_parts(1)]
  ultimately show "fp_value x * 10 powi cp_k c < (of_nat (unat (fp_f (scaled x c))) + 1) * 2 powi fp_e (scaled x c)"
    "(of_nat (unat (fp_f (scaled x c))) - 1) * 2 powi fp_e (scaled x c) < fp_value x * 10 powi cp_k c"
    unfolding exact by (simp_all add: mult.assoc [symmetric] del: mult.assoc)
qed

text \<open>Scaling keeps numbers apart and in proportion.\<close>

lemma scaled_gap:
  assumes "2 ^ 63 \<le> unat (cp_f c)" "unat (fp_f x) + 2 * n \<le> unat (fp_f y)"
  shows "unat (fp_f (scaled x c)) + n \<le> unat (fp_f (scaled y c))"
proof -
  have "unat (fp_f x) * unat (cp_f c) + n * 2 ^ 64 = unat (fp_f x) * unat (cp_f c) + 2 * n * 2 ^ 63" by simp
  also have "\<dots> \<le> unat (fp_f x) * unat (cp_f c) + 2 * n * unat (cp_f c)"
    using assms(1) by (intro add_left_mono mult_le_mono2)
  also have "\<dots> = (unat (fp_f x) + 2 * n) * unat (cp_f c)" by (rule distrib_right [symmetric])
  also have "\<dots> \<le> unat (fp_f y) * unat (cp_f c)" using assms(2) by (rule mult_le_mono1)
  finally have le: "unat (fp_f x) * unat (cp_f c) + n * 2 ^ 64 + 2 ^ 63 \<le> unat (fp_f y) * unat (cp_f c) + 2 ^ 63" by simp
  have "unat (fp_f (scaled x c)) + n = (unat (fp_f x) * unat (cp_f c) + 2 ^ 63 + n * 2 ^ 64) div 2 ^ 64"
    unfolding scaled_parts by (simp add: add.commute)
  also have "\<dots> \<le> unat (fp_f (scaled y c))"
    unfolding scaled_parts using le by (intro div_le_mono) simp
  finally show ?thesis .
qed

lemma proportion:
  fixes a b x y :: rat
  assumes "b \<le> 2 ^ 53 * (b - a)" "x * 2 ^ 64 \<le> a + 2 ^ 63" "a + 2 ^ 63 < (x + 1) * 2 ^ 64"
    "y * 2 ^ 64 \<le> b + 2 ^ 63" "b + 2 ^ 63 < (y + 1) * 2 ^ 64"
  shows "y \<le> 2 ^ 53 * (y + 1 - x) + 1"
  using assms by simp

lemma scaled_ratio:
  assumes "unat (fp_f y) \<le> 2 ^ 53 * (unat (fp_f y) - unat (fp_f x))" "unat (fp_f x) \<le> unat (fp_f y)"
  shows "unat (fp_f (scaled y c)) \<le> 2 ^ 53 * (unat (fp_f (scaled y c)) + 1 - unat (fp_f (scaled x c))) + 1"
proof -
  let ?x = "unat (fp_f x)" and ?y = "unat (fp_f y)" and ?c = "unat (cp_f c)"
  let ?X = "of_nat (unat (fp_f (scaled x c))) :: rat" and ?Y = "of_nat (unat (fp_f (scaled y c))) :: rat"
  have le: "unat (fp_f (scaled x c)) \<le> unat (fp_f (scaled y c))"
    unfolding scaled_parts using assms(2) by (intro div_le_mono add_right_mono mult_le_mono1)
  have "?y * ?c \<le> 2 ^ 53 * (?y * ?c - ?x * ?c)"
    using mult_le_mono1 [OF assms(1), of ?c] by (simp add: diff_mult_distrib mult.assoc)
  then have "of_nat (?y * ?c) \<le> (of_nat (2 ^ 53 * (?y * ?c - ?x * ?c)) :: rat)" by (simp only: of_nat_le_iff)
  then have p: "of_nat (?y * ?c) \<le> (2 ^ 53 * (of_nat (?y * ?c) - of_nat (?x * ?c)) :: rat)"
    using assms(2) by (simp add: of_nat_diff)
  note q = rounded_quotient [of "?x * ?c", folded scaled_parts(1)] rounded_quotient [of "?y * ?c", folded scaled_parts(1)]
  have "?Y \<le> 2 ^ 53 * (?Y + 1 - ?X) + 1" by (rule proportion [OF p q])
  also have "\<dots> = of_nat (2 ^ 53 * (unat (fp_f (scaled y c)) + 1 - unat (fp_f (scaled x c))) + 1)"
    using le by (simp add: of_nat_diff)
  finally show ?thesis by (simp only: of_nat_le_iff)
qed

section \<open>Grisu2\<close>

text \<open>Bounds in the digit generation's integers are bounds of the number the digits denote.\<close>

lemma ten_powi: "(10 :: rat) powi p = 10 ^ nat p / 10 ^ nat (- p)"
proof (cases "0 \<le> p")
  case True
  then show ?thesis by (simp add: power_int_def)
next
  case False
  then show ?thesis by (simp add: power_int_def inverse_eq_divide power_one_over)
qed

lemma scale_both:
  fixes a b s l v h :: rat
  assumes "0 < a" "0 < s" "l * a \<le> v * b * s" "v * b * s \<le> h * a"
  shows "l * inverse s \<le> v * (b / a)" "v * (b / a) \<le> h * inverse s"
  using assms by (simp_all add: field_simps)

lemma in_bounds_value:
  assumes "in_bounds s lo hi v p"
  shows "of_nat lo * 2 powi (- int s) \<le> (of_nat v * 10 powi p :: rat)"
    "(of_nat v * 10 powi p :: rat) \<le> of_nat hi * 2 powi (- int s)"
proof -
  let ?a = "10 ^ nat (- p) :: rat" and ?b = "10 ^ nat p :: rat" and ?s = "2 ^ s :: rat"
  have p: "(10 :: rat) powi p = ?b / ?a" by (rule ten_powi)
  have "of_nat (lo * 10 ^ nat (- p)) \<le> (of_nat (v * 10 ^ nat p * 2 ^ s) :: rat)"
    "of_nat (v * 10 ^ nat p * 2 ^ s) \<le> (of_nat (hi * 10 ^ nat (- p)) :: rat)"
    using assms unfolding in_bounds_def by (simp_all only: of_nat_le_iff)
  then have "of_nat lo * ?a \<le> of_nat v * ?b * ?s" "of_nat v * ?b * ?s \<le> of_nat hi * ?a"
    by (simp_all only: of_nat_mult of_nat_power of_nat_numeral)
  then show "of_nat lo * 2 powi (- int s) \<le> (of_nat v * 10 powi p :: rat)"
    "(of_nat v * 10 powi p :: rat) \<le> of_nat hi * 2 powi (- int s)"
    unfolding p power_int_minus power_int_of_nat using scale_both [of ?a ?s "of_nat lo" "of_nat v" ?b "of_nat hi"] by simp_all
qed

lemma grisu2_nearest:
  assumes b: "isfinite b" "is_positive b"
  obtains buf E where "grisu2 b = Inr (buf, E)" "good_digits buf" "\<bar>E\<bar> \<le> 340"
    "between_midpoints (unat b) (of_nat (digits_number buf) * 10 powi E)"
proof -
  obtain w minus plus where bd: "compute_boundaries b = Inr \<lparr>bd_w = w, bd_minus = minus, bd_plus = plus\<rparr>"
    "fp_e minus = fp_e plus" "fp_e w = fp_e plus" "- 1137 \<le> fp_e plus" "fp_e plus \<le> 960"
    and mid: "2 * fp_value minus = magnitude (unat b - 1) + magnitude (unat b)"
      "2 * fp_value plus = magnitude (unat b) + magnitude (unat b + 1)"
    and gap: "unat (fp_f minus) + 512 \<le> unat (fp_f w)" "2 ^ 63 \<le> unat (fp_f w)"
      "unat (fp_f w) + 1024 \<le> unat (fp_f plus)"
      "unat (fp_f plus) \<le> 2 ^ 53 * (unat (fp_f plus) - unat (fp_f minus))"
    by (rule compute_boundaries_ok [OF b])
  obtain c where c: "get_cached_power_for_binary_exponent (fp_e plus) = Inr c" "near_power (cp_f c) (cp_e c) (cp_k c)"
    "- 60 \<le> cp_e c + fp_e plus + 64" "cp_e c + fp_e plus + 64 \<le> - 32" "\<bar>cp_k c\<bar> \<le> 324"
    by (rule cached_power_chosen [OF bd(4,5)])
  have norm: "2 ^ 63 \<le> unat (cp_f c)" using c(2) by (simp add: near_power_def)
  let ?M = "\<lparr>fp_f = fp_f (scaled minus c) + 1, fp_e = fp_e (scaled minus c)\<rparr>"
  let ?P = "\<lparr>fp_f = fp_f (scaled plus c) - 1, fp_e = fp_e (scaled plus c)\<rparr>"
  let ?m = "unat (fp_f (scaled minus c))" and ?w = "unat (fp_f (scaled w c))" and ?p = "unat (fp_f (scaled plus c))"
  have gaps: "?m + 256 \<le> ?w" "?w + 512 \<le> ?p"
    using scaled_gap [OF norm, of minus 256 w] scaled_gap [OF norm, of w 512 plus] gap(1,3) by simp_all
  have M: "unat (fp_f ?M) = ?m + 1"
    using gaps unat_word64 [of "fp_f (scaled w c)"] unat_add [of "fp_f (scaled minus c)" 1] by simp
  have P: "unat (fp_f ?P) = ?p - 1"
    using gaps unat_diff [of 1 "fp_f (scaled plus c)"] by (simp add: word_le_nat_alt)
  have "2 ^ 63 * 2 ^ 63 \<le> unat (fp_f w) * unat (cp_f c)" using gap(2) norm by (rule mult_le_mono)
  then have "(2 ^ 63 * 2 ^ 63 + 2 ^ 63) div 2 ^ 64 \<le> ?w" unfolding scaled_parts by (intro div_le_mono) simp
  then have w62: "2 ^ 62 \<le> ?w" by simp
  obtain s where s: "fp_e (scaled plus c) = - int s" "32 \<le> s" "s \<le> 60"
  proof
    show "fp_e (scaled plus c) = - int (nat (- fp_e (scaled plus c)))" "32 \<le> nat (- fp_e (scaled plus c))"
      "nat (- fp_e (scaled plus c)) \<le> 60"
      using c(3,4) unfolding scaled_parts(2) by simp_all
  qed
  have e: "fp_e (scaled minus c) = - int s" "fp_e (scaled w c) = - int s"
    using s(1) bd(2,3) by (simp_all add: scaled_parts(2))
  have "?p \<le> 2 ^ 53 * (?p + 1 - ?m) + 1" using scaled_ratio [OF gap(4)] gap(1,3) by simp
  then have ratio: "?p - 1 < 10 ^ 16 * (?p - 1 - (?m + 1))" using gaps by simp
  have "(2 :: nat) ^ s \<le> 2 ^ 60" using s(3) by (intro power_increasing) simp_all
  then have high: "2 ^ s \<le> ?p - 1" using w62 gaps(2) by simp
  obtain buf p where dg: "grisu2_digit_gen (- cp_k c) ?M (scaled w c) ?P = Inr (buf, - cp_k c + p)" "good_digits buf"
    "- 16 \<le> p" "p \<le> 9" "in_bounds s (?m + 1) (?p - 1) (digits_number buf) p"
  proof (rule digit_gen_spec [of ?M s "scaled w c" ?P "- cp_k c", unfolded M P])
    show "fp_f ?M \<le> fp_f (scaled w c)" "fp_f (scaled w c) \<le> fp_f ?P"
      unfolding word_le_nat_alt M P using gaps by simp_all
  qed (use s e high ratio in simp_all)
  have "grisu2 b = Inr (buf, - cp_k c + p)"
    using b bd(1-3) c(1) dg(1) by (simp add: grisu2_def grisu2_diyfp_def Let_def scaled_def [symmetric])
  moreover have "\<bar>- cp_k c + p\<bar> \<le> 340" using c(5) dg(3,4) by simp
  moreover have "between_midpoints (unat b) (of_nat (digits_number buf) * 10 powi (- cp_k c + p))"
  proof -
    let ?q = "of_nat (digits_number buf) * 10 powi (- cp_k c + p) :: rat" and ?k = "10 powi cp_k c :: rat"
    have pos: "0 < ?k" by (simp add: zero_less_power_int)
    have "(10 :: rat) powi p = 10 powi (- cp_k c + p) * ?k" by (simp flip: power_int_add)
    then have q: "of_nat (digits_number buf) * 10 powi p = ?q * ?k" by simp
    note b = in_bounds_value [OF dg(5), unfolded q]
    have "fp_value minus * ?k < of_nat (?m + 1) * 2 powi (- int s)"
      using scaled_value(1) [OF c(2), of minus] unfolding e(1) by (simp add: add.commute)
    also note b(1)
    finally have low: "fp_value minus < ?q" using pos by simp
    note b(2)
    also have "of_nat (?p - 1) * 2 powi (- int s) < fp_value plus * ?k"
      using scaled_value(2) [OF c(2), of plus] gaps unfolding s(1) by (simp add: of_nat_diff)
    finally have "?q < fp_value plus" using pos by simp
    then show ?thesis using low mid unfolding between_midpoints_def by linarith
  qed
  ultimately show thesis using that dg(2) by blast
qed

end
