(* ===== verification/Json_Float_Text.thy ===== *)
theory Json_Float_Text
  imports Json_Dtoa_Correct
begin

text \<open>
  The text \<open>to_chars\<close> writes: what decimal number it denotes, read with the grammar the lexer
  reads numbers with.
\<close>

lemma digits_value_number: "digits_value ds = digits_number ds"
  by (simp add: digits_value_def digits_number_def)

section \<open>The parts of a decimal text\<close>

lemma digit_no_sign: "is_digit c \<Longrightarrow> c \<noteq> CHR ''-'' \<and> c \<noteq> CHR ''+'' \<and> c \<noteq> CHR ''.'' \<and> c \<noteq> CHR ''e''"
  by (auto simp: is_digit_def)

definition stops_digits :: "bytes \<Rightarrow> bool" where
  "stops_digits rest \<longleftrightarrow> rest = [] \<or> \<not> is_digit (hd rest)"

lemma digits_split:
  assumes "all_digits ds" "stops_digits rest"
  shows "takeWhile is_digit (ds @ rest) = ds" "dropWhile is_digit (ds @ rest) = rest"
  using assms by (cases rest; simp add: stops_digits_def)+

lemma decimal_parts_point:
  assumes "all_digits w" "w \<noteq> []" "all_digits f" "stops_digits rest"
  shows "decimal_parts (w @ CHR ''.'' # f @ rest) =
    (digits_number (w @ f), exponent_value (drop 1 rest) - int (length f))"
proof -
  obtain c cs where w: "w = c # cs" using assms(2) by (cases w) auto
  have "c \<noteq> CHR ''-''" using assms(1) digit_no_sign [of c] by (simp add: w)
  moreover have "stops_digits (CHR ''.'' # f @ rest)" by (simp add: stops_digits_def is_digit_def)
  note digits_split [OF assms(1) this] digits_split [OF assms(3,4)]
  ultimately show ?thesis
    unfolding decimal_parts_def Let_def by (simp add: w digits_value_number)
qed

lemma decimal_parts_plain:
  assumes "all_digits w" "w \<noteq> []"
  shows "decimal_parts (w @ CHR ''e'' # ex) = (digits_number w, exponent_value ex)"
proof -
  obtain c cs where w: "w = c # cs" using assms(2) by (cases w) auto
  have "c \<noteq> CHR ''-''" using assms(1) digit_no_sign [of c] by (simp add: w)
  moreover have "stops_digits (CHR ''e'' # ex)" by (simp add: stops_digits_def is_digit_def)
  note digits_split [OF assms(1) this]
  ultimately show ?thesis
    unfolding decimal_parts_def Let_def by (simp add: w digits_value_number)
qed

section \<open>The exponent\<close>

lemma append_exponent_value:
  assumes "\<bar>e\<bar> < 1000"
  obtains ex where "append_exponent e = Inr ex" "exponent_value ex = e" "length ex \<le> 4"
    "\<exists>c d ds. ex = c # d # ds \<and> (c = CHR ''+'' \<or> c = CHR ''-'') \<and> all_digits (d # ds)"
proof -
  define k where "k = nat \<bar>e\<bar>"
  have k: "k < 1000" using assms by (simp add: k_def)
  define ds where "ds = (if k < 10 then [CHR ''0'', byte_of (48 + k)]
        else if k < 100 then [byte_of (48 + k div 10), byte_of (48 + k mod 10)]
        else [byte_of (48 + k div 100), byte_of (48 + k mod 100 div 10), byte_of (48 + k mod 100 mod 10)])"
  have d0: "is_digit (CHR ''0'') \<and> digit_val (CHR ''0'') = 0" by (simp add: is_digit_def digit_val_def)
  have small: "k div 100 \<le> 9" "k mod 100 div 10 \<le> 9" "k mod 100 mod 10 \<le> 9" "k mod 10 \<le> 9"
    using k by linarith+
  have "all_digits ds \<and> digits_number ds = k"
  proof -
    consider "k < 10" | "10 \<le> k" "k < 100" | "100 \<le> k" by linarith
    then show ?thesis
    proof cases
      case 1
      then show ?thesis using d0 digit_byte [of k] by (simp add: ds_def digits_number_Cons)
    next
      case 2
      then have "k div 10 \<le> 9" by simp
      then show ?thesis using 2 digit_byte [of "k div 10"] digit_byte [of "k mod 10"] small
        by (simp add: ds_def digits_number_Cons)
    next
      case 3
      then show ?thesis
        using digit_byte [of "k div 100"] digit_byte [of "k mod 100 div 10"] digit_byte [of "k mod 100 mod 10"] small
        by (simp add: ds_def digits_number_Cons)
    qed
  qed
  then have ds: "all_digits ds" "digits_number ds = k" by blast+
  let ?c = "if e < 0 then CHR ''-'' else CHR ''+''"
  have "- 1000 < e" "e < 1000" using assms by linarith+
  then have "append_exponent e = Inr (?c # ds)"
    by (simp add: append_exponent_def Let_def k_def [symmetric] ds_def)
  moreover have "exponent_value (?c # ds) = e"
    using ds(2) by (simp add: exponent_value_def digits_value_number k_def)
  moreover have "length (?c # ds) \<le> 4" "\<exists>d ds'. ds = d # ds'" by (simp_all add: ds_def)
  ultimately show thesis using that ds(1) by auto
qed

section \<open>The shape of the text\<close>

text \<open>Digits without a leading zero, then a fraction or an exponent or both.\<close>

definition literal_parts :: "bytes \<Rightarrow> bytes \<Rightarrow> bytes \<Rightarrow> bool" where
  "literal_parts w f ex \<longleftrightarrow> all_digits (w @ f) \<and> w \<noteq> [] \<and> (hd w = CHR ''0'' \<longrightarrow> tl w = []) \<and> (f \<noteq> [] \<or> ex \<noteq> []) \<and>
     (ex = [] \<or> (\<exists>c d ds. ex = CHR ''e'' # c # d # ds \<and> (c = CHR ''+'' \<or> c = CHR ''-'') \<and> all_digits (d # ds)))"

definition literal_text :: "bytes \<Rightarrow> bytes \<Rightarrow> bytes \<Rightarrow> bytes" where
  "literal_text w f ex = w @ (if f = [] then [] else CHR ''.'' # f) @ ex"

definition unsigned_value :: "bytes \<Rightarrow> rat" where
  "unsigned_value s = (let (m, e) = decimal_parts s in of_nat m * 10 powi e)"

lemma literal_value:
  assumes "literal_parts w f ex"
  shows "unsigned_value (literal_text w f ex) =
    of_nat (digits_number (w @ f)) * 10 powi (exponent_value (drop 1 ex) - int (length f))"
proof (cases "f = []")
  case True
  then obtain x where "ex = CHR ''e'' # x" using assms by (auto simp: literal_parts_def)
  then show ?thesis
    using True assms decimal_parts_plain [of w x] by (simp add: literal_text_def literal_parts_def unsigned_value_def)
next
  case False
  have "stops_digits ex" using assms by (auto simp: literal_parts_def stops_digits_def is_digit_def)
  then show ?thesis
    using False assms decimal_parts_point [of w f ex]
    by (simp add: literal_text_def literal_parts_def unsigned_value_def)
qed

definition same_number :: "nat \<Rightarrow> int \<Rightarrow> nat \<Rightarrow> int \<Rightarrow> bool" where
  "same_number m x v E \<longleftrightarrow> of_nat m * (10 :: rat) powi x = of_nat v * 10 powi E"

lemma digits_number_zeros: "digits_number (replicate n (CHR ''0'')) = 0"
  by (induction n) (simp_all add: digits_number_Cons digit_val_def)

lemma same_number_shift: "same_number (v * 10 ^ n) (E - int n) v E"
  by (simp add: same_number_def power_int_diff)

text \<open>The four layouts.\<close>

lemma format_buffer_literal:
  assumes good: "good_digits buf" and E: "\<bar>E\<bar> \<le> 340"
  obtains w f ex where "format_buffer buf E (- 4) 15 = Inr (literal_text w f ex)" "literal_parts w f ex"
    "length (literal_text w f ex) \<le> 23"
    "same_number (digits_number (w @ f)) (exponent_value (drop 1 ex) - int (length f)) (digits_number buf) E"
proof -
  have buf: "all_digits buf" "buf \<noteq> []" "length buf \<le> 17" "1 \<le> digit_val (hd buf)"
    using good by (simp_all add: good_digits_def)
  have hd0: "hd buf \<noteq> CHR ''0''" using buf(4) by (auto simp: digit_val_def)
  have zero: "is_digit (CHR ''0'')" "digit_val (CHR ''0'') = 0" by (simp_all add: is_digit_def digit_val_def)
  let ?k = "int (length buf)"
  let ?n = "?k + E"
  consider (whole) "?k \<le> ?n" "?n \<le> 15" | (inner) "0 < ?n" "?n < ?k" "?n \<le> 15"
    | (small) "- 4 < ?n" "?n \<le> 0" | (exponent) "?n \<le> - 4 \<or> 15 < ?n"
    by linarith
  then show thesis
  proof cases
    case whole
    let ?z = "nat (?n - ?k)"
    let ?w = "buf @ replicate ?z (CHR ''0'')"
    have "format_buffer buf E (- 4) 15 = Inr (literal_text ?w ''0'' [])"
      using whole by (simp add: format_buffer_def literal_text_def Let_def)
    moreover have "literal_parts ?w ''0'' []" using buf hd0 zero by (auto simp: literal_parts_def)
    moreover have "length (literal_text ?w ''0'' []) \<le> 23" using whole by (simp add: literal_text_def)
    moreover have "digits_number (?w @ ''0'') = digits_number buf * 10 ^ Suc ?z"
      using digits_number_zeros [of "Suc ?z"] by (simp add: digits_number_append digits_number_Cons zero digits_number_zeros)
    then have "same_number (digits_number (?w @ ''0'')) (exponent_value (drop 1 []) - int (length ''0'')) (digits_number buf) E"
      using same_number_shift [of "digits_number buf" "Suc ?z" E] whole by (simp add: exponent_value_def)
    ultimately show thesis by (rule that)
  next
    case inner
    let ?w = "take (nat ?n) buf" and ?f = "drop (nat ?n) buf"
    have f: "?f \<noteq> []" "?w \<noteq> []" "hd ?w = hd buf" using inner buf(2) by simp_all
    have "format_buffer buf E (- 4) 15 = Inr (literal_text ?w ?f [])"
      using inner f(1) by (simp add: format_buffer_def literal_text_def Let_def)
    moreover have "literal_parts ?w ?f []" using buf hd0 f by (simp add: literal_parts_def)
    moreover have "length (literal_text ?w ?f []) \<le> 23" using buf(3) by (simp add: literal_text_def)
    moreover have "same_number (digits_number (?w @ ?f)) (exponent_value (drop 1 []) - int (length ?f)) (digits_number buf) E"
      using inner by (simp add: exponent_value_def same_number_def)
    ultimately show thesis by (rule that)
  next
    case small
    let ?f = "replicate (nat (- ?n)) (CHR ''0'') @ buf"
    have "1 \<le> ?k" using buf(2) by (cases buf) simp_all
    then have "E < 0" using small by linarith
    then have "format_buffer buf E (- 4) 15 = Inr (literal_text ''0'' ?f [])"
      using small buf(2) by (simp add: format_buffer_def literal_text_def Let_def)
    moreover have "literal_parts ''0'' ?f []" using buf zero by (auto simp: literal_parts_def)
    moreover have "length (literal_text ''0'' ?f []) \<le> 23"
    proof -
      have "length (literal_text ''0'' ?f []) = 2 + (nat (- ?n) + length buf)" using buf(2) by (simp add: literal_text_def)
      moreover have "nat (- ?n) \<le> 3" using small by simp
      ultimately show ?thesis using buf(3) by linarith
    qed
    moreover have "same_number (digits_number (''0'' @ ?f)) (exponent_value (drop 1 []) - int (length ?f)) (digits_number buf) E"
      using small by (simp add: exponent_value_def same_number_def digits_number_append digits_number_Cons digits_number_zeros zero)
    ultimately show thesis by (rule that)
  next
    case exponent
    have "\<bar>?n - 1\<bar> < 1000" using E buf(3) by linarith
    then obtain ex where ex: "append_exponent (?n - 1) = Inr ex" "exponent_value ex = ?n - 1" "length ex \<le> 4"
        "\<exists>c d ds. ex = c # d # ds \<and> (c = CHR ''+'' \<or> c = CHR ''-'') \<and> all_digits (d # ds)"
      by (rule append_exponent_value)
    let ?w = "take 1 buf" and ?f = "drop 1 buf" and ?e = "CHR ''e'' # ex"
    obtain c cs where c: "buf = c # cs" using buf(2) by (cases buf) auto
    have "format_buffer buf E (- 4) 15 = Inr (literal_text ?w ?f ?e)"
      using exponent ex(1) by (auto simp: format_buffer_def literal_text_def Let_def c)
    moreover have "literal_parts ?w ?f ?e" using buf(1) ex(4) by (simp add: literal_parts_def c)
    moreover have "length (literal_text ?w ?f ?e) \<le> 23" using buf(3) ex(3) by (simp add: literal_text_def c)
    moreover have "same_number (digits_number (?w @ ?f)) (exponent_value (drop 1 ?e) - int (length ?f)) (digits_number buf) E"
      using ex(2) by (simp add: same_number_def c)
    ultimately show thesis by (rule that)
  qed
qed

section \<open>The text of a \<open>double\<close>\<close>

text \<open>The number a text denotes, with its sign.\<close>

definition text_value :: "bytes \<Rightarrow> rat" where
  "text_value s = (if take 1 s = ''-'' then - unsigned_value s else unsigned_value s)"

definition float_literal :: "bytes \<Rightarrow> bool" where
  "float_literal s \<longleftrightarrow> (\<exists>sign w f ex. s = sign @ literal_text w f ex \<and> (sign = [] \<or> sign = ''-'') \<and> literal_parts w f ex)"

lemma literal_text_first:
  assumes "literal_parts w f ex"
  obtains c cs where "literal_text w f ex = c # cs" "is_digit c"
  using assms by (cases w) (auto simp: literal_parts_def literal_text_def)

lemma signed_literal_value:
  assumes "literal_parts w f ex"
  shows "text_value (literal_text w f ex) = unsigned_value (literal_text w f ex)"
    "text_value (CHR ''-'' # literal_text w f ex) = - unsigned_value (literal_text w f ex)"
proof -
  obtain c cs where c: "literal_text w f ex = c # cs" "is_digit c" by (rule literal_text_first [OF assms])
  then have "c \<noteq> CHR ''-''" using digit_no_sign by simp
  then show "text_value (literal_text w f ex) = unsigned_value (literal_text w f ex)"
    "text_value (CHR ''-'' # literal_text w f ex) = - unsigned_value (literal_text w f ex)"
    by (simp_all add: text_value_def unsigned_value_def decimal_parts_def c(1) Let_def)
qed

lemma zero_literal: "literal_text ''0'' ''0'' [] = ''0.0''" "literal_parts ''0'' ''0'' []" "unsigned_value ''0.0'' = 0"
proof -
  show t: "literal_text ''0'' ''0'' [] = ''0.0''" by (simp add: literal_text_def)
  show p: "literal_parts ''0'' ''0'' []" by (simp add: literal_parts_def is_digit_def)
  show "unsigned_value ''0.0'' = 0"
    using literal_value [OF p] unfolding t by (simp add: digits_number_Cons digit_val_def)
qed

lemma positive_text:
  assumes "\<not> signbit a" "isfinite a" "22 < room"
  obtains w f ex where "unsigned_to_chars room a = Inr (literal_text w f ex)" "literal_parts w f ex"
    "length (literal_text w f ex) \<le> 23"
    "if a = 0 then unsigned_value (literal_text w f ex) = 0
     else between_midpoints (unat a) (unsigned_value (literal_text w f ex))"
proof (cases "a = 0")
  case True
  then show thesis using assms zero_literal by (intro that [of "''0''" "''0''" "[]"]) (simp_all add: unsigned_to_chars_def)
next
  case False
  then have "is_positive a" using assms(1) by (simp add: is_positive_def)
  then obtain buf E where g: "grisu2 a = Inr (buf, E)" "good_digits buf" "\<bar>E\<bar> \<le> 340"
      "between_midpoints (unat a) (of_nat (digits_number buf) * 10 powi E)"
    using grisu2_nearest [OF assms(2)] by blast
  obtain w f ex where t: "format_buffer buf E (- 4) 15 = Inr (literal_text w f ex)" "literal_parts w f ex"
      "length (literal_text w f ex) \<le> 23"
      "same_number (digits_number (w @ f)) (exponent_value (drop 1 ex) - int (length f)) (digits_number buf) E"
    by (rule format_buffer_literal [OF g(2,3)])
  have "unsigned_to_chars room a = Inr (literal_text w f ex)"
    using assms False g(1,2) t(1) by (simp add: unsigned_to_chars_def Let_def good_digits_def)
  moreover have "unsigned_value (literal_text w f ex) = of_nat (digits_number buf) * 10 powi E"
    using t(4) by (simp only: literal_value [OF t(2)] same_number_def)
  ultimately show thesis using that t(2,3) g(4) False by simp
qed

lemma dump_float_literal:
  assumes "isfinite b"
  obtains w f ex where "dump_float b = Inr ((if signbit b then ''-'' else []) @ literal_text w f ex)" "literal_parts w f ex"
    "length (literal_text w f ex) \<le> 23"
    "if unsigned_bits b = 0 then unsigned_value (literal_text w f ex) = 0
     else between_midpoints (unat (unsigned_bits b)) (unsigned_value (literal_text w f ex))"
proof -
  let ?room = "if signbit b then 63 else 64 :: int"
  have room: "22 < ?room" by simp
  have fin: "isfinite (unsigned_bits b)" using assms by (simp add: unsigned_bits_finite)
  obtain w f ex where t: "unsigned_to_chars ?room (unsigned_bits b) = Inr (literal_text w f ex)" "literal_parts w f ex"
    "length (literal_text w f ex) \<le> 23"
    "if unsigned_bits b = 0 then unsigned_value (literal_text w f ex) = 0
     else between_midpoints (unat (unsigned_bits b)) (unsigned_value (literal_text w f ex))"
    by (rule positive_text [OF unsigned_bits_sign fin room])
  have "double_to_chars 64 b = Inr ((if signbit b then ''-'' else []) @ literal_text w f ex)"
    using assms t(1) by (simp add: double_to_chars_def unsigned_bits_def split: if_splits)
  then show thesis using that t assms by (simp add: dump_float_def)
qed

section \<open>\<open>strtod\<close> finds the nearest \<open>double\<close>\<close>

lemma powi_times: "(2 :: rat) powi (int a - int b) * 2 ^ b = 2 ^ a"
  by (simp add: power_int_diff)

lemma scaled_magnitude_value: "of_nat (scaled_magnitude n) = magnitude n * 2 ^ 1075"
proof -
  have e: "int (max 1 (n div 2 ^ 52)) - 1075 = int (max 1 (n div 2 ^ 52)) - int 1075" by (simp only: of_nat_numeral)
  show ?thesis
    unfolding magnitude_def step_size_def scaled_magnitude_def e mult.assoc powi_times by (simp only: of_nat_mult of_nat_power of_nat_numeral)
qed

lemma cross_multiply:
  fixes u v A B P q :: rat
  assumes "0 < A" "0 < P" "v = q * (B / A)"
  shows "u * P * A < 2 * q * B * P \<longleftrightarrow> u < 2 * v" "u * P * A = 2 * q * B * P \<longleftrightarrow> u = 2 * v"
proof -
  have "2 * q * B * P = 2 * v * (P * A)" "u * P * A = u * (P * A)" using assms(1,3) by simp_all
  then show "u * P * A < 2 * q * B * P \<longleftrightarrow> u < 2 * v" "u * P * A = 2 * q * B * P \<longleftrightarrow> u = 2 * v"
    using assms(1,2) by simp_all
qed

lemma reaches_iff:
  "reaches m e n \<longleftrightarrow> magnitude (n - 1) + magnitude n < 2 * (of_nat m * 10 powi e) \<or>
     magnitude (n - 1) + magnitude n = 2 * (of_nat m * 10 powi e) \<and> even n"
proof -
  let ?A = "10 ^ nat (- e) :: rat" and ?B = "10 ^ nat e :: rat" and ?P = "2 ^ 1075 :: rat"
  let ?mid = "(scaled_magnitude (n - 1) + scaled_magnitude n) * 10 ^ nat (- e)" and ?two = "2 * m * 10 ^ nat e * 2 ^ 1075"
  have pos: "0 < ?A" "0 < ?P" by (simp_all only: zero_less_power zero_less_numeral)
  have q: "of_nat m * 10 powi e = of_nat m * (?B / ?A)" by (simp only: ten_powi)
  have mid: "(of_nat ?mid :: rat) = (magnitude (n - 1) + magnitude n) * ?P * ?A"
    by (simp only: of_nat_mult of_nat_add of_nat_power of_nat_numeral scaled_magnitude_value distrib_right)
  have two: "(of_nat ?two :: rat) = 2 * of_nat m * ?B * ?P"
    by (simp only: of_nat_mult of_nat_power of_nat_numeral)
  have "?mid < ?two \<longleftrightarrow> (of_nat ?mid :: rat) < of_nat ?two" "?mid = ?two \<longleftrightarrow> (of_nat ?mid :: rat) = of_nat ?two"
    by (simp_all only: of_nat_less_iff of_nat_eq_iff)
  then show ?thesis
    unfolding mid two cross_multiply [OF pos q] reaches_def Let_def by blast
qed

text \<open>The search: what is reached is closed downwards.\<close>

lemma nearest_bits_spec:
  assumes down: "\<And>j k. 0 < j \<Longrightarrow> j \<le> k \<Longrightarrow> reaches m e k \<Longrightarrow> reaches m e j"
    and "\<forall>k \<ge> n + 2 ^ i. \<not> (k \<le> infinity_bits \<and> reaches m e k)" "n = 0 \<or> (n \<le> infinity_bits \<and> reaches m e n)"
  shows "(nearest_bits i m e n = 0 \<or> (nearest_bits i m e n \<le> infinity_bits \<and> reaches m e (nearest_bits i m e n))) \<and>
    (\<forall>k > nearest_bits i m e n. \<not> (k \<le> infinity_bits \<and> reaches m e k))"
  using assms(2,3)
proof (induction i arbitrary: n)
  case 0
  then show ?case by (simp add: Suc_le_eq)
next
  case (Suc i)
  let ?k = "n + 2 ^ i"
  show ?case
  proof (cases "?k \<le> infinity_bits \<and> reaches m e ?k")
    case True
    then have eq: "nearest_bits (Suc i) m e n = nearest_bits i m e ?k" by simp
    have "\<forall>k \<ge> ?k + 2 ^ i. \<not> (k \<le> infinity_bits \<and> reaches m e k)" using Suc.prems(1) by simp
    from Suc.IH [OF this disjI2 [OF True]] show ?thesis unfolding eq .
  next
    case False
    then have eq: "nearest_bits (Suc i) m e n = nearest_bits i m e n" by auto
    have "\<forall>k \<ge> ?k. \<not> (k \<le> infinity_bits \<and> reaches m e k)"
      using False down [of ?k] by (auto dest: le_trans)
    from Suc.IH [OF this Suc.prems(2)] show ?thesis unfolding eq .
  qed
qed

lemma reaches_downwards:
  assumes "0 < j" "j \<le> k" "reaches m e k" shows "reaches m e j"
proof (cases "j = k")
  case False
  then have "magnitude (j - 1) + magnitude j < magnitude (k - 1) + magnitude k"
    using assms(1,2) by (intro add_strict_mono magnitude_strict_mono) simp_all
  then show ?thesis using assms(3) unfolding reaches_iff by auto
qed (use assms(3) in simp)

lemma nearest_bits_unique:
  assumes "n = 0 \<or> reaches m e n" "\<not> reaches m e (n + 1)" "n \<le> infinity_bits"
  shows "nearest_bits 63 m e 0 = n"
proof -
  let ?r = "nearest_bits 63 m e 0"
  have "infinity_bits < 2 ^ 63" by (simp add: infinity_bits_def)
  then have "(?r = 0 \<or> (?r \<le> infinity_bits \<and> reaches m e ?r)) \<and> (\<forall>k > ?r. \<not> (k \<le> infinity_bits \<and> reaches m e k))"
    using reaches_downwards by (intro nearest_bits_spec) auto
  moreover have "\<not> n < ?r" if "reaches m e ?r" using reaches_downwards [of "n + 1" ?r m e] assms(2) that by auto
  ultimately show ?thesis using assms(1,3) by (metis gr0I linorder_neqE_nat)
qed

lemma finite_below_infinity: "isfinite b \<Longrightarrow> unat (unsigned_bits b) < infinity_bits"
proof -
  assume "isfinite b"
  then have "unat (unsigned_bits b) div 2 ^ 52 < 2047"
    using isfinite_iff [OF unsigned_bits_sign [of b]] by (simp add: unsigned_bits_finite)
  then show ?thesis unfolding infinity_bits_def by (simp only: div_less_iff_less_mult zero_less_power zero_less_numeral)
qed

lemma strtod_literal:
  assumes "literal_parts w f ex" "isfinite b"
    and "if unsigned_bits b = 0 then unsigned_value (literal_text w f ex) = 0
      else between_midpoints (unat (unsigned_bits b)) (unsigned_value (literal_text w f ex))"
  shows "strtod ((if signbit b then ''-'' else []) @ literal_text w f ex) = b"
proof -
  let ?t = "literal_text w f ex" and ?n = "unat (unsigned_bits b)"
  obtain m e where me: "decimal_parts ?t = (m, e)" by (cases "decimal_parts ?t")
  have q: "unsigned_value ?t = of_nat m * 10 powi e" by (simp add: unsigned_value_def me)
  have "(?n = 0 \<or> reaches m e ?n) \<and> \<not> reaches m e (?n + 1)"
  proof (cases "unsigned_bits b = 0")
    case True
    then show ?thesis using assms(3) magnitude_strict_mono [of 0 1] unfolding reaches_iff q by simp
  next
    case False
    then show ?thesis using assms(3) unfolding reaches_iff q between_midpoints_def by auto
  qed
  then have n: "nearest_bits 63 m e 0 = ?n"
    using finite_below_infinity [OF assms(2)] by (intro nearest_bits_unique) auto
  obtain c cs where c: "?t = c # cs" "is_digit c" by (rule literal_text_first [OF assms(1)])
  then have c': "c \<noteq> CHR ''-''" using digit_no_sign by simp
  have "decimal_parts (CHR ''-'' # ?t) = (m, e)" using me c' by (simp add: decimal_parts_def c(1) Let_def)
  then show ?thesis
    using me n c c' by (auto simp: strtod_def unsigned_bits_def negated_def xor.assoc)
qed

text \<open>C22: the text of a \<open>double\<close>. For every finite number no assertion of the conversion fails and no
  operation of it wraps around; the text has at most 24 bytes, is a number as JSON has them, with a
  fraction or an exponent, and begins with a minus sign exactly if the number has one. The decimal number
  it denotes is nearer to the \<open>double\<close> than to any other, so that reading it back with
  \<open>strtod\<close> gives the same number, zeros with their sign included.\<close>

theorem float_text_nearest:
  assumes "isfinite b"
  shows "\<exists>t. dump_float b = Inr t \<and> length t \<le> 24 \<and> float_literal t \<and> (take 1 t = ''-'' \<longleftrightarrow> signbit b) \<and> strtod t = b \<and>
    (\<forall>c. value_of c \<noteq> value_of b \<longrightarrow> \<bar>text_value t - value_of b\<bar> < \<bar>text_value t - value_of c\<bar>)"
proof -
  let ?n = "unat (unsigned_bits b)"
  obtain w f ex where t: "dump_float b = Inr ((if signbit b then ''-'' else []) @ literal_text w f ex)" "literal_parts w f ex"
    "length (literal_text w f ex) \<le> 23"
    "if unsigned_bits b = 0 then unsigned_value (literal_text w f ex) = 0
     else between_midpoints ?n (unsigned_value (literal_text w f ex))"
    by (rule dump_float_literal [OF assms])
  let ?t = "(if signbit b then ''-'' else []) @ literal_text w f ex" and ?q = "unsigned_value (literal_text w f ex)"
  obtain c cs where c: "literal_text w f ex = c # cs" "is_digit c" by (rule literal_text_first [OF t(2)])
  have val: "text_value ?t = (if signbit b then - ?q else ?q)" using signed_literal_value [OF t(2)] by simp
  have near: "\<bar>?q - magnitude ?n\<bar> < \<bar>?q - x\<bar>" if "x = magnitude m \<or> x = - magnitude m" "x \<noteq> magnitude ?n" for x m
  proof (cases "unsigned_bits b = 0")
    case False
    then show ?thesis using t(4) between_midpoints_nearest [OF _ _ that] by (simp add: unat_gt_0)
  qed (use t(4) that in auto)
  have "\<bar>text_value ?t - value_of b\<bar> < \<bar>text_value ?t - value_of d\<bar>" if "value_of d \<noteq> value_of b" for d
  proof -
    let ?x = "if signbit b then - value_of d else value_of d"
    have "?x = magnitude (unat (unsigned_bits d)) \<or> ?x = - magnitude (unat (unsigned_bits d))"
      by (simp add: value_of_magnitude [of d])
    moreover have "?x \<noteq> magnitude ?n" using that by (auto simp: value_of_magnitude [of b])
    ultimately have "\<bar>?q - magnitude ?n\<bar> < \<bar>?q - ?x\<bar>" by (rule near)
    then show ?thesis unfolding val value_of_magnitude [of b] by (auto split: if_splits)
  qed
  moreover have "float_literal ?t" unfolding float_literal_def
    using t(2) by (intro exI [of _ "if signbit b then ''-'' else []"] exI [of _ w] exI [of _ f] exI [of _ ex]) simp
  moreover have "take 1 ?t = ''-'' \<longleftrightarrow> signbit b" using c digit_no_sign [OF c(2)] by simp
  moreover have "strtod ?t = b" by (rule strtod_literal [OF t(2) assms t(4)])
  ultimately show ?thesis using t(1,3) by (intro exI [of _ ?t]) simp
qed

lemma float_text_nearest_witness: "\<exists>t. dump_float 0x3FB999999999999A = Inr t \<and> strtod t = 0x3FB999999999999A"
proof -
  have "isfinite 0x3FB999999999999A" by (simp add: isfinite_def)
  then show ?thesis using float_text_nearest [of "0x3FB999999999999A"] by blast
qed

end
