(* ===== verification/Json_Float_Tokens.thy ===== *)
theory Json_Float_Tokens
  imports Json_Tokens Json_Float_Text
begin

text \<open>
  The lexer on a number with a fraction or an exponent: the state machine of \<open>scan_number\<close>
  accepts the whole text as one token of kind \<open>value_float\<close>, whose value is that of
  \<open>strtod\<close>.
\<close>

section \<open>The end of the number\<close>

definition float_token :: "token_type \<times> lexer \<Rightarrow> bytes \<Rightarrow> bytes \<Rightarrow> bool" where
  "float_token r s rest \<longleftrightarrow> (\<exists>lx. r = (value_float, lx) \<and> reads lx rest \<and> lex_float lx = strtod s)"

lemma scan_number_done_float:
  assumes "reads l rest" "token_buffer l = s"
  shows "float_token (scan_number_done value_float (lex_get l)) s rest"
  using reads_unget [OF assms(1)] assms(2)
  by (auto simp: float_token_def scan_number_done_def Let_def split: option.split)

section \<open>The exponent\<close>

lemma scan_exponent:
  assumes "reads l (c # d # ds @ rest)" "c = CHR ''+'' \<or> c = CHR ''-''" "all_digits (d # ds)" "delim rest"
  shows "float_token (scan_number_exponent l) (token_buffer l @ c # d # ds) rest"
proof -
  let ?l1 = "lex_add (lex_get l) c"
  let ?l2 = "lex_add (lex_get ?l1) d"
  have r1: "reads ?l1 (d # ds @ rest)" using assms(1) by (simp add: reads_get)
  then have "reads ?l2 (ds @ rest)" by (simp add: reads_get)
  then obtain l3 where l3: "digits_loop ?l2 = lex_get l3" "reads l3 rest" "token_buffer l3 = token_buffer ?l2 @ ds"
    using digits_loop_reads [OF _ _ delim_not_digit [OF assms(4)], of ?l2 ds] assms(3) by auto
  have "scan_number_exponent l = scan_number_done value_float (lex_get l3)"
    using assms(1-3) reads_current [OF r1] l3(1)
    by (auto simp: scan_number_exponent_def scan_number_sign_def scan_number_any2_def Let_def)
  then show ?thesis using scan_number_done_float [OF l3(2)] l3(3) by simp
qed

definition exponent_text :: "bytes \<Rightarrow> bool" where
  "exponent_text ex \<longleftrightarrow> ex = [] \<or> (\<exists>c d ds. ex = CHR ''e'' # c # d # ds \<and> (c = CHR ''+'' \<or> c = CHR ''-'') \<and> all_digits (d # ds))"

lemma exponent_stops_digits: "exponent_text ex \<Longrightarrow> delim rest \<Longrightarrow> ex @ rest = [] \<or> \<not> is_digit (hd (ex @ rest))"
  using delim_not_digit [of rest] by (auto simp: exponent_text_def is_digit_def)

section \<open>The fraction\<close>

lemma scan_fraction:
  assumes "reads l (f @ ex @ rest)" "all_digits f" "f \<noteq> []" "exponent_text ex" "delim rest"
  shows "float_token (scan_number_decimal1 l) (token_buffer l @ f @ ex) rest"
proof -
  obtain d ds where f: "f = d # ds" using assms(3) by (cases f) auto
  let ?l1 = "lex_add (lex_get l) d"
  have "reads ?l1 (ds @ ex @ rest)" using assms(1) f by (simp add: reads_get)
  then obtain l2 where l2: "digits_loop ?l1 = lex_get l2" "reads l2 (ex @ rest)" "token_buffer l2 = token_buffer ?l1 @ ds"
    using digits_loop_reads [OF _ _ exponent_stops_digits [OF assms(4,5)], of ?l1 ds] assms(2) f by auto
  have start: "scan_number_decimal1 l = scan_number_decimal2 ?l1"
    using assms(1,2) f by (auto simp: scan_number_decimal1_def Let_def)
  show ?thesis
  proof (cases "ex = []")
    case True
    then have "reads l2 rest" using l2(2) by simp
    moreover have "scan_number_decimal2 ?l1 = scan_number_done value_float (lex_get l2)"
      using \<open>reads l2 rest\<close> assms(5) l2(1)
      by (cases rest) (auto simp: scan_number_decimal2_def delim_def reads_current_Nil is_json_ws_def Let_def)
    ultimately show ?thesis using scan_number_done_float [of l2 rest] l2(3) start f True by simp
  next
    case False
    then obtain c d' ds' where ex: "ex = CHR ''e'' # c # d' # ds'" "c = CHR ''+'' \<or> c = CHR ''-''" "all_digits (d' # ds')"
      using assms(4) by (auto simp: exponent_text_def)
    have r: "reads l2 (CHR ''e'' # c # d' # ds' @ rest)" using l2(2) ex(1) by simp
    then have "scan_number_decimal2 ?l1 = scan_number_exponent (lex_add (lex_get l2) (CHR ''e''))"
      using l2(1) reads_current [OF r] by (simp add: scan_number_decimal2_def Let_def)
    moreover have "reads (lex_add (lex_get l2) (CHR ''e'')) (c # d' # ds' @ rest)" using r by (simp add: reads_get)
    note scan_exponent [OF this ex(2,3) assms(5)]
    ultimately show ?thesis using l2(3) start f ex(1) by simp
  qed
qed

section \<open>The whole number\<close>

lemma literal_parts_exponent: "literal_parts w f ex \<Longrightarrow> exponent_text ex"
  by (simp add: literal_parts_def exponent_text_def)

text \<open>Behind the digits before the point, in either state of the machine.\<close>

lemma scan_literal_tail:
  assumes "reads l ((if f = [] then [] else CHR ''.'' # f) @ ex @ rest)" "literal_parts w f ex" "delim rest"
    and "token_buffer l = pre @ w"
  shows "float_token (scan_number_tail nt (lex_get l)) (pre @ literal_text w f ex) rest"
proof (cases "f = []")
  case True
  then obtain c d ds where ex: "ex = CHR ''e'' # c # d # ds" "c = CHR ''+'' \<or> c = CHR ''-''" "all_digits (d # ds)"
    using assms(2) by (auto simp: literal_parts_def)
  have r: "reads l (CHR ''e'' # c # d # ds @ rest)" using assms(1) True ex(1) by simp
  then have "scan_number_tail nt (lex_get l) = scan_number_exponent (lex_add (lex_get l) (CHR ''e''))"
    using reads_current [OF r] by (simp add: scan_number_tail_def)
  moreover have "reads (lex_add (lex_get l) (CHR ''e'')) (c # d # ds @ rest)" using r by (simp add: reads_get)
  note scan_exponent [OF this ex(2,3) assms(3)]
  ultimately show ?thesis using assms(4) ex(1) True by (simp add: literal_text_def)
next
  case False
  have r: "reads l (CHR ''.'' # f @ ex @ rest)" using assms(1) False by simp
  then have "scan_number_tail nt (lex_get l) = scan_number_decimal1 (lex_add (lex_get l) (CHR ''.''))"
    using reads_current [OF r] by (simp add: scan_number_tail_def)
  moreover have fraction: "reads (lex_add (lex_get l) (CHR ''.'')) (f @ ex @ rest)" using r by (simp add: reads_get)
  have "all_digits f" using assms(2) by (simp add: literal_parts_def)
  note scan_fraction [OF fraction this False literal_parts_exponent [OF assms(2)] assms(3)]
  ultimately show ?thesis using assms(4) False by (simp add: literal_text_def)
qed

lemma scan_literal_digits:
  assumes "reads lx (ds @ (if f = [] then [] else CHR ''.'' # f) @ ex @ rest)" "literal_parts (d # ds) f ex" "delim rest"
    and "token_buffer lx = pre @ [d]"
  shows "float_token (if d = CHR ''0'' then scan_number_zero nt lx else scan_number_any1 nt lx)
    (pre @ literal_text (d # ds) f ex) rest"
proof (cases "d = CHR ''0''")
  case True
  then have "ds = []" using assms(2) by (simp add: literal_parts_def)
  then show ?thesis
    using True assms scan_literal_tail [OF _ assms(2,3), of lx pre nt] by (simp add: scan_number_zero_def)
next
  case False
  let ?tail = "(if f = [] then [] else CHR ''.'' # f) @ ex @ rest"
  have "?tail = [] \<or> \<not> is_digit (hd ?tail)"
    using exponent_stops_digits [OF literal_parts_exponent [OF assms(2)] assms(3)] by (simp add: is_digit_def)
  moreover have "all_digits ds" using assms(2) by (simp add: literal_parts_def)
  ultimately obtain l where l: "digits_loop lx = lex_get l" "reads l ?tail" "token_buffer l = token_buffer lx @ ds"
    using digits_loop_reads [of lx ds ?tail] assms(1) by auto
  then show ?thesis
    using False assms(4) scan_literal_tail [OF l(2) assms(2,3), of pre nt] by (simp add: scan_number_any1_def)
qed

lemma scan_float:
  assumes "reads lx (s @ rest)" "float_literal s" "delim rest"
  shows "float_token (scan lx) s rest"
proof -
  obtain sign w f ex where s: "s = sign @ literal_text w f ex" "sign = [] \<or> sign = ''-''" "literal_parts w f ex"
    using assms(2) unfolding float_literal_def by blast
  obtain d ds where w: "w = d # ds" "is_digit d" using s(3) by (cases w) (auto simp: literal_parts_def)
  let ?tail = "ds @ (if f = [] then [] else CHR ''.'' # f) @ ex @ rest"
  note lit = s(3) [unfolded w(1)]
  have lit_text: "literal_text w f ex @ rest = d # ?tail" by (simp add: literal_text_def w(1))
  show ?thesis
  proof (cases "sign = []")
    case True
    then obtain l where l: "scan lx = scan_token l" "starts l d ?tail"
      using scan_starts [of lx d ?tail] digit_token [OF w(2)] assms(1) s(1) lit_text by auto
    let ?l = "lex_add (lex_reset l) d"
    have "reads ?l ?tail" using l(2) by (simp add: starts_def)
    note scan_literal_digits [OF this lit assms(3), of "[]" value_unsigned]
    moreover have "scan_token l =
        (if d = CHR ''0'' then scan_number_zero value_unsigned ?l else scan_number_any1 value_unsigned ?l)"
      using scan_token_digit [OF w(2)] l(2) digit_not_space_sign [OF w(2)] by (auto simp: scan_number_def starts_def Let_def)
    ultimately show ?thesis using l(1) s(1) True w(1) by simp
  next
    case False
    then have sign: "sign = ''-''" using s(2) by simp
    then have "reads lx (CHR ''-'' # d # ?tail)" using assms(1) s(1) lit_text by simp
    from scan_starts [OF this] obtain l where l: "scan lx = scan_token l" "starts l (CHR ''-'') (d # ?tail)"
      by (auto simp: is_json_ws_def)
    let ?m = "lex_add (lex_reset l) (CHR ''-'')"
    let ?l = "lex_add (lex_get ?m) d"
    have m: "reads ?m (d # ?tail)" using l(2) by (simp add: starts_def)
    then have "reads ?l ?tail" by (simp add: reads_get)
    note scan_literal_digits [OF this lit assms(3), of "''-''" value_integer]
    moreover have "scan_token l =
        (if d = CHR ''0'' then scan_number_zero value_integer ?l else scan_number_any1 value_integer ?l)"
      using l(2) reads_current [OF m] w(2)
      by (auto simp: starts_def scan_token_def scan_number_def scan_number_minus_def Let_def is_digit_def)
    ultimately show ?thesis using l(1) s(1) sign w(1) by simp
  qed
qed

end
