(* ===== verification/Json_Parser.thy ===== *)
theory Json_Parser
  imports Json_Scan
begin

text \<open>
  \<open>nlohmann::detail::json_sax_dom_parser\<close> and \<open>nlohmann::detail::parser\<close>
  (\<^verbatim>\<open>include/nlohmann/json.hpp\<close>): the handler that builds the document through
  references into it, and the loop of \<open>sax_parse_internal\<close> with its explicit stack of
  states. The document is the \<open>root\<close> field, and the pointers of \<open>ref_stack\<close> and
  \<open>object_element\<close> are paths into it. Parsing is strict, throws on errors, and keeps
  neither comments nor trailing commas: the defaults of \<open>json::parse\<close>. Of an exception the
  model keeps the kind and the id, not the text.
\<close>

section \<open>The handler that builds the document\<close>

record dom =
  root :: json
  ref_stack :: "json_ref list"
  object_element :: "json_ref option"

definition new_dom :: dom where
  "new_dom = \<lparr>root = JNull, ref_stack = [], object_element = None\<rparr>"

definition handle_value :: "json \<Rightarrow> dom \<Rightarrow> (json_ref \<times> dom) result" where
  "handle_value v d =
     (case ref_stack d of
        [] \<Rightarrow> Inr ([], d\<lparr>root := v\<rparr>)
      | back # _ \<Rightarrow>
          (case json_get (root d) back of
             Some (JArray vs) \<Rightarrow>
               Inr (back @ [Idx (length vs)], d\<lparr>root := json_mod back (\<lambda>_. JArray (vs @ [v])) (root d)\<rparr>)
           | Some (JObject _) \<Rightarrow>
               (case object_element d of
                  None \<Rightarrow> Inl (Assertion_failed ''object_element'')
                | Some e \<Rightarrow> Inr (e, d\<lparr>root := json_mod e (\<lambda>_. v) (root d)\<rparr>))
           | _ \<Rightarrow> Inl (Assertion_failed ''ref_stack.back()->is_array() || ref_stack.back()->is_object()'')))"

text \<open>\<open>null\<close>, \<open>boolean\<close>, \<open>number_integer\<close>, \<open>number_unsigned\<close>, \<open>number_float\<close>
  and \<open>string\<close>: each hands its value on.\<close>

definition sax_value :: "json \<Rightarrow> dom \<Rightarrow> dom result" where
  "sax_value v d = rbind (handle_value v d) (\<lambda>(_, d). Inr d)"

definition start_object :: "dom \<Rightarrow> dom result" where
  "start_object d = rbind (handle_value (JObject []) d) (\<lambda>(r, d). Inr (d\<lparr>ref_stack := r # ref_stack d\<rparr>))"

definition start_array :: "dom \<Rightarrow> dom result" where
  "start_array d = rbind (handle_value (JArray []) d) (\<lambda>(r, d). Inr (d\<lparr>ref_stack := r # ref_stack d\<rparr>))"

definition sax_key :: "bytes \<Rightarrow> dom \<Rightarrow> dom result" where
  "sax_key k d =
     (case ref_stack d of
        [] \<Rightarrow> Inl (Assertion_failed ''!ref_stack.empty()'')
      | back # _ \<Rightarrow>
          (case json_get (root d) back of
             Some (JObject m) \<Rightarrow>
               Inr (d\<lparr>root := json_mod back (\<lambda>_. JObject (obj_emplace k JNull m)) (root d),
                      object_element := Some (back @ [Key k])\<rparr>)
           | _ \<Rightarrow> Inl (Assertion_failed ''ref_stack.back()->is_object()'')))"

definition sax_end_object :: "dom \<Rightarrow> dom result" where
  "sax_end_object d =
     (case ref_stack d of
        [] \<Rightarrow> Inl (Assertion_failed ''!ref_stack.empty()'')
      | back # below \<Rightarrow>
          (case json_get (root d) back of
             Some (JObject _) \<Rightarrow> Inr (d\<lparr>ref_stack := below\<rparr>)
           | _ \<Rightarrow> Inl (Assertion_failed ''ref_stack.back()->is_object()'')))"

definition sax_end_array :: "dom \<Rightarrow> dom result" where
  "sax_end_array d =
     (case ref_stack d of
        [] \<Rightarrow> Inl (Assertion_failed ''!ref_stack.empty()'')
      | back # below \<Rightarrow>
          (case json_get (root d) back of
             Some (JArray _) \<Rightarrow> Inr (d\<lparr>ref_stack := below\<rparr>)
           | _ \<Rightarrow> Inl (Assertion_failed ''ref_stack.back()->is_array()'')))"

section \<open>The parser\<close>

record parser =
  m_lexer :: lexer
  last_token :: token_type
  sax :: dom
  states :: "bool list"
  skip_to_state_evaluation :: bool

definition get_token :: "parser \<Rightarrow> parser" where
  "get_token p = (let (t, lx) = scan (m_lexer p) in p\<lparr>last_token := t, m_lexer := lx\<rparr>)"

text \<open>The constructor reads the first token.\<close>

definition new_parser :: "bytes \<Rightarrow> parser" where
  "new_parser input = get_token \<lparr>m_lexer = new_lexer input, last_token = uninitialized, sax = new_dom,
     states = [], skip_to_state_evaluation = False\<rparr>"

text \<open>\<open>sax->parse_error\<close> throws, since exceptions are allowed.\<close>

definition sax_parse_error :: "'a result" where
  "sax_parse_error = Inl (Json_parse_error 101)"

text \<open>One event of the handler.\<close>

definition on_sax :: "(dom \<Rightarrow> dom result) \<Rightarrow> parser \<Rightarrow> parser result" where
  "on_sax f p = rbind (f (sax p)) (\<lambda>d. Inr (p\<lparr>sax := d\<rparr>))"

text \<open>A key, its separator and the first token of its value.\<close>

definition parse_member :: "parser \<Rightarrow> parser result" where
  "parse_member p =
     (if last_token p \<noteq> value_string then sax_parse_error
      else rbind (on_sax (sax_key (token_buffer (m_lexer p))) p) (\<lambda>p.
        let p = get_token p in
        if last_token p \<noteq> name_separator then sax_parse_error
        else Inr (get_token p)))"

text \<open>The switch on the last token: \<open>True\<close> where the code leaves the switch with a value
  parsed, \<open>False\<close> where it continues the loop.\<close>

definition parse_begin_object :: "parser \<Rightarrow> (bool \<times> parser) result" where
  "parse_begin_object p =
     rbind (on_sax start_object p) (\<lambda>p. let p = get_token p in
       if last_token p = end_object then rbind (on_sax sax_end_object p) (\<lambda>p. Inr (True, p))
       else rbind (parse_member p) (\<lambda>p. Inr (False, p\<lparr>states := False # states p\<rparr>)))"

definition parse_begin_array :: "parser \<Rightarrow> (bool \<times> parser) result" where
  "parse_begin_array p =
     rbind (on_sax start_array p) (\<lambda>p. let p = get_token p in
       if last_token p = end_array then rbind (on_sax sax_end_array p) (\<lambda>p. Inr (True, p))
       else Inr (False, p\<lparr>states := True # states p\<rparr>))"

definition parse_scalar :: "json \<Rightarrow> parser \<Rightarrow> (bool \<times> parser) result" where
  "parse_scalar v p = rbind (on_sax (sax_value v) p) (\<lambda>p. Inr (True, p))"

definition parse_value :: "parser \<Rightarrow> (bool \<times> parser) result" where
  "parse_value p =
     (case last_token p of
        begin_object \<Rightarrow> parse_begin_object p
      | begin_array \<Rightarrow> parse_begin_array p
      | value_float \<Rightarrow>
          if \<not> isfinite (lex_float (m_lexer p)) then Inl (Json_out_of_range 406)
          else parse_scalar (JFloat (lex_float (m_lexer p))) p
      | literal_false \<Rightarrow> parse_scalar (JBool False) p
      | literal_null \<Rightarrow> parse_scalar JNull p
      | literal_true \<Rightarrow> parse_scalar (JBool True) p
      | value_integer \<Rightarrow> parse_scalar (JInteger (lex_integer (m_lexer p))) p
      | value_string \<Rightarrow> parse_scalar (JString (token_buffer (m_lexer p))) p
      | value_unsigned \<Rightarrow> parse_scalar (JUnsigned (lex_unsigned (m_lexer p))) p
      | _ \<Rightarrow> sax_parse_error)"

text \<open>After a value: \<open>True\<close> where the code returns, \<open>False\<close> where it continues.\<close>

definition evaluate_array :: "parser \<Rightarrow> (bool \<times> parser) result" where
  "evaluate_array p =
     (let p = get_token p in
      if last_token p = value_separator then Inr (False, get_token p)
      else if last_token p = end_array then
        rbind (on_sax sax_end_array p) (\<lambda>p.
          Inr (False, p\<lparr>states := tl (states p), skip_to_state_evaluation := True\<rparr>))
      else sax_parse_error)"

definition evaluate_object :: "parser \<Rightarrow> (bool \<times> parser) result" where
  "evaluate_object p =
     (let p = get_token p in
      if last_token p = value_separator then
        rbind (parse_member (get_token p)) (\<lambda>p. Inr (False, p))
      else if last_token p = end_object then
        rbind (on_sax sax_end_object p) (\<lambda>p.
          Inr (False, p\<lparr>states := tl (states p), skip_to_state_evaluation := True\<rparr>))
      else sax_parse_error)"

definition evaluate_state :: "parser \<Rightarrow> (bool \<times> parser) result" where
  "evaluate_state p =
     (case states p of
        [] \<Rightarrow> Inr (True, p)
      | in_array # _ \<Rightarrow> if in_array then evaluate_array p else evaluate_object p)"

text \<open>One round of the loop.\<close>

definition sax_parse_step :: "parser \<Rightarrow> (bool \<times> parser) result" where
  "sax_parse_step p =
     (if skip_to_state_evaluation p then evaluate_state (p\<lparr>skip_to_state_evaluation := False\<rparr>)
      else rbind (parse_value p) (\<lambda>(parsed, p). if parsed then evaluate_state p else Inr (False, p)))"

section \<open>Termination\<close>

text \<open>Every round that continues reads a token, and a token other than the two that end the
  parse consumes input.\<close>

definition pending :: "parser \<Rightarrow> nat" where
  "pending p = unread_len (m_lexer p)"

definition parse_measure :: "parser \<Rightarrow> nat" where
  "parse_measure p = 2 * pending p + (if last_token p \<in> {end_of_input, parse_error} then 0 else 1)"

lemma pending_updates [simp]:
  "pending (p\<lparr>sax := d\<rparr>) = pending p" "pending (p\<lparr>states := s\<rparr>) = pending p"
  "pending (p\<lparr>skip_to_state_evaluation := b\<rparr>) = pending p" "pending (p\<lparr>last_token := t\<rparr>) = pending p"
  by (simp_all add: pending_def)

lemma pending_get_token_le: "pending (get_token p) \<le> pending p"
  using scan_progress [of "m_lexer p"] by (cases "scan (m_lexer p)") (auto simp: pending_def get_token_def)

lemma pending_get_token_less:
  "last_token (get_token p) \<notin> {end_of_input, parse_error} \<Longrightarrow> pending (get_token p) < pending p"
  using scan_progress [of "m_lexer p"] by (cases "scan (m_lexer p)") (auto simp: pending_def get_token_def)

lemma get_token_frame [simp]:
  "sax (get_token p) = sax p" "states (get_token p) = states p"
  "skip_to_state_evaluation (get_token p) = skip_to_state_evaluation p"
  by (auto simp: get_token_def split: prod.split)

lemma on_sax_Inr: "on_sax f p = Inr p' \<longleftrightarrow> (\<exists>d. f (sax p) = Inr d \<and> p' = p\<lparr>sax := d\<rparr>)"
  by (auto simp: on_sax_def rbind_eq_Inr_iff)

lemma parse_member_pending:
  assumes "parse_member p = Inr p'" shows "pending p' < pending p"
proof -
  obtain d where "last_token (get_token (p\<lparr>sax := d\<rparr>)) = name_separator"
      and p': "p' = get_token (get_token (p\<lparr>sax := d\<rparr>))"
    using assms by (auto simp: parse_member_def on_sax_Inr rbind_eq_Inr_iff sax_parse_error_def Let_def
        split: if_splits)
  then have "pending (get_token (p\<lparr>sax := d\<rparr>)) < pending p"
    using pending_get_token_less [of "p\<lparr>sax := d\<rparr>"] by simp
  then show ?thesis
    using pending_get_token_le [of "get_token (p\<lparr>sax := d\<rparr>)"] p' by simp
qed

lemma evaluate_state_pending:
  assumes "evaluate_state p = Inr (False, p')" shows "pending p' < pending p"
proof -
  have le: "pending (get_token (get_token p)) \<le> pending (get_token p)" by (rule pending_get_token_le)
  show ?thesis
    using assms pending_get_token_less [of p] parse_member_pending [of "get_token (get_token p)" p'] le
    by (auto simp: evaluate_state_def evaluate_array_def evaluate_object_def on_sax_Inr rbind_eq_Inr_iff
        sax_parse_error_def Let_def split: list.splits if_splits)
qed

lemma pending_sax_token_le: "pending (get_token (p\<lparr>sax := d\<rparr>)) \<le> pending p"
  using pending_get_token_le [of "p\<lparr>sax := d\<rparr>"] by simp

lemma parse_measure_less: "pending p' < pending p \<Longrightarrow> parse_measure p' < parse_measure p"
  by (auto simp: parse_measure_def)

lemma parse_begin_object_pending:
  assumes "parse_begin_object p = Inr (b, p')"
  shows "pending p' \<le> pending p \<and> (\<not> b \<longrightarrow> pending p' < pending p)"
proof -
  obtain d where le: "pending (get_token (p\<lparr>sax := d\<rparr>)) \<le> pending p"
      and res: "(if last_token (get_token (p\<lparr>sax := d\<rparr>)) = end_object
        then rbind (on_sax sax_end_object (get_token (p\<lparr>sax := d\<rparr>))) (\<lambda>p. Inr (True, p))
        else rbind (parse_member (get_token (p\<lparr>sax := d\<rparr>)))
          (\<lambda>p. Inr (False, p\<lparr>states := False # states p\<rparr>))) = Inr (b, p')"
    using assms pending_sax_token_le
    by (auto simp: parse_begin_object_def on_sax_Inr rbind_eq_Inr_iff [of "on_sax start_object p"] Let_def)
  show ?thesis
    using res le by (auto simp: on_sax_Inr rbind_eq_Inr_iff split: if_splits dest!: parse_member_pending)
qed

lemma parse_begin_array_pending:
  assumes "parse_begin_array p = Inr (b, p')" and "last_token p = begin_array"
  shows "pending p' \<le> pending p \<and> (\<not> b \<longrightarrow> parse_measure p' < parse_measure p)"
proof -
  obtain d where res: "(if last_token (get_token (p\<lparr>sax := d\<rparr>)) = end_array
        then rbind (on_sax sax_end_array (get_token (p\<lparr>sax := d\<rparr>))) (\<lambda>p. Inr (True, p))
        else Inr (False, (get_token (p\<lparr>sax := d\<rparr>))\<lparr>states := True # states (get_token (p\<lparr>sax := d\<rparr>))\<rparr>)) = Inr (b, p')"
    using assms(1)
    by (auto simp: parse_begin_array_def on_sax_Inr rbind_eq_Inr_iff [of "on_sax start_array p"] Let_def)
  then show ?thesis
    using assms(2) pending_sax_token_le [of d p] pending_get_token_less [of "p\<lparr>sax := d\<rparr>"]
    by (auto simp: on_sax_Inr rbind_eq_Inr_iff parse_measure_def split: if_splits)
qed

lemma parse_value_pending:
  assumes "parse_value p = Inr (b, p')"
  shows "pending p' \<le> pending p \<and> (\<not> b \<longrightarrow> parse_measure p' < parse_measure p)"
  using assms parse_begin_object_pending [of p b p'] parse_begin_array_pending [of p b p']
  by (auto simp: parse_value_def parse_scalar_def sax_parse_error_def on_sax_Inr rbind_eq_Inr_iff
      intro: parse_measure_less split: token_type.splits if_splits)

lemma sax_parse_step_measure:
  assumes "sax_parse_step p = Inr (False, p')" shows "parse_measure p' < parse_measure p"
proof -
  have less: "parse_measure p' < parse_measure p" if "pending p' < pending p"
    using that by (auto simp: parse_measure_def)
  show ?thesis
    using assms evaluate_state_pending [of "p\<lparr>skip_to_state_evaluation := False\<rparr>" p'] less
      parse_value_pending [of p] evaluate_state_pending [of _ p']
    by (fastforce simp: sax_parse_step_def rbind_eq_Inr_iff split: if_splits)
qed

function sax_parse_loop :: "parser \<Rightarrow> parser result" where
  "sax_parse_loop p = (case sax_parse_step p of
       Inl e \<Rightarrow> Inl e
     | Inr (True, p') \<Rightarrow> Inr p'
     | Inr (False, p') \<Rightarrow> sax_parse_loop p')"
  by pat_completeness auto
termination
  by (relation "measure parse_measure") (auto dest!: sym [of _ "sax_parse_step _"] intro: sax_parse_step_measure)

declare sax_parse_loop.simps [simp del]

text \<open>\<open>json::parse\<close> of a string: one value, then the end of the input.\<close>

definition json_parse :: "bytes \<Rightarrow> json result" where
  "json_parse input =
     rbind (sax_parse_loop (new_parser input)) (\<lambda>p. let p = get_token p in
       if last_token p \<noteq> end_of_input then sax_parse_error else Inr (root (sax p)))"

end
