(* ===== verification/Json_Roundtrip.thy ===== *)
theory Json_Roundtrip
  imports Json_Float_Tokens Json_Parser
begin

text \<open>
  The serializer and the parser against each other, floating point numbers included. \<open>json_text\<close> is the text of a document as
  a structural recursion; the serializer computes it (through its buffers and automaton), and
  the parser, started on it, rebuilds the document at the place its handler is about to fill.
  A \<open>hole\<close> is that place: what it takes from the handler's state for the induction over the
  document.
\<close>

section \<open>Documents and their text\<close>

text \<open>The documents \<open>json::parse\<close> produces.\<close>

fun json_wf :: "json \<Rightarrow> bool" where
  "json_wf JNull = True"
| "json_wf (JBool b) = True"
| "json_wf (JInteger i) = (- (2 ^ 63) \<le> i \<and> i < 0)"
| "json_wf (JUnsigned n) = (n < 2 ^ 64)"
| "json_wf (JFloat x) = isfinite x"
| "json_wf (JString s) = utf8_valid s"
| "json_wf (JArray vs) = (\<forall>v \<in> set vs. json_wf v)"
| "json_wf (JObject m) = (obj_sorted m \<and> (\<forall>(k, v) \<in> set m. utf8_valid k \<and> json_wf v))"

text \<open>A document as it may be written: the members of an object in any order, keys repeated. Reading
  it inserts one member after the other, so a repeated key takes its last value.\<close>

fun json_ok :: "json \<Rightarrow> bool" where
  "json_ok JNull = True"
| "json_ok (JBool b) = True"
| "json_ok (JInteger i) = (- (2 ^ 63) \<le> i \<and> i < 0)"
| "json_ok (JUnsigned n) = (n < 2 ^ 64)"
| "json_ok (JFloat x) = isfinite x"
| "json_ok (JString s) = utf8_valid s"
| "json_ok (JArray vs) = (\<forall>v \<in> set vs. json_ok v)"
| "json_ok (JObject m) = (\<forall>(k, v) \<in> set m. utf8_valid k \<and> json_ok v)"

definition assign_members :: "(bytes \<times> json) list \<Rightarrow> (bytes \<times> json) list \<Rightarrow> (bytes \<times> json) list" where
  "assign_members ms m = fold (\<lambda>(k, v). obj_assign k v) ms m"

fun parsed :: "json \<Rightarrow> json" where
  "parsed (JArray vs) = JArray (map parsed vs)"
| "parsed (JObject m) = JObject (assign_members (map (\<lambda>(k, v). (k, parsed v)) m) [])"
| "parsed j = j"

lemma assign_members_simps [simp]:
  "assign_members [] m = m" "assign_members ((k, v) # ms) m = assign_members ms (obj_assign k v m)"
  by (simp_all add: assign_members_def)

lemma assign_members_sorted: "obj_sorted (m @ ms) \<Longrightarrow> assign_members ms m = m @ ms"
proof (induction ms arbitrary: m)
  case (Cons a ms)
  obtain k v where a: "a = (k, v)" by (cases a)
  have "\<forall>x \<in> fst ` set m. x < k" using Cons.prems a by (auto simp: obj_sorted_def sorted_append less_le)
  then show ?case using Cons.IH [of "m @ [(k, v)]"] Cons.prems a by (simp add: obj_assign_last)
qed simp

lemma obj_sorted_assign_members: "obj_sorted m \<Longrightarrow> obj_sorted (assign_members ms m)"
  by (induction ms arbitrary: m) (auto simp: obj_sorted_assign)

lemma map_of_assign_members:
  "obj_sorted m \<Longrightarrow> map_of (assign_members ms m) k =
     (case map_of (rev ms) k of None \<Rightarrow> map_of m k | Some v \<Rightarrow> Some v)"
  by (induction ms arbitrary: m) (auto simp: obj_sorted_assign map_of_obj_assign map_add_def split: option.split)

lemma json_wf_parsed: "json_wf j \<Longrightarrow> json_ok j \<and> parsed j = j"
proof (induction j)
  case (JArray vs)
  then show ?case by (auto intro: map_idI)
next
  case (JObject m)
  then have m: "json_ok v \<and> parsed v = v" if "(k, v) \<in> set m" for k v
    using that by (fastforce intro: snds.intros)
  then have "map (\<lambda>(k, v). (k, parsed v)) m = m" by (auto intro: map_idI)
  then show ?case using JObject.prems m assign_members_sorted [of "[]" m] by auto
qed auto

text \<open>The text of a finite number, which is one number token and is read back as that number.\<close>

definition float_text :: "double \<Rightarrow> bytes" where
  "float_text x = (case dump_float x of Inr s \<Rightarrow> s | Inl _ \<Rightarrow> [])"

lemma float_text_reads_back:
  assumes "isfinite x"
  shows "dump_float x = Inr (float_text x)" "float_literal (float_text x)" "strtod (float_text x) = x"
proof -
  let ?sign = "if signbit x then ''-'' else []"
  obtain w f ex where t: "dump_float x = Inr (?sign @ literal_text w f ex)" "literal_parts w f ex"
    "if unsigned_bits x = 0 then unsigned_value (literal_text w f ex) = 0
     else between_midpoints (unat (unsigned_bits x)) (unsigned_value (literal_text w f ex))"
    using dump_float_literal [OF assms] by metis
  then have ft: "float_text x = ?sign @ literal_text w f ex" by (simp add: float_text_def)
  show "dump_float x = Inr (float_text x)" using t(1) ft by simp
  show "float_literal (float_text x)"
    unfolding float_literal_def ft using t(2) by (intro exI [of _ ?sign] exI [of _ w] exI [of _ f] exI [of _ ex]) simp
  show "strtod (float_text x) = x" unfolding ft by (rule strtod_literal [OF t(2) assms t(3)])
qed

fun json_text :: "json \<Rightarrow> bytes" and members_text :: "(bytes \<times> json) list \<Rightarrow> bytes"
  and elements_text :: "json list \<Rightarrow> bytes" where
  "json_text JNull = ''null''"
| "json_text (JBool b) = (if b then ''true'' else ''false'')"
| "json_text (JInteger i) = to_string_int i"
| "json_text (JUnsigned n) = to_string_nat n"
| "json_text (JFloat x) = float_text x"
| "json_text (JString s) = CHR 0x22 # escape_text s @ [CHR 0x22]"
| "json_text (JArray vs) = CHR 0x5B # elements_text vs @ [CHR 0x5D]"
| "json_text (JObject m) = CHR 0x7B # members_text m @ [CHR 0x7D]"
| "members_text [] = []"
| "members_text ((k, v) # m) = CHR 0x22 # escape_text k @ CHR 0x22 # CHR '':'' # json_text v @
     (if m = [] then [] else CHR '','' # members_text m)"
| "elements_text [] = []"
| "elements_text (v # vs) = json_text v @ (if vs = [] then [] else CHR '','' # elements_text vs)"

section \<open>The serializer computes the text\<close>

lemma digit_byte_digit: "digit_byte = digit"
  by (simp add: fun_eq_iff digit_byte_def digit_def)

lemma write_digits_eq: "write_digits n after = to_string_nat n @ after"
proof (induction n "after" rule: write_digits.induct)
  case (1 n "after")
  show ?case
  proof (cases "n \<ge> 100")
    case True
    have "to_string_nat n = to_string_nat (n div 100) @ [digit (n div 10 mod 10), digit (n mod 10)]"
      using True by (simp add: to_string_nat.simps [of n] to_string_nat.simps [of "n div 10"] flip: div_mult2_eq)
    moreover have "n mod 100 div 10 = n div 10 mod 10" "n mod 100 mod 10 = n mod 10"
      using mod_mult2_eq [of n 10 10] by (simp_all add: mod_mod_cancel)
    ultimately show ?thesis
      using "1.IH" [OF True] True
      by (simp add: write_digits.simps [of n] digits_to_99_def digit_byte_digit)
  next
    case False
    then show ?thesis
      by (auto simp: write_digits.simps [of n] to_string_nat.simps [of n] to_string_nat.simps [of "n div 10"]
          digits_to_99_def digit_byte_digit)
  qed
qed

lemma to_string_nat_digits_div:
  "10 \<le> n \<Longrightarrow> length (to_string_nat n) = Suc (length (to_string_nat (n div 10)))"
  by (simp add: to_string_nat.simps [of n])

lemma count_digits_loop_eq: "0 < k \<Longrightarrow> count_digits_loop k n = k - 1 + length (to_string_nat n)"
proof (induction k n rule: count_digits_loop.induct)
  case (1 k n)
  have small: "length (to_string_nat m) = 1" if "m < 10" for m
    using that by (simp add: to_string_nat.simps [of m])
  consider "n < 10" | "10 \<le> n" "n < 100" | "100 \<le> n" "n < 1000" | "1000 \<le> n" "n < 10000" | "10000 \<le> n"
    by linarith
  then show ?case
  proof cases
    case 5
    then have "length (to_string_nat n) = 4 + length (to_string_nat (n div 10000))"
      using to_string_nat_digits_div [of n] to_string_nat_digits_div [of "n div 10"]
        to_string_nat_digits_div [of "n div 100"] to_string_nat_digits_div [of "n div 1000"]
      by (simp add: div_mult2_eq [symmetric])
    then show ?thesis using 5 "1.IH" "1.prems" by (simp add: count_digits_loop.simps [of k n])
  qed (use "1.prems" in \<open>simp_all add: count_digits_loop.simps [of k n] to_string_nat_digits_div small
        flip: div_mult2_eq\<close>)
qed

lemma remove_sign_eq: "x < 0 \<Longrightarrow> remove_sign x = nat (- x)"
  by (simp add: remove_sign_def)

lemma count_digits_eq: "count_digits n = length (to_string_nat n)"
  by (simp add: count_digits_def count_digits_loop_eq)

lemma dump_integer_eq:
  assumes "- (2 ^ 63) \<le> x" and "x < 2 ^ 64"
  shows "dump_integer x = Inr (to_string_int x)"
proof -
  have "nat \<bar>x\<bar> < 10 ^ 20" using assms by simp
  then have "length (to_string_nat (nat \<bar>x\<bar>)) \<le> 20" by (rule length_to_string_nat_le) simp
  then show ?thesis
    by (cases "x = 0"; cases "x < 0")
      (simp_all add: dump_integer_def remove_sign_eq count_digits_eq write_digits_eq to_string_int_def
        to_string_small)
qed

definition compact :: "dump_options \<Rightarrow> bool" where
  "compact opts \<longleftrightarrow> \<not> pretty_print opts \<and> \<not> ensure_ascii opts \<and> error_handler opts = strict"

lemma write_characters_simps [simp]:
  "write_characters [] s = s" "write_characters bs (write_characters as s) = write_characters (as @ bs) s"
  "out_str (write_characters bs s) = out_str s @ bs"
  by (simp_all add: write_characters_def)

lemma dump_val_text:
  "compact opts \<Longrightarrow> json_wf j \<Longrightarrow> dump_val opts ci j s = Inr (write_characters (json_text j) s)"
  "compact opts \<Longrightarrow> \<forall>(k, v) \<in> set m. utf8_valid k \<and> json_wf v \<Longrightarrow>
     dump_members opts ci m s = Inr (write_characters (members_text m) s)"
  "compact opts \<Longrightarrow> \<forall>v \<in> set vs. json_wf v \<Longrightarrow>
     dump_elements opts ci vs s = Inr (write_characters (elements_text vs) s)"
  by (induction j and m and vs arbitrary: ci s and ci s and ci s
      rule: json_text_members_text_elements_text.induct)
    (simp_all add: compact_def write_escaped_def dump_escaped_eq dump_integer_eq float_text_reads_back(1) dump_key_def
      indent_if_pretty_def open_bracket_def close_bracket_def comma_def to_string_int_def Let_def)

lemma json_dump_text:
  "json_wf j \<Longrightarrow> json_dump (-1) ch False strict j = Inr (json_text j)"
  by (simp add: json_dump_def compact_def dump_val_text Let_def write_characters_def)

section \<open>The place the handler fills\<close>

definition hole :: "dom \<Rightarrow> json_ref \<Rightarrow> (json \<Rightarrow> json) \<Rightarrow> bool" where
  "hole d r F \<longleftrightarrow> (\<forall>v. handle_value v d = Inr (r, d\<lparr>root := F v\<rparr>)) \<and>
     (\<forall>v. json_get (F v) r = Some v) \<and> (\<forall>f v. json_mod r f (F v) = F (f v))"

lemma hole_new_dom: "hole new_dom [] (\<lambda>v. v)"
  by (simp add: hole_def handle_value_def new_dom_def)

lemma hole_element:
  assumes "\<forall>v. json_get (F v) r = Some v" "\<forall>f v. json_mod r f (F v) = F (f v)"
  shows "hole \<lparr>root = F (JArray vs), ref_stack = r # rs, object_element = e\<rparr> (r @ [Idx (length vs)])
    (\<lambda>v. F (JArray (vs @ [v])))"
  using assms by (simp add: hole_def handle_value_def json_get_append json_mod_append)

lemma hole_member:
  assumes "\<forall>v. json_get (F v) r = Some v" "\<forall>f v. json_mod r f (F v) = F (f v)"
  shows "hole \<lparr>root = F (JObject (obj_emplace k JNull m)), ref_stack = r # rs, object_element = Some (r @ [Key k])\<rparr>
    (r @ [Key k]) (\<lambda>v. F (JObject (obj_assign k v m)))"
proof -
  have "k \<in> fst ` set (obj_emplace k JNull m)" by (simp add: set_keys_emplace)
  then have "map_of (obj_emplace k JNull m) k \<noteq> None" by (simp add: map_of_eq_None_iff)
  then obtain w where "map_of (obj_emplace k JNull m) k = Some w" by blast
  moreover have "json_mod [] f = f" for f by (simp add: fun_eq_iff)
  ultimately show ?thesis
    using assms by (simp add: hole_def handle_value_def json_get_append json_mod_append obj_assign_def
        map_of_obj_modify obj_modify_compose)
qed

section \<open>The loop after a value\<close>

text \<open>What the loop does once a value has been parsed.\<close>

definition resume :: "parser \<Rightarrow> parser result" where
  "resume p = (case evaluate_state p of
       Inl e \<Rightarrow> Inl e | Inr (True, p') \<Rightarrow> Inr p' | Inr (False, p') \<Rightarrow> sax_parse_loop p')"

lemma loop_skip:
  "sax_parse_loop (p\<lparr>skip_to_state_evaluation := True\<rparr>) = resume (p\<lparr>skip_to_state_evaluation := False\<rparr>)"
  by (simp add: sax_parse_loop.simps [of "p\<lparr>skip_to_state_evaluation := True\<rparr>"] sax_parse_step_def resume_def)

lemma loop_value:
  "\<not> skip_to_state_evaluation p \<Longrightarrow> parse_value p = Inr (True, p') \<Longrightarrow> sax_parse_loop p = resume p'"
  by (simp add: sax_parse_loop.simps [of p] sax_parse_step_def resume_def)

lemma loop_continue:
  "\<not> skip_to_state_evaluation p \<Longrightarrow> parse_value p = Inr (False, p') \<Longrightarrow> sax_parse_loop p = sax_parse_loop p'"
  by (simp add: sax_parse_loop.simps [of p] sax_parse_step_def)

section \<open>Layouts\<close>

text \<open>The text of a document with white space where JSON allows it and with an escaping of strings:
  before the items of an object or array at a nesting depth, between the colon and a value, and
  before the closing bracket. The compact text is the layout without white space.\<close>

record layout =
  esc :: "byte \<Rightarrow> bytes"
  item_ws :: "nat \<Rightarrow> bytes"
  colon_ws :: bytes
  close_ws :: "nat \<Rightarrow> bytes"

fun lay_text :: "layout \<Rightarrow> nat \<Rightarrow> json \<Rightarrow> bytes"
  and lay_members :: "layout \<Rightarrow> nat \<Rightarrow> (bytes \<times> json) list \<Rightarrow> bytes"
  and lay_elements :: "layout \<Rightarrow> nat \<Rightarrow> json list \<Rightarrow> bytes" where
  "lay_text L n JNull = ''null''"
| "lay_text L n (JBool b) = (if b then ''true'' else ''false'')"
| "lay_text L n (JInteger i) = to_string_int i"
| "lay_text L n (JUnsigned u) = to_string_nat u"
| "lay_text L n (JFloat x) = float_text x"
| "lay_text L n (JString s) = CHR 0x22 # quote_with (esc L) s @ [CHR 0x22]"
| "lay_text L n (JArray vs) = CHR 0x5B # lay_elements L (Suc n) vs @ (if vs = [] then [] else close_ws L n) @ [CHR 0x5D]"
| "lay_text L n (JObject m) = CHR 0x7B # lay_members L (Suc n) m @ (if m = [] then [] else close_ws L n) @ [CHR 0x7D]"
| "lay_members L n [] = []"
| "lay_members L n ((k, v) # m) = item_ws L n @ CHR 0x22 # quote_with (esc L) k @ CHR 0x22 # CHR '':'' # colon_ws L @
     lay_text L n v @ (if m = [] then [] else CHR '','' # lay_members L n m)"
| "lay_elements L n [] = []"
| "lay_elements L n (v # vs) = item_ws L n @ lay_text L n v @ (if vs = [] then [] else CHR '','' # lay_elements L n vs)"

definition compact_layout :: layout where
  "compact_layout = \<lparr>esc = escape_byte, item_ws = (\<lambda>n. []), colon_ws = [], close_ws = (\<lambda>n. [])\<rparr>"

lemma lay_text_compact:
  "lay_text compact_layout n j = json_text j"
  "lay_members compact_layout n m = members_text m"
  "lay_elements compact_layout n vs = elements_text vs"
  by (induction j and m and vs arbitrary: n and n and n rule: json_text_members_text_elements_text.induct)
    (simp_all add: compact_layout_def quote_with_escape_byte)

section \<open>Tokens under the parser\<close>

lemma get_token_scan: "scan (m_lexer p) = (t, lx) \<Longrightarrow> get_token p = p\<lparr>last_token := t, m_lexer := lx\<rparr>"
  by (simp add: get_token_def)

text \<open>The next scan of the parser goes as on a lexer that reads \<open>text\<close>: white space may be in front
  of it. The parser is outside the jump to the state evaluation.\<close>

definition before :: "parser \<Rightarrow> bytes \<Rightarrow> bool" where
  "before p text \<longleftrightarrow> (\<exists>lx. reads lx text \<and> scan lx = scan (m_lexer p)) \<and> \<not> skip_to_state_evaluation p"

lemma before_reads: "reads (m_lexer p) text \<Longrightarrow> \<not> skip_to_state_evaluation p \<Longrightarrow> before p text"
  by (auto simp: before_def)

lemma before_ws: "before p (ws @ text) \<Longrightarrow> list_all is_json_ws ws \<Longrightarrow> before p text"
  using scan_skips_whitespace by (metis before_def)

lemma before_updates [simp]:
  "before (p\<lparr>sax := d\<rparr>) text = before p text" "before (p\<lparr>states := s\<rparr>) text = before p text"
  by (simp_all add: before_def)

lemma token_scan:
  assumes "before p text" "\<And>lx. reads lx text \<Longrightarrow> \<exists>lx'. scan lx = (t, lx') \<and> reads lx' rest \<and> P lx'"
  shows "last_token (get_token p) = t \<and> before (get_token p) rest \<and> P (m_lexer (get_token p))"
proof -
  obtain lx where lx: "reads lx text" "scan lx = scan (m_lexer p)" "\<not> skip_to_state_evaluation p"
    using assms(1) by (auto simp: before_def)
  obtain lx' where "scan lx = (t, lx')" "reads lx' rest" "P lx'" using assms(2) [OF lx(1)] by blast
  then show ?thesis using lx(2,3) by (simp add: get_token_scan before_reads)
qed

lemma token_punctuation:
  "before p (c # rest) \<Longrightarrow> punctuation c = Some t \<Longrightarrow> last_token (get_token p) = t \<and> before (get_token p) rest"
  using token_scan [of p "c # rest" t rest "\<lambda>_. True"] scan_punctuation by blast

text \<open>The closing bracket of an array or object, after its last value.\<close>

lemma resume_end_array:
  assumes "before p (CHR 0x5D # rest)" "states p = True # sts" "json_get (root (sax p)) r = Some (JArray vs)"
    and "ref_stack (sax p) = r # rs"
  shows "\<exists>p'. resume p = resume p' \<and> before p' rest \<and> states p' = sts \<and> root (sax p') = root (sax p) \<and>
    ref_stack (sax p') = rs"
proof -
  have tok: "last_token (get_token p) = end_array" "before (get_token p) rest"
    using token_punctuation [OF assms(1), of end_array] by (simp_all add: punctuation_def)
  let ?p = "(get_token p)\<lparr>sax := (sax p)\<lparr>ref_stack := rs\<rparr>, states := sts\<rparr>"
  have "resume p = sax_parse_loop (?p\<lparr>skip_to_state_evaluation := True\<rparr>)"
    using assms tok(1) by (simp add: resume_def evaluate_state_def evaluate_array_def on_sax_def sax_end_array_def Let_def)
  also have "\<dots> = resume (?p\<lparr>skip_to_state_evaluation := False\<rparr>)" by (rule loop_skip)
  finally show ?thesis
    using tok(2) by (intro exI [of _ "?p\<lparr>skip_to_state_evaluation := False\<rparr>"]) (simp add: before_def)
qed

lemma resume_end_object:
  assumes "before p (CHR 0x7D # rest)" "states p = False # sts" "json_get (root (sax p)) r = Some (JObject m)"
    and "ref_stack (sax p) = r # rs"
  shows "\<exists>p'. resume p = resume p' \<and> before p' rest \<and> states p' = sts \<and> root (sax p') = root (sax p) \<and>
    ref_stack (sax p') = rs"
proof -
  have tok: "last_token (get_token p) = end_object" "before (get_token p) rest"
    using token_punctuation [OF assms(1), of end_object] by (simp_all add: punctuation_def)
  let ?p = "(get_token p)\<lparr>sax := (sax p)\<lparr>ref_stack := rs\<rparr>, states := sts\<rparr>"
  have "resume p = sax_parse_loop (?p\<lparr>skip_to_state_evaluation := True\<rparr>)"
    using assms tok(1) by (simp add: resume_def evaluate_state_def evaluate_object_def on_sax_def sax_end_object_def Let_def)
  also have "\<dots> = resume (?p\<lparr>skip_to_state_evaluation := False\<rparr>)" by (rule loop_skip)
  finally show ?thesis
    using tok(2) by (intro exI [of _ "?p\<lparr>skip_to_state_evaluation := False\<rparr>"]) (simp add: before_def)
qed

lemma resume_next_element:
  assumes "before p (CHR '','' # text)" "states p = True # sts"
  shows "resume p = sax_parse_loop (get_token (get_token p)) \<and> before (get_token p) text"
proof -
  have tok: "last_token (get_token p) = value_separator" "before (get_token p) text"
    using token_punctuation [OF assms(1), of value_separator] by (simp_all add: punctuation_def)
  then show ?thesis using assms(2) by (simp add: resume_def evaluate_state_def evaluate_array_def Let_def)
qed

lemma dom_eta: "root d = x \<Longrightarrow> ref_stack d = rs \<Longrightarrow>
   d = \<lparr>root = x, ref_stack = rs, object_element = object_element d\<rparr>"
  by simp

lemma resume_next_member:
  assumes "before p (CHR '','' # text)" "states p = False # sts" "parse_member (get_token (get_token p)) = Inr p'"
  shows "resume p = sax_parse_loop p'"
proof -
  have "last_token (get_token p) = value_separator"
    using token_punctuation [OF assms(1), of value_separator] by (simp add: punctuation_def)
  then show ?thesis using assms(2,3) by (simp add: resume_def evaluate_state_def evaluate_object_def Let_def)
qed

text \<open>From before the text of a value to after it: the value stands in the hole.\<close>

definition parses :: "layout \<Rightarrow> json \<Rightarrow> bool" where
  "parses L j \<longleftrightarrow> (\<forall>n p r F rest. before p (lay_text L n j @ rest) \<longrightarrow> delim rest \<longrightarrow> hole (sax p) r F \<longrightarrow>
     (\<exists>p'. sax_parse_loop (get_token p) = resume p' \<and> before p' rest \<and> states p' = states p \<and>
        root (sax p') = F (parsed j) \<and> ref_stack (sax p') = ref_stack (sax p)))"

text \<open>What the handler's reference and filler have to do with each other.\<close>

definition lens :: "json_ref \<Rightarrow> (json \<Rightarrow> json) \<Rightarrow> bool" where
  "lens r F \<longleftrightarrow> (\<forall>v. json_get (F v) r = Some v) \<and> (\<forall>f v. json_mod r f (F v) = F (f v))"

lemma hole_lens: "hole d r F \<Longrightarrow> lens r F"
  by (simp add: hole_def lens_def)

section \<open>Values in a layout\<close>

locale json_layout =
  fixes L :: layout
  assumes esc: "readable_escape (esc L)"
    and item_ws: "list_all is_json_ws (item_ws L n)"
    and colon_ws: "list_all is_json_ws (colon_ws L)"
    and close_ws: "list_all is_json_ws (close_ws L n)"
begin

lemma token_key:
  "utf8_valid k \<Longrightarrow> before p (CHR 0x22 # quote_with (esc L) k @ CHR 0x22 # rest) \<Longrightarrow>
   last_token (get_token p) = value_string \<and> before (get_token p) rest \<and>
   token_buffer (m_lexer (get_token p)) = k"
  using token_scan [of p _ value_string rest "\<lambda>lx. token_buffer lx = k"] scan_string_token [OF esc] by blast

text \<open>A value of one token, and what the switch does with it.\<close>

lemma token_scalar:
  assumes "before p (lay_text L n j @ rest)" "json_ok j" "delim rest" "\<not> is_object j" "\<not> is_array j"
  shows "before (get_token p) rest \<and> parse_value (get_token p) = parse_scalar j (get_token p) \<and>
    last_token (get_token p) \<in> {literal_null, literal_true, literal_false, value_integer, value_unsigned,
      value_float, value_string}"
proof (cases j)
  case JNull
  then show ?thesis
    using token_scan [OF assms(1), of literal_null rest "\<lambda>_. True"] scan_literals(3) by (simp add: parse_value_def)
next
  case (JBool b)
  then show ?thesis
    using token_scan [OF assms(1), of "if b then literal_true else literal_false" rest "\<lambda>_. True"]
      scan_literals(1,2) by (cases b) (simp_all add: parse_value_def)
next
  case (JInteger i)
  then have i: "nat (- i) \<le> 2 ^ 63" "i < 0" using assms(2) by (simp_all add: nat_le_iff)
  have "last_token (get_token p) = value_integer \<and> before (get_token p) rest \<and> lex_integer (m_lexer (get_token p)) = i"
    using assms(1) scan_integer [OF _ i(1) assms(3)] i(2) JInteger
    by (intro token_scan [OF assms(1)]) (fastforce simp: to_string_int_def)
  then show ?thesis by (simp add: parse_value_def JInteger)
next
  case (JUnsigned u)
  have "last_token (get_token p) = value_unsigned \<and> before (get_token p) rest \<and> lex_unsigned (m_lexer (get_token p)) = u"
    using scan_unsigned [OF _ _ assms(3)] assms(2) JUnsigned by (intro token_scan [OF assms(1)]) simp
  then show ?thesis by (simp add: parse_value_def JUnsigned)
next
  case (JFloat x)
  then have x: "isfinite x" "before p (float_text x @ rest)" using assms(1,2) by simp_all
  have "last_token (get_token p) = value_float \<and> before (get_token p) rest \<and> lex_float (m_lexer (get_token p)) = x"
    using scan_float [OF _ float_text_reads_back(2) [OF x(1)] assms(3)] float_text_reads_back(3) [OF x(1)]
    by (intro token_scan [OF x(2)]) (auto simp: float_token_def)
  then show ?thesis using x(1) by (simp add: parse_value_def JFloat)
next
  case (JString s)
  then have "before p (CHR 0x22 # quote_with (esc L) s @ CHR 0x22 # rest)" using assms(1) by simp
  with token_key [of s p rest] JString assms(2) show ?thesis by (simp add: parse_value_def)
qed (use assms in simp_all)

text \<open>The first token of a value closes nothing.\<close>

lemma token_value:
  assumes "before p (lay_text L n j @ rest)" "json_ok j" "delim rest"
  shows "last_token (get_token p) \<notin> {end_array, end_object}"
proof (cases "is_object j \<or> is_array j")
  case True
  then obtain c s where "before p (c # s)" "c = CHR 0x7B \<or> c = CHR 0x5B" using assms(1) by (cases j) auto
  then show ?thesis
    using token_punctuation [of p c s] by (auto simp: punctuation_def)
next
  case False
  then show ?thesis using token_scalar [OF assms] by auto
qed

lemma delim_ws: "list_all is_json_ws ws \<Longrightarrow> delim rest \<Longrightarrow> delim (ws @ rest)"
  by (cases ws) (auto simp: delim_def)

lemma parsesD:
  "parses L j \<Longrightarrow> hole (sax p) r F \<Longrightarrow> before p (lay_text L n j @ rest) \<Longrightarrow> delim rest \<Longrightarrow>
   \<exists>p'. sax_parse_loop (get_token p) = resume p' \<and> before p' rest \<and> states p' = states p \<and>
     root (sax p') = F (parsed j) \<and> ref_stack (sax p') = ref_stack (sax p)"
  by (simp add: parses_def)

lemma parses_scalar:
  assumes "json_ok j" "\<not> is_object j" "\<not> is_array j"
  shows "parses L j"
proof (unfold parses_def, intro allI impI)
  fix n p r F rest
  have id: "parsed j = j" using assms(2,3) by (cases j) simp_all
  assume p: "before p (lay_text L n j @ rest)" "delim rest" "hole (sax p) r F"
  note tok = token_scalar [OF p(1) assms(1) p(2) assms(2,3)]
  let ?p = "(get_token p)\<lparr>sax := (sax p)\<lparr>root := F (parsed j)\<rparr>\<rparr>"
  have "parse_value (get_token p) = Inr (True, ?p)"
    using tok p(3) id by (simp add: parse_scalar_def on_sax_def sax_value_def hole_def)
  then have "sax_parse_loop (get_token p) = resume ?p"
    using tok by (intro loop_value) (simp_all add: before_def)
  then show "\<exists>p'. sax_parse_loop (get_token p) = resume p' \<and> before p' rest \<and> states p' = states p \<and>
        root (sax p') = F (parsed j) \<and> ref_stack (sax p') = ref_stack (sax p)"
    using tok by (intro exI [of _ ?p]) simp
qed

lemma parses_elements:
  assumes "\<forall>v \<in> set (v # vs). parses L v \<and> json_ok v" "lens r F"
    and "before p (lay_elements L n (v # vs) @ cw @ CHR 0x5D # rest)" "list_all is_json_ws cw"
    and "root (sax p) = F (JArray us)" "ref_stack (sax p) = r # rs" "states p = True # sts"
  shows "\<exists>p'. sax_parse_loop (get_token p) = resume p' \<and> before p' rest \<and> states p' = sts \<and>
    root (sax p') = F (JArray (us @ map parsed (v # vs))) \<and> ref_stack (sax p') = rs"
  using assms
proof (induction vs arbitrary: v us p)
  case Nil
  have "hole (sax p) (r @ [Idx (length us)]) (\<lambda>v. F (JArray (us @ [v])))"
    using hole_element [of F r us rs "object_element (sax p)"] Nil.prems dom_eta [of "sax p"]
    by (simp add: lens_def)
  moreover have "before p (lay_text L n v @ cw @ CHR 0x5D # rest)"
    using before_ws [OF _ item_ws] Nil.prems(3) by simp
  moreover have "delim (cw @ CHR 0x5D # rest)" using Nil.prems(4) by (simp add: delim_ws)
  ultimately obtain p1 where p1: "sax_parse_loop (get_token p) = resume p1" "before p1 (cw @ CHR 0x5D # rest)"
      "states p1 = True # sts" "root (sax p1) = F (JArray (us @ [parsed v]))" "ref_stack (sax p1) = r # rs"
    using Nil.prems parsesD [of v p "r @ [Idx (length us)]" "\<lambda>v. F (JArray (us @ [v]))" n
        "cw @ CHR 0x5D # rest"] by auto
  then show ?case
    using resume_end_array [OF before_ws [OF p1(2) Nil.prems(4)] p1(3) _ p1(5), of "us @ [parsed v]"] Nil.prems(2)
    by (auto simp: lens_def)
next
  case (Cons w ws)
  let ?text = "CHR '','' # lay_elements L n (w # ws) @ cw @ CHR 0x5D # rest"
  have "hole (sax p) (r @ [Idx (length us)]) (\<lambda>v. F (JArray (us @ [v])))"
    using hole_element [of F r us rs "object_element (sax p)"] Cons.prems dom_eta [of "sax p"]
    by (simp add: lens_def)
  moreover have "before p (lay_text L n v @ ?text)"
    using before_ws [OF _ item_ws, of p n] Cons.prems(3)
    by (simp only: lay_elements.simps append_assoc append_Cons list.distinct if_False)
  ultimately obtain p1 where p1: "sax_parse_loop (get_token p) = resume p1" "before p1 ?text"
      "states p1 = True # sts" "root (sax p1) = F (JArray (us @ [parsed v]))" "ref_stack (sax p1) = r # rs"
    using Cons.prems parsesD [of v p "r @ [Idx (length us)]" "\<lambda>v. F (JArray (us @ [v]))" n ?text] by auto
  note next_el = resume_next_element [OF p1(2,3)]
  have "\<exists>p'. sax_parse_loop (get_token (get_token p1)) = resume p' \<and> before p' rest \<and> states p' = sts \<and>
      root (sax p') = F (JArray ((us @ [parsed v]) @ map parsed (w # ws))) \<and> ref_stack (sax p') = rs"
    using Cons.prems(1,2,4) next_el p1 by (intro Cons.IH) simp_all
  then show ?case using p1(1) next_el by simp
qed

text \<open>An array: empty, and up to the token its first element starts with.\<close>

lemma parse_empty_array:
  assumes "before p (CHR 0x5B # CHR 0x5D # rest)" "hole (sax p) r F"
  shows "\<exists>p'. sax_parse_loop (get_token p) = resume p' \<and> before p' rest \<and> states p' = states p \<and>
    root (sax p') = F (JArray []) \<and> ref_stack (sax p') = ref_stack (sax p)"
proof -
  let ?d = "\<lparr>root = F (JArray []), ref_stack = r # ref_stack (sax p), object_element = object_element (sax p)\<rparr>"
  let ?p1 = "(get_token p)\<lparr>sax := ?d\<rparr>"
  let ?p2 = "(get_token ?p1)\<lparr>sax := ?d\<lparr>ref_stack := ref_stack (sax p)\<rparr>\<rparr>"
  have tok: "last_token (get_token p) = begin_array" "before (get_token p) (CHR 0x5D # rest)"
    using token_punctuation [OF assms(1)] by (simp_all add: punctuation_def)
  have tok2: "last_token (get_token ?p1) = end_array" "before (get_token ?p1) rest"
    using token_punctuation [of ?p1 "CHR 0x5D" rest end_array] tok(2) by (simp_all add: punctuation_def)
  have "on_sax start_array (get_token p) = Inr ?p1"
    using assms(2) by (simp add: on_sax_def start_array_def hole_def)
  then have "parse_value (get_token p) = Inr (True, ?p2)"
    using tok(1) tok2(1) assms(2)
    by (simp add: parse_value_def parse_begin_array_def on_sax_def sax_end_array_def hole_def Let_def)
  then have "sax_parse_loop (get_token p) = resume ?p2"
    using tok(2) by (intro loop_value) (simp_all add: before_def)
  then show ?thesis using tok2(2) by (intro exI [of _ ?p2]) simp
qed

lemma parse_first_element:
  assumes "before p (CHR 0x5B # item_ws L n @ lay_text L n v @ tail)" "hole (sax p) r F" "delim tail" "json_ok v"
  shows "\<exists>p'. sax_parse_loop (get_token p) = sax_parse_loop (get_token p') \<and>
    before p' (item_ws L n @ lay_text L n v @ tail) \<and> states p' = True # states p \<and>
    sax p' = \<lparr>root = F (JArray []), ref_stack = r # ref_stack (sax p), object_element = object_element (sax p)\<rparr>"
proof -
  let ?d = "\<lparr>root = F (JArray []), ref_stack = r # ref_stack (sax p), object_element = object_element (sax p)\<rparr>"
  let ?p1 = "(get_token p)\<lparr>sax := ?d\<rparr>" and ?q = "(get_token p)\<lparr>sax := ?d, states := True # states p\<rparr>"
  have tok: "last_token (get_token p) = begin_array" "before (get_token p) (item_ws L n @ lay_text L n v @ tail)"
    using token_punctuation [OF assms(1)] by (simp_all add: punctuation_def)
  have "before ?p1 (lay_text L n v @ tail)"
    using before_ws [OF _ item_ws, of ?p1 n] tok(2) by simp
  then have ne: "last_token (get_token ?p1) \<noteq> end_array"
    using token_value [of ?p1 n v tail] assms(3,4) by simp
  have start: "on_sax start_array (get_token p) = Inr ?p1"
    using assms(2) by (simp add: on_sax_def start_array_def hole_def)
  have "get_token ?q = (get_token ?p1)\<lparr>states := True # states p\<rparr>"
    by (simp add: get_token_def split: prod.split)
  then have "parse_value (get_token p) = Inr (False, get_token ?q)"
    using tok(1) start ne by (simp add: parse_value_def parse_begin_array_def Let_def)
  then have "sax_parse_loop (get_token p) = sax_parse_loop (get_token ?q)"
    using tok(2) by (intro loop_continue) (simp_all add: before_def)
  then show ?thesis using tok(2) by (intro exI [of _ ?q]) simp
qed

lemma parses_array:
  assumes "\<forall>v \<in> set vs. parses L v \<and> json_ok v"
  shows "parses L (JArray vs)"
proof (unfold parses_def, intro allI impI)
  fix n p r F rest
  assume p: "before p (lay_text L n (JArray vs) @ rest)" "delim rest" "hole (sax p) r F"
  show "\<exists>p'. sax_parse_loop (get_token p) = resume p' \<and> before p' rest \<and> states p' = states p \<and>
        root (sax p') = F (parsed (JArray vs)) \<and> ref_stack (sax p') = ref_stack (sax p)"
  proof (cases vs)
    case Nil
    then show ?thesis using parse_empty_array [OF _ p(3)] p(1) by simp
  next
    case (Cons v vs')
    let ?tail = "(if vs' = [] then [] else CHR '','' # lay_elements L (Suc n) vs') @ close_ws L n @ CHR 0x5D # rest"
    have "before p (CHR 0x5B # item_ws L (Suc n) @ lay_text L (Suc n) v @ ?tail)" "delim ?tail"
      using p(1) Cons close_ws by (simp_all add: delim_ws)
    then obtain q where q: "sax_parse_loop (get_token p) = sax_parse_loop (get_token q)"
        "before q (item_ws L (Suc n) @ lay_text L (Suc n) v @ ?tail)" "states q = True # states p"
        "sax q = \<lparr>root = F (JArray []), ref_stack = r # ref_stack (sax p), object_element = object_element (sax p)\<rparr>"
      using parse_first_element [OF _ p(3)] assms Cons by (metis list.set_intros(1))
    have "\<exists>p'. sax_parse_loop (get_token q) = resume p' \<and> before p' rest \<and> states p' = states p \<and>
        root (sax p') = F (JArray ([] @ map parsed (v # vs'))) \<and> ref_stack (sax p') = ref_stack (sax p)"
      using assms Cons q hole_lens [OF p(3)] close_ws
      by (intro parses_elements [where r = r and cw = "close_ws L n" and n = "Suc n"]) simp_all
    then show ?thesis using Cons q(1) by simp
  qed
qed

text \<open>A key and its separator, up to the token its value starts with.\<close>

lemma parse_member_key:
  assumes "before p (CHR 0x22 # quote_with (esc L) k @ CHR 0x22 # CHR '':'' # colon_ws L @ text)" "utf8_valid k" "lens r F"
    and "root (sax p) = F (JObject m)" "ref_stack (sax p) = r # rs"
  shows "\<exists>p'. parse_member (get_token p) = Inr (get_token p') \<and> last_token (get_token p) \<noteq> end_object \<and>
    before p' text \<and> states p' = states p \<and> ref_stack (sax p') = r # rs \<and>
    sax p' = \<lparr>root = F (JObject (obj_emplace k JNull m)), ref_stack = r # rs, object_element = Some (r @ [Key k])\<rparr>"
proof -
  note key = token_key [OF assms(2,1)]
  let ?d = "\<lparr>root = F (JObject (obj_emplace k JNull m)), ref_stack = r # rs, object_element = Some (r @ [Key k])\<rparr>"
  let ?p = "(get_token p)\<lparr>sax := ?d\<rparr>"
  have "on_sax (sax_key k) (get_token p) = Inr ?p"
    using assms(3-5) by (simp add: on_sax_def sax_key_def lens_def)
  moreover have "last_token (get_token ?p) = name_separator \<and> before (get_token ?p) text"
    using token_punctuation [of ?p "CHR '':''" "colon_ws L @ text" name_separator] key
      before_ws [OF _ colon_ws, of _ "text"] by (simp add: punctuation_def)
  ultimately show ?thesis
    using key by (intro exI [of _ "get_token ?p"]) (simp add: parse_member_def Let_def)
qed

text \<open>From the value of a member to the value of the next one.\<close>

lemma parse_next_member:
  assumes "parses L v" "lens r F" "utf8_valid k2"
    and "before p (lay_text L n v @ CHR '','' # item_ws L n @
      CHR 0x22 # quote_with (esc L) k2 @ CHR 0x22 # CHR '':'' # colon_ws L @ text)"
    and "sax p = \<lparr>root = F (JObject (obj_emplace k JNull m)), ref_stack = r # rs, object_element = Some (r @ [Key k])\<rparr>"
    and "states p = False # sts"
  shows "\<exists>p'. sax_parse_loop (get_token p) = sax_parse_loop (get_token p') \<and> before p' text \<and> states p' = False # sts \<and>
    sax p' = \<lparr>root = F (JObject (obj_emplace k2 JNull (obj_assign k (parsed v) m))), ref_stack = r # rs,
       object_element = Some (r @ [Key k2])\<rparr>"
proof -
  have h: "hole (sax p) (r @ [Key k]) (\<lambda>v. F (JObject (obj_assign k v m)))"
    using hole_member [of F r k m rs] assms(2,5) by (simp add: lens_def)
  let ?more = "item_ws L n @ CHR 0x22 # quote_with (esc L) k2 @ CHR 0x22 # CHR '':'' # colon_ws L @ text"
  obtain p1 where p1: "sax_parse_loop (get_token p) = resume p1" "before p1 (CHR '','' # ?more)"
      "states p1 = False # sts" "root (sax p1) = F (JObject (obj_assign k (parsed v) m))" "ref_stack (sax p1) = r # rs"
    using assms(5,6) parsesD [OF assms(1) h assms(4)] by (auto simp: delim_def)
  have "before (get_token p1) (CHR 0x22 # quote_with (esc L) k2 @ CHR 0x22 # CHR '':'' # colon_ws L @ text)"
    using token_punctuation [OF p1(2), of value_separator] before_ws [OF _ item_ws, of "get_token p1" n]
    by (simp add: punctuation_def)
  then obtain p2 where p2: "parse_member (get_token (get_token p1)) = Inr (get_token p2)"
      "before p2 text" "states p2 = False # sts"
      "sax p2 = \<lparr>root = F (JObject (obj_emplace k2 JNull (obj_assign k (parsed v) m))), ref_stack = r # rs,
         object_element = Some (r @ [Key k2])\<rparr>"
    using parse_member_key [of "get_token p1" k2 "text" r F "obj_assign k (parsed v) m" rs] assms(2,3) p1(3-5) by auto
  then show ?thesis using resume_next_member [OF p1(2,3) p2(1)] p1(1) by auto
qed

lemma parses_members:
  assumes "\<forall>(k', w) \<in> set ((k, v) # m'). utf8_valid k' \<and> parses L w \<and> json_ok w" "lens r F"
    and "before p (lay_text L n v @ (if m' = [] then [] else CHR '','' # lay_members L n m') @ cw @ CHR 0x7D # rest)"
      "list_all is_json_ws cw"
    and "sax p = \<lparr>root = F (JObject (obj_emplace k JNull m)), ref_stack = r # rs, object_element = Some (r @ [Key k])\<rparr>"
    and "states p = False # sts"
  shows "\<exists>p'. sax_parse_loop (get_token p) = resume p' \<and> before p' rest \<and> states p' = sts \<and>
    root (sax p') = F (JObject (assign_members (map (\<lambda>(k, v). (k, parsed v)) ((k, v) # m')) m)) \<and> ref_stack (sax p') = rs"
  using assms
proof (induction m' arbitrary: k v m p)
  case Nil
  have h: "hole (sax p) (r @ [Key k]) (\<lambda>v. F (JObject (obj_assign k v m)))"
    using hole_member [of F r k m rs] Nil.prems(2,5) by (simp add: lens_def)
  obtain p1 where p1: "sax_parse_loop (get_token p) = resume p1" "before p1 (cw @ CHR 0x7D # rest)"
      "states p1 = False # sts" "root (sax p1) = F (JObject (obj_assign k (parsed v) m))" "ref_stack (sax p1) = r # rs"
    using Nil.prems parsesD [OF _ h, of v n "cw @ CHR 0x7D # rest"] by (auto simp: delim_ws)
  then show ?case
    using resume_end_object [OF before_ws [OF p1(2) Nil.prems(4)] p1(3) _ p1(5), of "obj_assign k (parsed v) m"] Nil.prems(2) by (auto simp: lens_def)
next
  case (Cons a m')
  obtain k2 v2 where a: "a = (k2, v2)" by (cases a)
  let ?text = "lay_text L n v2 @ (if m' = [] then [] else CHR '','' # lay_members L n m') @ cw @ CHR 0x7D # rest"
  have p: "parses L v" "utf8_valid k2" "before p (lay_text L n v @ CHR '','' # item_ws L n @
      CHR 0x22 # quote_with (esc L) k2 @ CHR 0x22 # CHR '':'' # colon_ws L @ ?text)"
    using Cons.prems(1,3) a by simp_all
  obtain p2 where p2: "sax_parse_loop (get_token p) = sax_parse_loop (get_token p2)" "before p2 ?text"
      "states p2 = False # sts" "sax p2 = \<lparr>root = F (JObject (obj_emplace k2 JNull (obj_assign k (parsed v) m))),
         ref_stack = r # rs, object_element = Some (r @ [Key k2])\<rparr>"
    using parse_next_member [OF p(1) Cons.prems(2) p(2,3) Cons.prems(5,6)] by blast
  have "\<exists>p'. sax_parse_loop (get_token p2) = resume p' \<and> before p' rest \<and> states p' = sts \<and>
      root (sax p') = F (JObject (assign_members (map (\<lambda>(k, v). (k, parsed v)) ((k2, v2) # m')) (obj_assign k (parsed v) m))) \<and>
      ref_stack (sax p') = rs"
    using Cons.prems(1,2,4) a p2(2-4) by (intro Cons.IH) auto
  then show ?case using p2(1) a by simp
qed

text \<open>From an opening brace to the value of the first member.\<close>

lemma parse_first_member:
  assumes "before p (CHR 0x7B # item_ws L n @ CHR 0x22 # quote_with (esc L) k @ CHR 0x22 # CHR '':'' # colon_ws L @ text)"
    and "hole (sax p) r F" "utf8_valid k"
  shows "\<exists>q. sax_parse_loop (get_token p) = sax_parse_loop (get_token q) \<and> before q text \<and>
    states q = False # states p \<and>
    sax q = \<lparr>root = F (JObject (obj_emplace k JNull [])), ref_stack = r # ref_stack (sax p), object_element = Some (r @ [Key k])\<rparr>"
proof -
  let ?d = "\<lparr>root = F (JObject []), ref_stack = r # ref_stack (sax p), object_element = object_element (sax p)\<rparr>"
  let ?p1 = "(get_token p)\<lparr>sax := ?d\<rparr>"
  have tok: "last_token (get_token p) = begin_object"
      "before (get_token p) (item_ws L n @ CHR 0x22 # quote_with (esc L) k @ CHR 0x22 # CHR '':'' # colon_ws L @ text)"
    using token_punctuation [OF assms(1)] by (simp_all add: punctuation_def)
  have start: "on_sax start_object (get_token p) = Inr ?p1"
    using assms(2) by (simp add: on_sax_def start_object_def hole_def)
  have "before ?p1 (CHR 0x22 # quote_with (esc L) k @ CHR 0x22 # CHR '':'' # colon_ws L @ text)"
    using tok(2) before_ws [OF _ item_ws, of ?p1 n] by simp
  then obtain p2 where p2: "parse_member (get_token ?p1) = Inr (get_token p2)"
      "last_token (get_token ?p1) \<noteq> end_object" "before p2 text" "states p2 = states p"
      "sax p2 = \<lparr>root = F (JObject (obj_emplace k JNull [])), ref_stack = r # ref_stack (sax p),
         object_element = Some (r @ [Key k])\<rparr>"
    using parse_member_key [of ?p1 k "text" r F "[]" "ref_stack (sax p)"] hole_lens [OF assms(2)] assms(3) by auto
  let ?q = "p2\<lparr>states := False # states p\<rparr>"
  have "get_token ?q = (get_token p2)\<lparr>states := False # states p\<rparr>"
    by (simp add: get_token_def split: prod.split)
  then have "parse_value (get_token p) = Inr (False, get_token ?q)"
    using tok(1) start p2(1,2,4) by (simp add: parse_value_def parse_begin_object_def Let_def)
  then have "sax_parse_loop (get_token p) = sax_parse_loop (get_token ?q)"
    using tok(2) by (intro loop_continue) (simp_all add: before_def)
  then show ?thesis using p2(3,5) by (intro exI [of _ ?q]) simp
qed

lemma parse_empty_object:
  assumes "before p (CHR 0x7B # CHR 0x7D # rest)" "hole (sax p) r F"
  shows "\<exists>p'. sax_parse_loop (get_token p) = resume p' \<and> before p' rest \<and> states p' = states p \<and>
    root (sax p') = F (JObject []) \<and> ref_stack (sax p') = ref_stack (sax p)"
proof -
  let ?d = "\<lparr>root = F (JObject []), ref_stack = r # ref_stack (sax p), object_element = object_element (sax p)\<rparr>"
  let ?p1 = "(get_token p)\<lparr>sax := ?d\<rparr>"
  let ?p2 = "(get_token ?p1)\<lparr>sax := ?d\<lparr>ref_stack := ref_stack (sax p)\<rparr>\<rparr>"
  have tok: "last_token (get_token p) = begin_object" "before (get_token p) (CHR 0x7D # rest)"
    using token_punctuation [OF assms(1)] by (simp_all add: punctuation_def)
  have tok2: "last_token (get_token ?p1) = end_object" "before (get_token ?p1) rest"
    using token_punctuation [of ?p1 "CHR 0x7D" rest end_object] tok(2) by (simp_all add: punctuation_def)
  have "on_sax start_object (get_token p) = Inr ?p1"
    using assms(2) by (simp add: on_sax_def start_object_def hole_def)
  then have "parse_value (get_token p) = Inr (True, ?p2)"
    using tok(1) tok2(1) assms(2)
    by (simp add: parse_value_def parse_begin_object_def on_sax_def sax_end_object_def hole_def Let_def)
  then have "sax_parse_loop (get_token p) = resume ?p2"
    using tok(2) by (intro loop_value) (simp_all add: before_def)
  then show ?thesis using tok2(2) by (intro exI [of _ ?p2]) simp
qed

lemma parses_object:
  assumes "\<forall>(k, v) \<in> set m. utf8_valid k \<and> parses L v \<and> json_ok v"
  shows "parses L (JObject m)"
proof (unfold parses_def, intro allI impI)
  fix n p r F rest
  assume p: "before p (lay_text L n (JObject m) @ rest)" "delim rest" "hole (sax p) r F"
  show "\<exists>p'. sax_parse_loop (get_token p) = resume p' \<and> before p' rest \<and> states p' = states p \<and>
        root (sax p') = F (parsed (JObject m)) \<and> ref_stack (sax p') = ref_stack (sax p)"
  proof (cases m)
    case Nil
    then show ?thesis using parse_empty_object [OF _ p(3)] p(1) by simp
  next
    case (Cons a m')
    obtain k v where a: "a = (k, v)" by (cases a)
    let ?text = "lay_text L (Suc n) v @ (if m' = [] then [] else CHR '','' # lay_members L (Suc n) m') @ close_ws L n @ CHR 0x7D # rest"
    have "before p (CHR 0x7B # item_ws L (Suc n) @ CHR 0x22 # quote_with (esc L) k @ CHR 0x22 # CHR '':'' # colon_ws L @ ?text)"
        "utf8_valid k"
      using p(1) assms Cons a by simp_all
    then obtain q where q: "sax_parse_loop (get_token p) = sax_parse_loop (get_token q)" "before q ?text"
        "states q = False # states p" "sax q = \<lparr>root = F (JObject (obj_emplace k JNull [])),
           ref_stack = r # ref_stack (sax p), object_element = Some (r @ [Key k])\<rparr>"
      using parse_first_member [OF _ p(3)] by blast
    have "\<exists>p'. sax_parse_loop (get_token q) = resume p' \<and> before p' rest \<and> states p' = states p \<and>
        root (sax p') = F (JObject (assign_members (map (\<lambda>(k, v). (k, parsed v)) ((k, v) # m')) [])) \<and>
        ref_stack (sax p') = ref_stack (sax p)"
      using assms Cons a q hole_lens [OF p(3)] close_ws
      by (intro parses_members [where r = r and cw = "close_ws L n" and n = "Suc n"]) auto
    then show ?thesis using Cons a q(1) by simp
  qed
qed

lemma parses_ok: "json_ok j \<Longrightarrow> parses L j"
proof (induction j)
  case (JArray vs)
  then show ?case by (intro parses_array) auto
next
  case (JObject m)
  then show ?case by (intro parses_object) (auto intro: snds.intros)
qed (auto intro: parses_scalar)

lemma json_parse_lay_text:
  assumes "json_ok j" shows "json_parse (lay_text L n j) = Inr (parsed j)"
proof -
  define p where "p = \<lparr>m_lexer = new_lexer (lay_text L n j), last_token = uninitialized, sax = new_dom,
     states = [], skip_to_state_evaluation = False\<rparr>"
  have "before p (lay_text L n j @ [])" "hole (sax p) [] (\<lambda>v. v)" "states p = []"
    using reads_new_lexer hole_new_dom by (simp_all add: before_reads p_def)
  then obtain p' where p': "sax_parse_loop (get_token p) = resume p'" "before p' []" "states p' = []"
      "root (sax p') = parsed j"
    using parsesD [OF parses_ok [OF assms], of p "[]" "\<lambda>v. v" n "[]"] by auto
  have "sax_parse_loop (new_parser (lay_text L n j)) = Inr p'"
    using p'(1,3) by (simp add: new_parser_def resume_def evaluate_state_def flip: p_def)
  moreover have "last_token (get_token p') = end_of_input"
    using p'(2) scan_end by (auto simp: before_def get_token_def split_beta) metis
  ultimately show ?thesis using p'(4) by (simp add: json_parse_def Let_def)
qed

end

interpretation compact: json_layout compact_layout
  by unfold_locales (simp_all add: compact_layout_def readable_escape_byte)

lemma json_parse_text: "json_wf j \<Longrightarrow> json_parse (json_text j) = Inr j"
  using compact.json_parse_lay_text json_wf_parsed by (metis lay_text_compact(1))

text \<open>C8: what the serializer writes for a document, the parser reads back as that very document: the
  compact dump of a well-formed value always succeeds, and parsing its text (strictly, to the end of
  the input) gives the value again, whatever the nesting, whatever characters the strings hold and
  whatever finite numbers there are, floating point numbers bit for bit.\<close>

theorem json_dump_parse_roundtrip:
  assumes "json_wf j"
  shows "\<exists>txt. json_dump (-1) ch False strict j = Inr txt \<and> json_parse txt = Inr j"
  using json_dump_text [OF assms] json_parse_text [OF assms] by blast

lemma json_dump_parse_roundtrip_witness:
  "\<exists>txt. json_dump (-1) NUL False strict
       (JObject [(''a'', JArray [JNull, JInteger (-3), JFloat 0x3FB999999999999A]), (''b'', JString [CHR 0x22, CHR 0xEA, CHR 0xB0, CHR 0x80])])
     = Inr txt \<and> json_parse txt = Inr
       (JObject [(''a'', JArray [JNull, JInteger (-3), JFloat 0x3FB999999999999A]), (''b'', JString [CHR 0x22, CHR 0xEA, CHR 0xB0, CHR 0x80])])"
proof (rule json_dump_parse_roundtrip)
  show "json_wf (JObject [(''a'', JArray [JNull, JInteger (-3), JFloat 0x3FB999999999999A]),
      (''b'', JString [CHR 0x22, CHR 0xEA, CHR 0xB0, CHR 0x80])])"
    by (simp add: obj_sorted_def utf8_valid_def utf8_ranges_def less_char_def isfinite_def)
qed

end
