(* ===== verification/Packets.thy ===== *)
theory Packets
  imports Frames Json_Roundtrip
begin

text \<open>
  The packets of \<^verbatim>\<open>include/newbee/dataPacket.hpp\<close> and the parts of
  \<^verbatim>\<open>lib/newbee/dataElement.cpp\<close> that read JSON: what the program sends over the wire,
  how it is built from a client's JSON text, and the JSON it answers with. \<open>Header::seq\<close> is
  threaded through the operations that stamp a header.
\<close>

section \<open>From JSON\<close>

text \<open>\<open>Header::parse_json\<close>: the counter advances only when both keys could be read.\<close>

definition header_parse_json :: "seq_counter \<Rightarrow> bytes \<Rightarrow> header result \<times> seq_counter" where
  "header_parse_json seq input =
     (case rbind (json_parse input) (\<lambda>j.
             rbind (rbind (json_at j ''msg_type'') get_string) (\<lambda>tmp.
             rbind (rbind (json_at j ''action_code'') get_string) (\<lambda>tmp2. Inr (tmp, tmp2)))) of
        Inl e \<Rightarrow> (Inl e, seq)
      | Inr (tmp, tmp2) \<Rightarrow>
          (let h = new_header;
               h = h\<lparr>msg_type := memcpy_min (msg_type h) tmp\<rparr>;
               h = h\<lparr>action_code := memcpy_min (action_code h) tmp2\<rparr>;
               (tmp3, seq) = next_seq seq
           in (Inr (h\<lparr>seq_num := memcpy_min (seq_num h) tmp3\<rparr>), seq)))"

text \<open>The lambda \<open>copy\<close> of \<open>from_json\<close>: fill with NUL, then copy what fits.\<close>

definition copy_field :: "bytes \<Rightarrow> bytes \<Rightarrow> bytes" where
  "copy_field arr s = memcpy_min (zeros (length arr)) s"

text \<open>\<open>j[key].get<std::string>()\<close> on a \<open>const\<close> document.\<close>

definition field_text :: "json \<Rightarrow> bytes \<Rightarrow> bytes result" where
  "field_text j k = rbind (json_index_const j k) get_string"

definition sn_reginfo_body_from_json :: "json \<Rightarrow> sn_reginfo_body result" where
  "sn_reginfo_body_from_json j =
     (let b = new_sn_reginfo_body in
      rbind (field_text j ''cid'') (\<lambda>s. let b = b\<lparr>cid := copy_field (cid b) s\<rparr> in
      rbind (field_text j ''s_time'') (\<lambda>s. let b = b\<lparr>s_time := copy_field (s_time b) s\<rparr> in
      rbind (field_text j ''e_time'') (\<lambda>s. let b = b\<lparr>e_time := copy_field (e_time b) s\<rparr> in
      rbind (field_text j ''service_name'') (\<lambda>s. let b = b\<lparr>service_name := copy_field (service_name b) s\<rparr> in
      rbind (field_text j ''info_rate'') (\<lambda>s. let b = b\<lparr>info_rate := copy_field (info_rate b) s\<rparr> in
      rbind (field_text j ''body_msg_type'') (\<lambda>s. let b = b\<lparr>body_msg_type := copy_field (body_msg_type b) s\<rparr> in
      rbind (field_text j ''bill_type'') (\<lambda>s. let b = b\<lparr>bill_type := copy_field (bill_type b) s\<rparr> in
      rbind (field_text j ''bill_limit'') (\<lambda>s. Inr (b\<lparr>bill_limit := copy_field (bill_limit b) s\<rparr>))))))))))"

section \<open>Packets\<close>

datatype Body = Monostate | Reginfo sn_reginfo_body | Result result_body

record packet =
  header :: header
  body :: Body

definition new_packet :: packet where
  "new_packet = \<lparr>header = new_header, body = Monostate\<rparr>"

definition packet_of_type :: "seq_counter \<Rightarrow> MsgType \<Rightarrow> packet result \<times> seq_counter" where
  "packet_of_type seq t =
     (if t = LINK then
        (case set_msg_type new_header t of
           Inl e \<Rightarrow> (Inl e, seq)
         | Inr h \<Rightarrow> (let h = set_msg_len h t; (s, seq) = next_seq seq
                    in (Inr (new_packet\<lparr>header := set_seq_num h s\<rparr>), seq)))
      else (Inr new_packet, seq))"

fun bodyToString :: "Body \<Rightarrow> string" where
  "bodyToString Monostate = ''empty''"
| "bodyToString (Reginfo b) = sn_reginfo_body_toString b"
| "bodyToString (Result r) = result_body_toString r"

definition packet_toString :: "packet \<Rightarrow> string" where
  "packet_toString p = ''HEADER:'' @ header_toString (header p) @ CHR 0x0A # ''BODY:'' @ bodyToString (body p)"

fun body_size :: "Body \<Rightarrow> nat" where
  "body_size Monostate = 0"
| "body_size (Reginfo _) = sn_reginfo_body_SIZE"
| "body_size (Result _) = result_body_SIZE"

definition total_size :: "packet \<Rightarrow> nat" where
  "total_size p = header_SIZE + body_size (body p)"

text \<open>\<open>Packet::parse_json\<close> parses the text twice, as the code does.\<close>

definition packet_parse_json :: "seq_counter \<Rightarrow> bytes \<Rightarrow> packet result \<times> seq_counter" where
  "packet_parse_json seq input =
     (case json_parse input of
        Inl e \<Rightarrow> (Inl e, seq)
      | Inr j \<Rightarrow>
          (case header_parse_json seq input of
             (Inl e, seq) \<Rightarrow> (Inl e, seq)
           | (Inr h, seq) \<Rightarrow>
               (case msg_type_enum h of
                  LINK \<Rightarrow> (Inr (new_packet\<lparr>header := set_msg_len h LINK\<rparr>), seq)
                | SN_REGINFO \<Rightarrow>
                    (rbind (sn_reginfo_body_from_json j) (\<lambda>b.
                       Inr \<lparr>header = set_msg_len h SN_REGINFO, body = Reginfo b\<rparr>), seq)
                | _ \<Rightarrow> (Inl (Runtime_error ''unknown msg_type''), seq))))"

text \<open>The body is written at an offset of the buffer: the bytes before it stay.\<close>

definition serialize_at :: "nat \<Rightarrow> (bytes \<Rightarrow> bytes result) \<Rightarrow> bytes \<Rightarrow> bytes result" where
  "serialize_at off ser out = rbind (ser (drop off out)) (\<lambda>out'. Inr (take off out @ out'))"

fun body_serialize :: "Body \<Rightarrow> nat \<Rightarrow> bytes \<Rightarrow> bytes result" where
  "body_serialize Monostate off out = Inr out"
| "body_serialize (Reginfo b) off out = serialize_at off (sn_reginfo_body_serialize b) out"
| "body_serialize (Result r) off out = serialize_at off (result_body_serialize r) out"

definition packet_serialize :: "packet \<Rightarrow> bytes \<Rightarrow> nat \<Rightarrow> bytes result" where
  "packet_serialize p out out_size =
     (let need = total_size p in
      if out_size < need then Inl (Runtime_error ''serialize: output buffer too small'')
      else rbind (header_serialize (header p) out) (\<lambda>out. body_serialize (body p) header_SIZE out))"

section \<open>To JSON\<close>

text \<open>The UTF-8 bytes of the descriptions.\<close>

fun rslt_text :: "RsltType \<Rightarrow> bytes" where
  "rslt_text OK =
     [CHR 0xEC, CHR 0x84, CHR 0xB1, CHR 0xEA, CHR 0xB3, CHR 0xB5]"
| "rslt_text SYSFAIL =
     [CHR 0xEC, CHR 0x8B, CHR 0x9C, CHR 0xEC, CHR 0x8A, CHR 0xA4, CHR 0xED, CHR 0x85,
      CHR 0x9C, CHR 0x20, CHR 0xEC, CHR 0x8B, CHR 0xA4, CHR 0xED, CHR 0x8C, CHR 0xA8]"
| "rslt_text FORMAT_ERR =
     [CHR 0xED, CHR 0x8F, CHR 0xAC, CHR 0xEB, CHR 0xA7, CHR 0xB7, CHR 0x20, CHR 0xEC,
      CHR 0x98, CHR 0xA4, CHR 0xEB, CHR 0xA5, CHR 0x98]"
| "rslt_text ETC =
     [CHR 0xEA, CHR 0xB8, CHR 0xB0, CHR 0xED, CHR 0x83, CHR 0x80, CHR 0x20, CHR 0xEC,
      CHR 0x98, CHR 0xA4, CHR 0xEB, CHR 0xA5, CHR 0x98]"
| "rslt_text INVALID_BODYLEN =
     [CHR 0xEC, CHR 0x9E, CHR 0x98, CHR 0xEB, CHR 0xAA, CHR 0xBB, CHR 0xEB, CHR 0x90,
      CHR 0x9C, CHR 0x20, CHR 0x42, CHR 0x6F, CHR 0x64, CHR 0x79, CHR 0x20, CHR 0xEA, CHR 0xB8,
      CHR 0xB8, CHR 0xEC, CHR 0x9D, CHR 0xB4]"
| "rslt_text INVALID_CID =
     [CHR 0xEC, CHR 0x9E, CHR 0x98, CHR 0xEB, CHR 0xAA, CHR 0xBB, CHR 0xEB, CHR 0x90,
      CHR 0x9C, CHR 0x20, CHR 0x43, CHR 0x49, CHR 0x44]"
| "rslt_text DUP_CIDNO =
     [CHR 0xEC, CHR 0xA4, CHR 0x91, CHR 0xEB, CHR 0xB3, CHR 0xB5, CHR 0x20, CHR 0x43,
      CHR 0x49, CHR 0x44, CHR 0x4E, CHR 0x4F]"
| "rslt_text DUPINSERT =
     [CHR 0xEC, CHR 0xA4, CHR 0x91, CHR 0xEB, CHR 0xB3, CHR 0xB5, CHR 0x20, CHR 0xEB,
      CHR 0x93, CHR 0xB1, CHR 0xEB, CHR 0xA1, CHR 0x9D]"
| "rslt_text DUPDELETE =
     [CHR 0xEC, CHR 0xA4, CHR 0x91, CHR 0xEB, CHR 0xB3, CHR 0xB5, CHR 0x20, CHR 0xEC,
      CHR 0x82, CHR 0xAD, CHR 0xEC, CHR 0xA0, CHR 0x9C]"
| "rslt_text NOTROW =
     [CHR 0xEC, CHR 0xA1, CHR 0xB0, CHR 0xEA, CHR 0xB1, CHR 0xB4, CHR 0xEC, CHR 0x97,
      CHR 0x90, CHR 0x20, CHR 0xED, CHR 0x95, CHR 0xB4, CHR 0xEB, CHR 0x8B, CHR 0xB9, CHR 0xED,
      CHR 0x95, CHR 0x98, CHR 0xEB, CHR 0x8A, CHR 0x94, CHR 0x20, CHR 0x52, CHR 0x6F, CHR 0x77,
      CHR 0x20, CHR 0xEC, CHR 0x97, CHR 0x86, CHR 0xEC, CHR 0x9D, CHR 0x8C]"
| "rslt_text INVALID_ACTION =
     [CHR 0xEC, CHR 0x9E, CHR 0x98, CHR 0xEB, CHR 0xAA, CHR 0xBB, CHR 0xEB, CHR 0x90,
      CHR 0x9C, CHR 0x20, CHR 0x41, CHR 0x63, CHR 0x74, CHR 0x69, CHR 0x6F, CHR 0x6E]"

text \<open>The switch of \<open>result_desc\<close> on the converted code.\<close>

definition rslt_types :: "RsltType list" where
  "rslt_types = [OK, SYSFAIL, FORMAT_ERR, ETC, INVALID_BODYLEN, INVALID_CID, DUP_CIDNO, DUPINSERT,
     DUPDELETE, NOTROW, INVALID_ACTION]"

definition result_desc :: "int \<Rightarrow> bytes" where
  "result_desc code = (case find (\<lambda>r. rslt_type_code r = code) rslt_types of
       Some r \<Rightarrow> rslt_text r
     | None \<Rightarrow> ''UNKNOWN'')"

definition packet_to_json :: "packet \<Rightarrow> json result" where
  "packet_to_json p =
     rbind (json_index_assign JNull ''msg_type'' (JString (until_nul (get_msg_type (header p))))) (\<lambda>j.
       case body p of
         Result b \<Rightarrow>
           (let codeStr = until_nul (get_result b) in
            rbind (stoi codeStr) (\<lambda>code.
            rbind (json_index_assign j ''result_code'' (JString codeStr)) (\<lambda>j.
              json_index_assign j ''result_desc'' (JString (result_desc code)))))
       | _ \<Rightarrow> Inr j)"

section \<open>Well-formed packets\<close>

fun body_wf :: "Body \<Rightarrow> bool" where
  "body_wf Monostate = True"
| "body_wf (Reginfo b) = sn_reginfo_body_wf b"
| "body_wf (Result r) = result_body_wf r"

definition packet_wf :: "packet \<Rightarrow> bool" where
  "packet_wf p \<longleftrightarrow> header_wf (header p) \<and> body_wf (body p)"

fun body_layout :: "Body \<Rightarrow> bytes" where
  "body_layout Monostate = []"
| "body_layout (Reginfo b) = sn_reginfo_body_layout b"
| "body_layout (Result r) = result_field r"

definition packet_layout :: "packet \<Rightarrow> bytes" where
  "packet_layout p = header_layout (header p) @ body_layout (body p)"

lemma length_body_layout: "body_wf b \<Longrightarrow> length (body_layout b) = body_size b"
  by (cases b) (simp_all add: snb.length_layout rsb.length_layout)

lemma length_packet_layout: "packet_wf p \<Longrightarrow> length (packet_layout p) = total_size p"
  by (simp add: packet_wf_def packet_layout_def hdr.length_layout length_body_layout total_size_def)

lemma body_serialize_fits:
  assumes "body_wf b" "off + body_size b \<le> length out"
  shows "body_serialize b off out = Inr (take off out @ body_layout b @ drop (off + body_size b) out)"
  using assms
  by (cases b) (simp_all add: serialize_at_def snb.ser_fits rsb.ser_fits add.commute)

lemma packet_serialize_fits:
  assumes "packet_wf p" "total_size p \<le> out_size" "out_size \<le> length out"
  shows "packet_serialize p out out_size = Inr (packet_layout p @ drop (total_size p) out)"
proof -
  have h: "header_wf (header p)" "body_wf (body p)" using assms(1) by (simp_all add: packet_wf_def)
  have len: "length (header_layout (header p)) = header_SIZE" using h(1) by (rule hdr.length_layout)
  have "header_serialize (header p) out = Inr (header_layout (header p) @ drop header_SIZE out)"
    using assms h(1) by (intro hdr.ser_fits) (simp_all add: total_size_def)
  then show ?thesis
    using assms h(2) len
    by (simp add: packet_serialize_def Let_def body_serialize_fits packet_layout_def total_size_def add.commute)
qed

text \<open>C10: serialising a packet. With a size argument below the packet's size the call is refused
  and nothing is written; otherwise exactly the header and the body are written, the rest of the
  buffer stays, and the readers of the other side recover the header and, behind it, the
  registration body or the result.\<close>

theorem packet_wire_roundtrip:
  assumes "packet_wf p" and "out_size \<le> length out"
  shows "(out_size < total_size p \<longrightarrow>
            packet_serialize p out out_size = Inl (Runtime_error ''serialize: output buffer too small'')) \<and>
    (total_size p \<le> out_size \<longrightarrow> (\<exists>out'. packet_serialize p out out_size = Inr out' \<and>
       length out' = length out \<and> drop (total_size p) out' = drop (total_size p) out \<and>
       header_parse out' out_size = Inr (header p) \<and>
       (case body p of Monostate \<Rightarrow> True
        | Reginfo b \<Rightarrow> sn_reginfo_body_parse (drop header_SIZE out') n = Inr b
        | Result r \<Rightarrow> result_body_parse (drop header_SIZE out') n = Inr r)))"
proof (intro conjI impI)
  assume "out_size < total_size p"
  then show "packet_serialize p out out_size = Inl (Runtime_error ''serialize: output buffer too small'')"
    by (simp add: packet_serialize_def)
next
  assume fits: "total_size p \<le> out_size"
  let ?out = "packet_layout p @ drop (total_size p) out"
  have h: "header_wf (header p)" "body_wf (body p)" using assms(1) by (simp_all add: packet_wf_def)
  have len: "length (packet_layout p) = total_size p" "length (header_layout (header p)) = 24"
    using assms(1) h(1) hdr.length_layout by (auto simp: length_packet_layout frame_sizes)
  have "header_deserialize new_header (header_layout (header p) @ x) = Inr (header p)" for x
    using h(1) by (rule hdr.des_layout)
  then have "header_parse ?out out_size = Inr (header p)"
    using fits by (simp add: header_parse_deserialize packet_layout_def total_size_def frame_sizes)
  moreover have "drop header_SIZE ?out = body_layout (body p) @ drop (total_size p) out"
    using len(2) by (simp add: packet_layout_def frame_sizes)
  then have "case body p of Monostate \<Rightarrow> True
        | Reginfo b \<Rightarrow> sn_reginfo_body_parse (drop header_SIZE ?out) n = Inr b
        | Result r \<Rightarrow> result_body_parse (drop header_SIZE ?out) n = Inr r"
    using h(2) snb.des_layout snb.length_layout
    by (cases "body p") (auto simp: sn_reginfo_body_parse_fits frame_sizes result_body_parse_def
        read_array_def read_at_def result_body_wf_def)
  ultimately show "\<exists>out'. packet_serialize p out out_size = Inr out' \<and>
       length out' = length out \<and> drop (total_size p) out' = drop (total_size p) out \<and>
       header_parse out' out_size = Inr (header p) \<and>
       (case body p of Monostate \<Rightarrow> True
        | Reginfo b \<Rightarrow> sn_reginfo_body_parse (drop header_SIZE out') n = Inr b
        | Result r \<Rightarrow> result_body_parse (drop header_SIZE out') n = Inr r)"
    using packet_serialize_fits [OF assms(1) fits assms(2)] fits assms(2) len(1)
    by (intro exI [of _ ?out]) simp
qed

lemma packet_wire_roundtrip_witness:
  "packet_serialize \<lparr>header = new_header, body = Result new_result_body\<rparr> (zeros 40) 27 =
     Inl (Runtime_error ''serialize: output buffer too small'') \<and>
   (\<exists>out'. packet_serialize \<lparr>header = new_header, body = Result new_result_body\<rparr> (zeros 40) 28 = Inr out')"
  using packet_wire_roundtrip [of "\<lparr>header = new_header, body = Result new_result_body\<rparr>" 27 "zeros 40" 0]
    packet_wire_roundtrip [of "\<lparr>header = new_header, body = Result new_result_body\<rparr>" 28 "zeros 40" 0]
  by (auto simp: packet_wf_def wf_intros total_size_def frame_sizes)

section \<open>Requests\<close>

text \<open>The header of a request that names both keys.\<close>

definition request_header :: "seq_counter \<Rightarrow> bytes \<Rightarrow> bytes \<Rightarrow> header" where
  "request_header seq mt ac = \<lparr>msg_type = memcpy_min (zeros 3) mt, msg_len = zeros 6,
     action_code = memcpy_min (zeros 2) ac, seq_num = stamp seq\<rparr>"

lemma header_parse_json_object:
  assumes "json_parse input = Inr (JObject m)" "map_of m ''msg_type'' = Some (JString mt)"
    "map_of m ''action_code'' = Some (JString ac)"
  shows "header_parse_json seq input = (Inr (request_header seq mt ac), seq + 1)"
  using assms by (simp add: header_parse_json_def request_header_def new_header_def stamp_def next_seq_def set_seq_num_def)

lemma msg_type_enum_request:
  "msg_type_enum (request_header seq ''1'' ac) = LINK" "msg_type_enum (request_header seq ''3'' ac) = SN_REGINFO"
  by (simp_all add: request_header_def msg_type_enum_def memcpy_min_def zeros_numeral(1))

lemma header_wf_request: "header_wf (request_header seq mt ac)"
  by (simp add: header_wf_def request_header_def stamp_def set_seq_num_def new_header_def)

text \<open>The keys of a registration in the order they are read, and the body they make.\<close>

definition reginfo_keys :: "bytes list" where
  "reginfo_keys = [''cid'', ''s_time'', ''e_time'', ''service_name'', ''info_rate'', ''body_msg_type'',
     ''bill_type'', ''bill_limit'']"

definition reginfo_body_of :: "(bytes \<Rightarrow> bytes) \<Rightarrow> sn_reginfo_body" where
  "reginfo_body_of v = \<lparr>cid = memcpy_min (zeros 12) (v ''cid''), s_time = memcpy_min (zeros 11) (v ''s_time''),
     e_time = memcpy_min (zeros 11) (v ''e_time''), service_name = memcpy_min (zeros 32) (v ''service_name''),
     info_rate = memcpy_min (zeros 11) (v ''info_rate''), body_msg_type = memcpy_min (zeros 2) (v ''body_msg_type''),
     bill_type = memcpy_min (zeros 2) (v ''bill_type''), bill_limit = memcpy_min (zeros 2) (v ''bill_limit''),
     reserverd_field_1 = zeros 3\<rparr>"

lemma sn_reginfo_body_wf_of: "sn_reginfo_body_wf (reginfo_body_of v)"
  by (simp add: sn_reginfo_body_wf_def reginfo_body_of_def)

lemma field_text_object: "map_of m k = Some (JString s) \<Longrightarrow> field_text (JObject m) k = Inr s"
  by (simp add: field_text_def)

lemma from_json_object:
  assumes "\<forall>k \<in> set reginfo_keys. map_of m k = Some (JString (v k))"
  shows "sn_reginfo_body_from_json (JObject m) = Inr (reginfo_body_of v)"
  using assms
  by (simp add: reginfo_keys_def sn_reginfo_body_from_json_def field_text_object copy_field_def
      new_sn_reginfo_body_def reginfo_body_of_def)

definition registration_packet :: "seq_counter \<Rightarrow> bytes \<Rightarrow> (bytes \<Rightarrow> bytes) \<Rightarrow> packet" where
  "registration_packet seq ac v =
     \<lparr>header = set_msg_len (request_header seq ''3'' ac) SN_REGINFO, body = Reginfo (reginfo_body_of v)\<rparr>"

lemma packet_wf_registration: "packet_wf (registration_packet seq ac v)"
  using header_wf_request [of seq "''3''" ac]
  by (simp add: packet_wf_def registration_packet_def sn_reginfo_body_wf_of header_wf_def set_msg_len_def)

lemma parse_registration:
  assumes "json_parse input = Inr (JObject m)" "map_of m ''msg_type'' = Some (JString ''3'')"
    and "map_of m ''action_code'' = Some (JString ac)"
    and "\<forall>k \<in> set reginfo_keys. map_of m k = Some (JString (v k))"
  shows "packet_parse_json seq input = (Inr (registration_packet seq ac v), seq + 1)"
  using assms(1) header_parse_json_object [OF assms(1-3)] from_json_object [OF assms(4)]
  by (simp add: packet_parse_json_def msg_type_enum_request registration_packet_def)

text \<open>Whatever the text is, a packet made from it has the sizes of its arrays.\<close>

lemma header_parse_wf: "header_parse_json seq input = (Inr h, seq') \<Longrightarrow> \<exists>mt ac. h = request_header seq mt ac"
  by (auto simp: header_parse_json_def request_header_def new_header_def stamp_def next_seq_def set_seq_num_def Let_def
      split: sum.splits)

lemma from_json_wf: "sn_reginfo_body_from_json j = Inr b \<Longrightarrow> sn_reginfo_body_wf b"
  by (auto simp: sn_reginfo_body_from_json_def Let_def rbind_eq_Inr_iff copy_field_def sn_reginfo_body_wf_def
      new_sn_reginfo_body_def)

lemma packet_parse_wf: "packet_parse_json seq input = (Inr p, seq') \<Longrightarrow> packet_wf p"
  using header_wf_request
  by (auto simp: packet_parse_json_def packet_wf_def header_wf_def set_msg_len_def new_packet_def rbind_eq_Inr_iff
      split: sum.splits prod.splits MsgType.splits dest!: header_parse_wf from_json_wf)

text \<open>A request takes the number of the counter; one that is refused may have used it up.\<close>

lemma packet_parse_stamp:
  "packet_parse_json seq input = (Inr p, seq') \<Longrightarrow> seq_num (header p) = stamp seq \<and> seq' = seq + 1"
  "packet_parse_json seq input = (Inl e, seq') \<Longrightarrow> seq' = seq \<or> seq' = seq + 1"
  by (auto simp: packet_parse_json_def header_parse_json_def set_msg_len_def new_packet_def stamp_def set_seq_num_def
      next_seq_def new_header_def Let_def rbind_eq_Inr_iff split: sum.splits prod.splits MsgType.splits)

text \<open>C9: a registration request. Text that parses to an object with the message type "3" and all
  ten keys holding strings becomes the registration packet: the length field says 86, the header
  carries the next sequence number, every body field is the client's text cut to the field's size
  or padded with NUL, and exactly one sequence number is used up.\<close>

theorem packet_parse_json_registration:
  assumes "json_parse input = Inr (JObject m)" "map_of m ''msg_type'' = Some (JString ''3'')"
    and "map_of m ''action_code'' = Some (JString ac)"
    and "\<forall>k \<in> set reginfo_keys. map_of m k = Some (JString (v k))"
  shows "packet_parse_json seq input = (Inr \<lparr>header = \<lparr>msg_type = [CHR ''3'', NUL, NUL],
      msg_len = [CHR ''8'', CHR ''6'', NUL, NUL, NUL, NUL], action_code = memcpy_min (zeros 2) ac,
      seq_num = stamp seq\<rparr>, body = Reginfo (reginfo_body_of v)\<rparr>, seq + 1)"
proof -
  have "to_string_nat 86 = [CHR ''8'', CHR ''6'']" by (simp add: to_string_nat.simps [of 86] to_string_small)
  then have "set_msg_len (request_header seq ''3'' ac) SN_REGINFO =
      \<lparr>msg_type = [CHR ''3'', NUL, NUL], msg_len = [CHR ''8'', CHR ''6'', NUL, NUL, NUL, NUL],
       action_code = memcpy_min (zeros 2) ac, seq_num = stamp seq\<rparr>"
    by (simp add: set_msg_len_def request_header_def frame_sizes memcpy_min_def zeros_numeral(1))
  then show ?thesis using parse_registration [OF assms] by (simp add: registration_packet_def)
qed

text \<open>A request for the witnesses: every body key holds the text "x".\<close>

definition sample_request :: "(bytes \<times> json) list" where
  "sample_request = [(''action_code'', JString ''01''), (''bill_limit'', JString ''x''), (''bill_type'', JString ''x''),
     (''body_msg_type'', JString ''x''), (''cid'', JString ''x''), (''e_time'', JString ''x''),
     (''info_rate'', JString ''x''), (''msg_type'', JString ''3''), (''s_time'', JString ''x''),
     (''service_name'', JString ''x'')]"

lemma sample_request_wf: "json_wf (JObject sample_request)"
  by (simp add: sample_request_def obj_sorted_def utf8_valid_def less_char_def)

lemma sample_request_fields:
  "map_of sample_request ''msg_type'' = Some (JString ''3'')"
  "map_of sample_request ''action_code'' = Some (JString ''01'')"
  "\<forall>k \<in> set reginfo_keys. map_of sample_request k = Some (JString ((\<lambda>_. ''x'') k))"
  by (simp_all add: sample_request_def reginfo_keys_def)

lemma packet_parse_json_registration_witness:
  "packet_parse_json 7 (json_text (JObject sample_request)) = (Inr \<lparr>header = \<lparr>msg_type = [CHR ''3'', NUL, NUL],
      msg_len = [CHR ''8'', CHR ''6'', NUL, NUL, NUL, NUL], action_code = ''01'',
      seq_num = stamp 7\<rparr>, body = Reginfo (reginfo_body_of (\<lambda>_. ''x''))\<rparr>, 8)"
  using packet_parse_json_registration [OF json_parse_text [OF sample_request_wf] sample_request_fields, of 7]
  by (simp add: memcpy_min_def)

text \<open>C11: the eight body keys are read with the unchecked \<open>operator[]\<close>. When a registration lacks
  one of them, and the keys read before it are strings, the process is aborted by the library's
  assertion: no exception reaches the \<open>catch\<close> of the server. The keys of the header are read
  with \<open>at\<close>, and a missing one is an ordinary exception.\<close>

theorem registration_missing_key_aborts:
  assumes "json_parse input = Inr (JObject m)" "map_of m ''msg_type'' = Some (JString ''3'')"
    and "i < length reginfo_keys" "map_of m (reginfo_keys ! i) = None"
    and "\<forall>k < i. map_of m (reginfo_keys ! k) = Some (JString (v k))"
  shows "(case map_of m ''action_code'' of
      Some (JString ac) \<Rightarrow> (\<exists>a. packet_parse_json seq input = (Inl (Assertion_failed a), seq + 1))
    | Some _ \<Rightarrow> packet_parse_json seq input = (Inl (Json_type_error 302), seq)
    | None \<Rightarrow> packet_parse_json seq input = (Inl (Json_out_of_range 403), seq))"
proof -
  have missing: "\<exists>a. sn_reginfo_body_from_json (JObject m) = Inl (Assertion_failed a)"
  proof -
    have none: "map_of m k = None \<Longrightarrow> \<exists>a. field_text (JObject m) k = Inl (Assertion_failed a)" for k
      by (simp add: field_text_def)
    consider "i = 0" | "i = 1" | "i = 2" | "i = 3" | "i = 4" | "i = 5" | "i = 6" | "i = 7"
      using assms(3) by (fastforce simp: reginfo_keys_def)
    then show ?thesis
      using assms(4,5)
      by cases (auto simp: reginfo_keys_def sn_reginfo_body_from_json_def field_text_object Let_def
        All_less_Suc eval_nat_numeral dest!: none)
  qed
  show ?thesis
  proof (cases "map_of m ''action_code''")
    case None
    then show ?thesis using assms(1,2) by (simp add: packet_parse_json_def header_parse_json_def)
  next
    case (Some a)
    show ?thesis
    proof (cases "\<exists>s. a = JString s")
      case True
      then obtain ac where ac: "a = JString ac" by blast
      show ?thesis
        using header_parse_json_object [OF assms(1,2), of ac seq] missing Some ac assms(1)
        by (auto simp: packet_parse_json_def msg_type_enum_request)
    next
      case False
      then show ?thesis
        using Some assms(1,2) by (cases a) (simp_all add: packet_parse_json_def header_parse_json_def)
    qed
  qed
qed

text \<open>The sample request without its first body key.\<close>

definition cidless_request :: "(bytes \<times> json) list" where
  "cidless_request = [(''action_code'', JString ''01''), (''msg_type'', JString ''3'')]"

lemma registration_missing_key_aborts_witness:
  "\<exists>a. packet_parse_json 7 (json_text (JObject cidless_request)) = (Inl (Assertion_failed a), 8)"
proof -
  have "json_wf (JObject cidless_request)"
    by (simp add: cidless_request_def obj_sorted_def utf8_valid_def less_char_def)
  from registration_missing_key_aborts [OF json_parse_text [OF this], of 0 "\<lambda>_. []" 7]
  show ?thesis by (simp add: cidless_request_def reginfo_keys_def)
qed

section \<open>Packets made from a type\<close>

lemma packet_of_link:
  "\<exists>p. packet_of_type seq LINK = (Inr p, seq + 1) \<and> packet_wf p \<and> body p = Monostate \<and>
     msg_type_enum (header p) = LINK \<and> get_msg_len (header p) = Inr 0 \<and> seq_num (header p) = stamp seq"
proof -
  let ?h = "\<lparr>msg_type = [CHR ''1'', NUL, NUL], msg_len = CHR ''0'' # zeros 5, action_code = zeros 2, seq_num = stamp seq\<rparr>"
  have "set_msg_type new_header LINK = Inr (new_header\<lparr>msg_type := [CHR ''1'', NUL, NUL]\<rparr>)"
    using msg_type_codes [of LINK] set_msg_type_eq [of new_header LINK] by (simp add: new_header_def)
  then have "packet_of_type seq LINK = (Inr \<lparr>header = ?h, body = Monostate\<rparr>, seq + 1)"
    by (simp add: packet_of_type_def set_msg_len_def to_string_small memcpy_min_fits new_header_def new_packet_def
        next_seq_def set_seq_num_def stamp_def)
  moreover have "get_msg_len ?h = Inr 0"
    using stoul_to_string_padded [of 0 5] by (simp add: get_msg_len_def to_string_small)
  moreover have "msg_type_enum ?h = LINK" by (simp add: msg_type_enum_def)
  moreover have "header_wf ?h" by (simp add: header_wf_def stamp_def set_seq_num_def new_header_def)
  ultimately show ?thesis
    by (intro exI [of _ "\<lparr>header = ?h, body = Monostate\<rparr>"]) (simp add: packet_wf_def)
qed

text \<open>C12: the constructor from a message type fills the header for \<open>LINK\<close> only: that packet carries
  its type, the length 0 and the next sequence number, and uses the number up. For every other type,
  the acknowledgements included, the packet is 24 NUL bytes whose type reads as unknown.\<close>

theorem packet_of_type_only_link:
  "(\<exists>p. packet_of_type seq LINK = (Inr p, seq + 1) \<and> packet_wf p \<and> body p = Monostate \<and>
      msg_type_enum (header p) = LINK \<and> get_msg_len (header p) = Inr 0 \<and> seq_num (header p) = stamp seq) \<and>
   (\<forall>t. t \<noteq> LINK \<longrightarrow> packet_of_type seq t = (Inr new_packet, seq) \<and>
      packet_layout new_packet = zeros 24 \<and> msg_type_enum (header new_packet) = UNKNOWN)"
proof
  show "\<exists>p. packet_of_type seq LINK = (Inr p, seq + 1) \<and> packet_wf p \<and> body p = Monostate \<and>
      msg_type_enum (header p) = LINK \<and> get_msg_len (header p) = Inr 0 \<and> seq_num (header p) = stamp seq"
    by (rule packet_of_link)
next
  have "packet_layout new_packet = zeros 24"
    by (simp add: packet_layout_def new_packet_def header_layout_def new_header_def zeros_def flip: replicate_add)
  moreover have "msg_type_enum (header new_packet) = UNKNOWN"
    by (simp add: msg_type_enum_def new_packet_def new_header_def zeros_numeral(1))
  ultimately show "\<forall>t. t \<noteq> LINK \<longrightarrow> packet_of_type seq t = (Inr new_packet, seq) \<and>
      packet_layout new_packet = zeros 24 \<and> msg_type_enum (header new_packet) = UNKNOWN"
    by (simp add: packet_of_type_def)
qed

lemma packet_of_type_only_link_witness:
  "packet_of_type 5 REQ_RESULT_ACK = (Inr new_packet, 5)"
  using packet_of_type_only_link [of 5] by simp

section \<open>Answers\<close>

lemma utf8_valid_rslt_text: "utf8_valid (rslt_text r)"
  by (cases r) (simp_all add: utf8_valid_def utf8_ranges_def)

lemma utf8_valid_result_desc: "utf8_valid (result_desc code)"
  by (auto simp: result_desc_def utf8_valid_rslt_text utf8_valid_ascii split: option.split)

lemma result_desc_code: "result_desc (rslt_type_code r) = rslt_text r"
  by (cases r) (simp_all add: result_desc_def rslt_types_def)

lemma utf8_valid_digits: "\<forall>c \<in> set s. is_digit c \<Longrightarrow> utf8_valid s"
  by (rule utf8_valid_ascii) (auto simp: is_digit_def)

definition answer_object :: "header \<Rightarrow> RsltType \<Rightarrow> json" where
  "answer_object h r = JObject
     [(''msg_type'', JString (until_nul (msg_type h))),
      (''result_code'', JString (to_string_int (rslt_type_code r))),
      (''result_desc'', JString (rslt_text r))]"

lemma rslt_code_text:
  "to_string_int (rslt_type_code r) = to_string_nat (nat (rslt_type_code r))" "nat (rslt_type_code r) < 2 ^ 31"
  by (cases r; simp add: to_string_int_def)+

lemma answer_object_wf: "\<forall>c \<in> set (until_nul (msg_type h)). is_digit c \<Longrightarrow> json_wf (answer_object h r)"
  using to_string_nat_digits [of "nat (rslt_type_code r)"]
  by (simp add: answer_object_def utf8_valid_rslt_text obj_sorted_def less_char_def utf8_valid_ascii
      utf8_valid_digits rslt_code_text(1))

lemma packet_to_json_result:
  "body p = Result \<lparr>result_field = to_string_int (rslt_type_code r) @ zeros k\<rparr> \<Longrightarrow>
   packet_to_json p = Inr (answer_object (header p) r)"
proof -
  let ?c = "to_string_int (rslt_type_code r)"
  have "until_nul (?c @ zeros k) = ?c" unfolding rslt_code_text(1) by (rule until_nul_pad) simp
  moreover have "stoi ?c = Inr (rslt_type_code r)"
    using stoi_to_string [OF rslt_code_text(2), of "[]" r] rslt_code_text(1) [of r] by (cases r) simp_all
  ultimately show "body p = Result \<lparr>result_field = ?c @ zeros k\<rparr> \<Longrightarrow> packet_to_json p = Inr (answer_object (header p) r)"
    by (simp add: packet_to_json_def get_result_def get_msg_type_def result_desc_code obj_assign_def less_char_def
        answer_object_def)
qed

text \<open>C13: the answer to the client. For a result packet whose code field holds the decimal digits of
  a known result, \<open>to_json\<close> delivers the object with the type, the code as text and the Korean
  description of exactly that result; it can always be dumped, and the client's parser reads the
  same object from the dumped text. A code field without digits raises \<open>invalid_argument\<close>.\<close>

theorem packet_to_json_answer:
  assumes "body p = Result b" "\<forall>c \<in> set (until_nul (msg_type (header p))). is_digit c"
  shows "(result_field b = to_string_int (rslt_type_code r) @ zeros k \<longrightarrow>
      (\<exists>j txt. packet_to_json p = Inr j \<and> j = JObject
           [(''msg_type'', JString (until_nul (msg_type (header p)))),
            (''result_code'', JString (to_string_int (rslt_type_code r))),
            (''result_desc'', JString (rslt_text r))] \<and>
         json_dump (-1) ch False strict j = Inr txt \<and> json_parse txt = Inr j)) \<and>
    (result_field b = zeros k \<longrightarrow> packet_to_json p = Inl (Invalid_argument ''stoi''))"
proof (intro conjI impI)
  assume "result_field b = to_string_int (rslt_type_code r) @ zeros k"
  then have "body p = Result \<lparr>result_field = to_string_int (rslt_type_code r) @ zeros k\<rparr>"
    using assms(1) by (cases b) simp
  then have json: "packet_to_json p = Inr (answer_object (header p) r)" by (rule packet_to_json_result)
  have "json_wf (answer_object (header p) r)" using assms(2) by (rule answer_object_wf)
  then show "\<exists>j txt. packet_to_json p = Inr j \<and> j = JObject
           [(''msg_type'', JString (until_nul (msg_type (header p)))),
            (''result_code'', JString (to_string_int (rslt_type_code r))),
            (''result_desc'', JString (rslt_text r))] \<and>
         json_dump (-1) ch False strict j = Inr txt \<and> json_parse txt = Inr j"
    using json json_dump_text json_parse_text unfolding answer_object_def by blast
next
  assume "result_field b = zeros k"
  then have "until_nul (get_result b) = []" by (cases k) (simp_all add: get_result_def until_nul_def)
  then show "packet_to_json p = Inl (Invalid_argument ''stoi'')"
    using assms(1) by (simp add: packet_to_json_def stoi_def strto_scan_def)
qed

lemma packet_to_json_answer_witness:
  "\<exists>j. packet_to_json \<lparr>header = new_header, body = Result \<lparr>result_field = ''14'' @ zeros 2\<rparr>\<rparr> = Inr j"
proof -
  have "to_string_int 14 = ''14''" by (simp add: to_string_int_def to_string_nat.simps [of 14] to_string_small)
  then show ?thesis
    using packet_to_json_answer [of "\<lparr>header = new_header, body = Result \<lparr>result_field = ''14'' @ zeros 2\<rparr>\<rparr>"
        "\<lparr>result_field = ''14'' @ zeros 2\<rparr>" INVALID_BODYLEN 2 NUL]
    by (auto simp: new_header_def until_nul_def zeros_numeral(1))
qed

end
