(* ===== verification/Queues.thy ===== *)
theory Queues
  imports Prelude
begin

text \<open>
  \<^verbatim>\<open>include/zserver/ThreadSafeQueue.hpp\<close> and \<^verbatim>\<open>include/zserver/Queue.hpp\<close>.
  What runs under a queue's mutex is one atomic step on the list of items (oldest first). The waits of
  \<open>ThreadSafeQueue\<close> release it: a call is a pass under the mutex, and another one whenever the thread has woken up. The threads
  at a queue, with notifications, timeouts, spurious wake-ups and stop requests, are the step relation
  \<open>tsq_step\<close>. The contract of a first-in first-out queue is a locale that both classes provide.
\<close>

section \<open>The contract\<close>

locale fifo_queue =
  fixes push :: "'a \<Rightarrow> 'q \<Rightarrow> 'q"
    and pop :: "'q \<Rightarrow> 'a option \<times> 'q"
    and items :: "'q \<Rightarrow> 'a list"
  assumes items_push: "items (push x q) = items q @ [x]"
    and pop_empty: "items q = [] \<Longrightarrow> pop q = (None, q)"
    and pop_front: "items q = x # xs \<Longrightarrow> \<exists>q'. pop q = (Some x, q') \<and> items q' = xs"
begin

lemma items_push_list: "items (fold push xs q) = items q @ xs"
  by (induction xs arbitrary: q) (simp_all add: items_push)

lemma pop_items: "pop q = (r, q') \<Longrightarrow> items q = (case r of None \<Rightarrow> [] | Some x \<Rightarrow> [x]) @ items q'"
  using pop_empty [of q] pop_front [of q] by (cases "items q") fastforce+

lemma pop_none_iff: "fst (pop q) = None \<longleftrightarrow> items q = []"
  using pop_empty [of q] pop_front [of q] by (cases "items q") fastforce+

text \<open>Everything that went in is what has come out, in order, followed by what is still in.\<close>

lemma conservation:
  assumes "pop (fold push xs q) = (Some x, q')"
  shows "items q @ xs = x # items q'"
  using pop_items [OF assms] by (simp add: items_push_list)

end

section \<open>\<open>ThreadSafeQueue\<close>\<close>

type_synonym 'a tsq = "'a list"

definition push_noti :: "'a \<Rightarrow> 'a tsq \<Rightarrow> 'a tsq" where
  "push_noti v q = q @ [v]"

text \<open>The common end of both waits.\<close>

definition tsq_take :: "'a tsq \<Rightarrow> 'a option \<times> 'a tsq" where
  "tsq_take q = (case q of [] \<Rightarrow> (None, q) | v # q' \<Rightarrow> (Some v, q'))"

text \<open>One pass of \<open>pop_wait (st)\<close> under the mutex, when the thread calls it and whenever it has
  woken up: with an item, or with a stop requested, the wait is over; otherwise the thread
  goes (back) into the wait.\<close>

definition pop_wait :: "bool \<Rightarrow> 'a tsq \<Rightarrow> ('a option \<times> 'a tsq) option" where
  "pop_wait stop_requested q = (if q = [] \<and> \<not> stop_requested then None else Some (tsq_take q))"

text \<open>One pass of \<open>pop_wait_for (st, dur)\<close>, which also ends when the time is over.\<close>

definition pop_wait_for :: "bool \<Rightarrow> bool \<Rightarrow> 'a tsq \<Rightarrow> ('a option \<times> 'a tsq) option" where
  "pop_wait_for stop_requested time_over q =
     (if q = [] \<and> \<not> stop_requested \<and> \<not> time_over then None else Some (tsq_take q))"

text \<open>A whole call of \<open>pop_wait_for\<close> as the caller sees it: the first pass, and the one that ends the
  wait. \<open>arrivals\<close> are what is pushed between them; the time is over in the second, so it returns. A stop
  request in its place gives the same.\<close>

definition timed_pop :: "'a list \<Rightarrow> 'a tsq \<Rightarrow> 'a option \<times> 'a tsq" where
  "timed_pop arrivals q = (case pop_wait_for False False q of
       Some r \<Rightarrow> r
     | None \<Rightarrow> the (pop_wait_for False True (fold push_noti arrivals q)))"

interpretation tsq: fifo_queue push_noti tsq_take "\<lambda>q. q"
  by unfold_locales (simp_all add: push_noti_def tsq_take_def)

section \<open>\<open>Queue\<close>\<close>

definition queue_push :: "'a \<Rightarrow> 'a list \<Rightarrow> 'a list" where
  "queue_push v q = q @ [v]"

definition priority_push :: "'a \<Rightarrow> 'a list \<Rightarrow> 'a list" where
  "priority_push v q = v # q"

definition queue_empty :: "'a list \<Rightarrow> bool" where
  "queue_empty q \<longleftrightarrow> q = []"

text \<open>\<open>pop\<close> waits in a loop until the queue is non-empty: without an arrival it never returns.\<close>

definition queue_pop :: "'a list \<Rightarrow> 'a list \<Rightarrow> ('a \<times> 'a list) option" where
  "queue_pop arrivals q =
     (case (if queue_empty q then fold queue_push arrivals q else q) of
        [] \<Rightarrow> None
      | v # q' \<Rightarrow> Some (v, q'))"

text \<open>\<open>try_pop (v)\<close>: whether there was an item; \<open>v\<close> keeps its value when there was none.\<close>

definition try_pop :: "'a \<Rightarrow> 'a list \<Rightarrow> bool \<times> 'a \<times> 'a list" where
  "try_pop v q = (case q of [] \<Rightarrow> (False, v, q) | x # q' \<Rightarrow> (True, x, q'))"

definition try_pop_option :: "'a list \<Rightarrow> 'a option \<times> 'a list" where
  "try_pop_option q = (if queue_empty q then (None, q)
     else let (ok, v, q') = try_pop (hd q) q in (if ok then Some v else None, q'))"

interpretation dq: fifo_queue queue_push try_pop_option "\<lambda>q. q"
  by unfold_locales (simp_all add: queue_push_def try_pop_option_def try_pop_def queue_empty_def)

section \<open>The threads at a queue\<close>

text \<open>The threads inside a wait, by number: those in the wait of the condition variable, and those that
  have left it and go for the mutex. Per thread: whether its call is \<open>pop_wait_for\<close>, whether the time of
  that call is over, whether its stop token was triggered. \<open>returned\<close> is what the calls have returned so
  far, in order.\<close>

record 'a tsq_threads =
  queued :: "'a tsq"
  waiters :: "nat list"
  woken :: "nat list"
  timed :: "nat \<Rightarrow> bool"
  time_over :: "nat \<Rightarrow> bool"
  stopping :: "nat \<Rightarrow> bool"
  returned :: "(nat \<times> 'a option) list"

definition new_tsq :: "'a tsq_threads" where
  "new_tsq = \<lparr>queued = [], waiters = [], woken = [], timed = (\<lambda>_. False), time_over = (\<lambda>_. False),
     stopping = (\<lambda>_. False), returned = []\<rparr>"

definition wait_pass :: "nat \<Rightarrow> 'a tsq_threads \<Rightarrow> 'a tsq_threads" where
  "wait_pass t s =
     (case (if timed s t then pop_wait_for (stopping s t) (time_over s t) (queued s) else pop_wait (stopping s t) (queued s)) of
        None \<Rightarrow> s\<lparr>waiters := waiters s @ [t]\<rparr>
      | Some (r, q) \<Rightarrow> s\<lparr>queued := q, returned := returned s @ [(t, r)]\<rparr>)"

definition wake :: "nat \<Rightarrow> 'a tsq_threads \<Rightarrow> 'a tsq_threads" where
  "wake t s = s\<lparr>waiters := remove1 t (waiters s), woken := woken s @ [t]\<rparr>"

text \<open>The steps: a call of either operation; a push, whose \<open>notify_one\<close> wakes one of the waiting threads;
  the end of a thread's time, a spurious wake-up; a stop request, which wakes all threads; and the pass of a
  thread that has woken up. The label is what is pushed.\<close>

inductive tsq_step :: "'a tsq_threads \<Rightarrow> 'a list \<Rightarrow> 'a tsq_threads \<Rightarrow> bool" where
  call: "t \<notin> set (waiters s) \<union> set (woken s) \<Longrightarrow>
    tsq_step s [] (wait_pass t (s\<lparr>timed := (timed s)(t := b), time_over := (time_over s)(t := False)\<rparr>))"
| push: "t \<in> set (waiters s) \<Longrightarrow> tsq_step s [v] (wake t (s\<lparr>queued := push_noti v (queued s)\<rparr>))"
| push_none: "waiters s = [] \<Longrightarrow> tsq_step s [v] (s\<lparr>queued := push_noti v (queued s)\<rparr>)"
| timeout: "t \<in> set (waiters s) \<Longrightarrow> timed s t \<Longrightarrow> tsq_step s [] (wake t (s\<lparr>time_over := (time_over s)(t := True)\<rparr>))"
| timeout_woken: "t \<in> set (woken s) \<Longrightarrow> timed s t \<Longrightarrow> tsq_step s [] (s\<lparr>time_over := (time_over s)(t := True)\<rparr>)"
| spurious: "t \<in> set (waiters s) \<Longrightarrow> tsq_step s [] (wake t s)"
| stop: "tsq_step s [] (s\<lparr>stopping := (stopping s)(t := True), waiters := [], woken := woken s @ waiters s\<rparr>)"
| pass: "t \<in> set (woken s) \<Longrightarrow> tsq_step s [] (wait_pass t (s\<lparr>woken := remove1 t (woken s)\<rparr>))"

inductive tsq_runs :: "'a list \<Rightarrow> 'a tsq_threads \<Rightarrow> bool" where
  start: "tsq_runs [] new_tsq"
| step: "tsq_runs xs s \<Longrightarrow> tsq_step s vs s' \<Longrightarrow> tsq_runs (xs @ vs) s'"

text \<open>The items the calls have returned, in order.\<close>

definition delivered :: "'a tsq_threads \<Rightarrow> 'a list" where
  "delivered s = List.map_filter snd (returned s)"

text \<open>The invariant: no thread waits twice, a thread in the wait was not asked to stop and its time is not
  over, and if threads are in the wait there is a woken thread for every item.\<close>

definition tsq_inv :: "'a tsq_threads \<Rightarrow> bool" where
  "tsq_inv s \<longleftrightarrow> distinct (waiters s @ woken s) \<and>
     (\<forall>t \<in> set (waiters s). \<not> stopping s t \<and> \<not> (timed s t \<and> time_over s t)) \<and>
     (waiters s = [] \<or> length (queued s) \<le> length (woken s))"

lemma wait_pass_cases:
  fixes s :: "'a tsq_threads"
  obtains (waits) "queued s = []" "\<not> stopping s t" "\<not> (timed s t \<and> time_over s t)"
      "wait_pass t s = s\<lparr>waiters := waiters s @ [t]\<rparr>"
    | (gives_up) "queued s = []" "stopping s t \<or> timed s t \<and> time_over s t"
      "wait_pass t s = s\<lparr>queued := [], returned := returned s @ [(t, None)]\<rparr>"
    | (takes) v q where "queued s = v # q" "wait_pass t s = s\<lparr>queued := q, returned := returned s @ [(t, Some v)]\<rparr>"
  by (cases "queued s"; cases "stopping s t"; cases "timed s t"; cases "time_over s t")
    (simp_all add: wait_pass_def pop_wait_def pop_wait_for_def tsq_take_def)

lemma wait_pass_inv:
  fixes s :: "'a tsq_threads"
  assumes "tsq_inv s" "t \<notin> set (waiters s) \<union> set (woken s)" shows "tsq_inv (wait_pass t s)"
  using assms by (cases rule: wait_pass_cases [of s t]) (auto simp: tsq_inv_def)

lemma tsq_step_inv:
  fixes s :: "'a tsq_threads"
  assumes "tsq_step s vs s'" "tsq_inv s" shows "tsq_inv s'"
  using assms
proof (induction rule: tsq_step.induct)
  case (call t s b)
  then show ?case by (intro wait_pass_inv) (auto simp: tsq_inv_def)
next
  case (pass t s)
  show ?case
  proof (cases rule: wait_pass_cases [of "s\<lparr>woken := remove1 t (woken s)\<rparr>" t])
    case waits
    then show ?thesis using pass by (auto simp: tsq_inv_def)
  next
    case gives_up
    then show ?thesis using pass by (auto simp: tsq_inv_def)
  next
    case (takes v q)
    then show ?thesis using pass by (auto simp: tsq_inv_def length_remove1)
  qed
qed (auto simp: tsq_inv_def wake_def push_noti_def length_remove1)

lemma wait_pass_conserves:
  fixes s :: "'a tsq_threads"
  shows "delivered (wait_pass t s) @ queued (wait_pass t s) = delivered s @ queued s"
  by (cases rule: wait_pass_cases [of s t]) (simp_all add: delivered_def map_filter_def)

lemma tsq_step_conserves:
  "tsq_step s vs s' \<Longrightarrow> delivered s' @ queued s' = delivered s @ queued s @ vs"
  by (induction rule: tsq_step.induct)
    (simp_all add: wait_pass_conserves, simp_all add: wake_def delivered_def push_noti_def)

lemma tsq_runs_inv: "tsq_runs xs s \<Longrightarrow> tsq_inv s \<and> delivered s @ queued s = xs"
proof (induction rule: tsq_runs.induct)
  case start
  show ?case by (simp add: tsq_inv_def new_tsq_def delivered_def map_filter_def)
next
  case (step xs s vs s')
  then show ?case using tsq_step_inv tsq_step_conserves by (metis append_assoc)
qed

text \<open>A call ends without an item only with the queue empty, and a stop requested or its time over.\<close>

lemma tsq_step_gives_up:
  fixes s :: "'a tsq_threads"
  assumes "tsq_step s vs s'" "returned s' = returned s @ [(t, None)]"
  shows "queued s = [] \<and> (stopping s t \<or> timed s t \<and> time_over s t)"
proof -
  have gives_up: "u = t \<and> queued s = [] \<and> (stopping s t \<or> timed s t \<and> time_over s t)"
    if "returned (wait_pass u s) = returned s @ [(t, None)]" for u and s :: "'a tsq_threads"
    using that by (cases rule: wait_pass_cases [of s u]) auto
  from assms show ?thesis
  proof (induction rule: tsq_step.induct)
    case (call u s b)
    then show ?case using gives_up [of u "s\<lparr>timed := (timed s)(u := b), time_over := (time_over s)(u := False)\<rparr>"] by auto
  next
    case (pass u s)
    then show ?case using gives_up [of u "s\<lparr>woken := remove1 u (woken s)\<rparr>"] by simp
  qed (simp_all add: wake_def)
qed

section \<open>What the queues guarantee\<close>

lemma timed_pop_items: "timed_pop arrivals q = tsq_take (if q = [] then arrivals else q)"
  using tsq.items_push_list [of arrivals "[]"] by (cases q) (simp_all add: timed_pop_def pop_wait_for_def)

text \<open>C25: the two waiting operations of the thread-safe queue, with any number of threads calling
  them, pushing, being notified or woken up spuriously, running out of time and being asked to stop, in any
  order. What the calls return is what was pushed, in that order, nothing lost or doubled; the rest is
  queued. No wake-up is lost: whenever threads are left in the wait, at least as many others as there are items
  have been woken and will take them, and a thread that was asked to stop or whose time is over is not left
  waiting: its pass returns. A call returns without an item only if there is none and it was asked to stop or its
  time is over.\<close>

theorem waits_deliver_in_order:
  fixes s :: "'a tsq_threads"
  assumes "tsq_runs xs s"
  shows "delivered s @ queued s = xs \<and> (waiters s = [] \<or> length (queued s) \<le> length (woken s)) \<and>
    (\<forall>t. stopping s t \<or> timed s t \<and> time_over s t \<longrightarrow>
       t \<notin> set (waiters s) \<and> (\<exists>r. returned (wait_pass t s) = returned s @ [(t, r)])) \<and>
    (\<forall>vs s' t. tsq_step s vs s' \<longrightarrow> returned s' = returned s @ [(t, None)] \<longrightarrow>
       queued s = [] \<and> (stopping s t \<or> timed s t \<and> time_over s t))"
proof (intro conjI allI impI)
  have inv: "tsq_inv s" "delivered s @ queued s = xs" using tsq_runs_inv [OF assms] by simp_all
  then show "delivered s @ queued s = xs" "waiters s = [] \<or> length (queued s) \<le> length (woken s)"
    by (simp_all add: tsq_inv_def)
  fix t assume t: "stopping s t \<or> timed s t \<and> time_over s t"
  then show "t \<notin> set (waiters s)" using inv(1) by (auto simp: tsq_inv_def)
  show "\<exists>r. returned (wait_pass t s) = returned s @ [(t, r)]"
    using t by (cases rule: wait_pass_cases [of s t]) auto
qed (blast dest: tsq_step_gives_up)+

text \<open>Two threads wait, one of them for a limited time; an item is pushed and taken, and the time of the other
  is over.\<close>

lemma waits_deliver_in_order_witness:
  "\<exists>s. tsq_runs [''x''] s \<and> delivered s = [''x''] \<and> returned s = [(1, Some ''x''), (2, None)]"
proof -
  let ?call = "\<lambda>t b s :: string tsq_threads. wait_pass t (s\<lparr>timed := (timed s)(t := b), time_over := (time_over s)(t := False)\<rparr>)"
  let ?pass = "\<lambda>t s :: string tsq_threads. wait_pass t (s\<lparr>woken := remove1 t (woken s)\<rparr>)"
  let ?s2 = "?call 2 True (?call 1 False new_tsq)"
  let ?s4 = "?pass 1 (wake 1 (?s2\<lparr>queued := push_noti ''x'' (queued ?s2)\<rparr>))"
  let ?s6 = "?pass 2 (wake 2 (?s4\<lparr>time_over := (time_over ?s4)(2 := True)\<rparr>))"
  note eval = wait_pass_def wake_def new_tsq_def push_noti_def pop_wait_def pop_wait_for_def tsq_take_def
  have "tsq_runs ([] @ []) (?call 1 False new_tsq)"
    by (intro tsq_runs.step [OF tsq_runs.start] tsq_step.call) (simp add: eval)
  then have "tsq_runs (([] @ []) @ []) ?s2"
    by (rule tsq_runs.step) (rule tsq_step.call, simp add: eval)
  then have "tsq_runs ((([] @ []) @ []) @ [''x'']) (wake 1 (?s2\<lparr>queued := push_noti ''x'' (queued ?s2)\<rparr>))"
    by (rule tsq_runs.step) (rule tsq_step.push, simp add: eval)
  then have "tsq_runs (((([] @ []) @ []) @ [''x'']) @ []) ?s4"
    by (rule tsq_runs.step) (rule tsq_step.pass, simp add: eval)
  then have "tsq_runs ((((([] @ []) @ []) @ [''x'']) @ []) @ []) (wake 2 (?s4\<lparr>time_over := (time_over ?s4)(2 := True)\<rparr>))"
    by (rule tsq_runs.step) (rule tsq_step.timeout, simp_all add: eval)
  then have "tsq_runs (((((([] @ []) @ []) @ [''x'']) @ []) @ []) @ []) ?s6"
    by (rule tsq_runs.step) (rule tsq_step.pass, simp add: eval)
  then have run: "tsq_runs [''x''] ?s6" by simp
  have "returned ?s6 = [(1, Some ''x''), (2, None)]" "queued ?s6 = []" by (simp_all add: eval)
  then show ?thesis using run waits_deliver_in_order [OF run] by (intro exI [of _ ?s6]) simp
qed

text \<open>The other queue class. A priority push is served before everything that waits, ordinary
  pushes keep their order, and \<open>try_pop\<close> agrees with the blocking \<open>pop\<close> whenever there is an item;
  \<open>pop\<close> alone on an empty queue that nobody pushes to does not return.\<close>

theorem queue_priority_then_order:
  "queue_pop [] (fold queue_push xs (priority_push p q)) = Some (p, q @ xs) \<and>
   (\<forall>v q. queue_pop [] q = (case try_pop v q of (True, x, q') \<Rightarrow> Some (x, q') | (False, _) \<Rightarrow> None)) \<and>
   (queue_pop arrivals [] = None \<longleftrightarrow> arrivals = [])"
  using dq.items_push_list [of xs "priority_push p q"] dq.items_push_list [of arrivals "[]"]
  by (auto simp: queue_pop_def priority_push_def queue_empty_def try_pop_def split: list.split)

end
