(* ===== verification/Zmq_Server.thy ===== *)
theory Zmq_Server
  imports Packets Queues
begin

text \<open>
  \<^verbatim>\<open>lib/zserver/zmq_server.cpp\<close>: the thread that takes JSON requests from a ZeroMQ
  reply socket, queues the packets for the SMSC worker and answers with what the worker has put into
  \<open>inq_\<close>; and the wrappers \<open>recv\<close> and \<open>send\<close> of \<^verbatim>\<open>include/zserver/zmq.hpp\<close>
  it calls. libzmq itself is not in the repository: what \<open>zmq_msg_recv\<close> and \<open>zmq_msg_send\<close> do to
  a socket is an argument, an error number or a value with the socket afterwards. The documented
  rule of a reply socket is the named hypothesis \<open>rep_socket\<close>.
\<close>

section \<open>The wrappers\<close>

type_synonym 's msg_recv = "'s \<Rightarrow> (int + bytes) \<times> 's"
type_synonym 's msg_send = "bytes \<Rightarrow> 's \<Rightarrow> (int + nat) \<times> 's"

definition ZMQ_HAUSNUMERO :: int where "ZMQ_HAUSNUMERO = 156384712"
definition EFSM :: int where "EFSM = ZMQ_HAUSNUMERO + 51"
definition ZMQ_EAGAIN :: int where "ZMQ_EAGAIN = 11"

text \<open>\<open>socket_t::recv (message_t&, recv_flags)\<close>: a message, nothing on a timeout, or \<open>error_t\<close>.\<close>

definition socket_recv :: "'s msg_recv \<Rightarrow> 's \<Rightarrow> bytes option result \<times> 's" where
  "socket_recv msg_recv s = (case msg_recv s of
       (Inr data, s) \<Rightarrow> (Inr (Some data), s)
     | (Inl e, s) \<Rightarrow> (if e = ZMQ_EAGAIN then Inr None else Inl (Zmq_error e), s))"

definition socket_send :: "'s msg_send \<Rightarrow> bytes \<Rightarrow> 's \<Rightarrow> nat option result \<times> 's" where
  "socket_send msg_send data s = (case msg_send data s of
       (Inr n, s) \<Rightarrow> (Inr (Some n), s)
     | (Inl e, s) \<Rightarrow> (if e = ZMQ_EAGAIN then Inr None else Inl (Zmq_error e), s))"

section \<open>The server thread\<close>

record 's zmq_server =
  sock :: 's
  srv_outq :: "packet tsq"
  srv_inq :: "packet tsq"
  srv_seq :: seq_counter

text \<open>The \<open>try\<close> block up to the wait: the request becomes a packet, which takes a sequence number, and the packet goes into
  \<open>outq_\<close>. A failure leaves the queues as they are; the number may be used up.\<close>

definition parse_request :: "bytes \<Rightarrow> 's zmq_server \<Rightarrow> packet result \<times> 's zmq_server" where
  "parse_request data srv =
     (let (r, seq) = packet_parse_json (srv_seq srv) data in (r, srv\<lparr>srv_seq := seq\<rparr>))"

definition queue_request :: "packet \<Rightarrow> 's zmq_server \<Rightarrow> 's zmq_server" where
  "queue_request p srv = srv\<lparr>srv_outq := push_noti p (srv_outq srv)\<rparr>"

definition accept_request :: "bytes \<Rightarrow> 's zmq_server \<Rightarrow> unit result \<times> 's zmq_server" where
  "accept_request data srv =
     (case parse_request data srv of
        (Inl e, srv) \<Rightarrow> (Inl e, srv)
      | (Inr p, srv) \<Rightarrow> (Inr (), queue_request p srv))"

lemmas accept_request_defs = accept_request_def parse_request_def queue_request_def

text \<open>\<open>reply->to_json ().dump ()\<close>.\<close>

definition answer_text :: "packet \<Rightarrow> bytes result" where
  "answer_text p = rbind (packet_to_json p) (json_dump (-1) (CHR '' '') False strict)"

text \<open>The rest: wait up to a second for a packet in \<open>inq_\<close>, and answer with it. A packet that
  cannot be turned into JSON is gone from the queue.\<close>

definition answer_request ::
  "'s msg_send \<Rightarrow> packet list \<Rightarrow> 's zmq_server \<Rightarrow> unit result \<times> 's zmq_server" where
  "answer_request msg_send arrivals srv =
     (let (reply, q) = timed_pop arrivals (srv_inq srv); srv = srv\<lparr>srv_inq := q\<rparr> in
      case reply of
        None \<Rightarrow> (Inr (), srv)
      | Some p \<Rightarrow>
          (case answer_text p of
             Inl e \<Rightarrow> (Inl e, srv)
           | Inr payload \<Rightarrow>
               (let (sent, s) = socket_send msg_send payload (sock srv) in
                (rbind sent (\<lambda>_. Inr ()), srv\<lparr>sock := s\<rparr>))))"

text \<open>The \<open>catch\<close> stops exceptions. What it does not stop, an abort or undefined behaviour, ends
  the process, and so does an exception outside the \<open>try\<close>, which leaves the thread's function.\<close>

definition catch_std :: "unit result \<times> 's zmq_server \<Rightarrow> 's zmq_server result" where
  "catch_std r = (case r of
       (Inr u, srv) \<Rightarrow> Inr srv
     | (Inl e, srv) \<Rightarrow> if is_std_exception e then Inr srv else Inl e)"

definition serve_request ::
  "'s msg_send \<Rightarrow> packet list \<Rightarrow> bytes \<Rightarrow> 's zmq_server \<Rightarrow> 's zmq_server result" where
  "serve_request msg_send arrivals data srv =
     catch_std (case accept_request data srv of
         (Inl e, srv) \<Rightarrow> (Inl e, srv)
       | (Inr u, srv) \<Rightarrow> answer_request msg_send arrivals srv)"

text \<open>One round of \<open>zmq_cli_monitor\<close>.\<close>

definition zmq_round ::
  "'s msg_recv \<Rightarrow> 's msg_send \<Rightarrow> packet list \<Rightarrow> 's zmq_server \<Rightarrow> 's zmq_server result" where
  "zmq_round msg_recv msg_send arrivals srv =
     (case socket_recv msg_recv (sock srv) of
        (Inl e, s) \<Rightarrow> Inl e
      | (Inr None, s) \<Rightarrow> Inr (srv\<lparr>sock := s\<rparr>)
      | (Inr (Some data), s) \<Rightarrow> serve_request msg_send arrivals data (srv\<lparr>sock := s\<rparr>))"

text \<open>The thread: one round per entry, each entry the packets that arrive in \<open>inq_\<close> while that
  round waits; the stop request comes after the last one.\<close>

fun zmq_cli_monitor ::
  "'s msg_recv \<Rightarrow> 's msg_send \<Rightarrow> packet list list \<Rightarrow> 's zmq_server \<Rightarrow> 's zmq_server result" where
  "zmq_cli_monitor msg_recv msg_send [] srv = Inr srv"
| "zmq_cli_monitor msg_recv msg_send (a # as) srv =
     rbind (zmq_round msg_recv msg_send a srv) (zmq_cli_monitor msg_recv msg_send as)"

section \<open>Reply sockets\<close>

text \<open>The documented rule: after a message has been received, a reply must be sent before the next
  one can be received (\<open>EFSM\<close> otherwise); without a request nothing can be sent. \<open>owes s\<close> says
  that a reply is owed.\<close>

definition rep_socket :: "('s \<Rightarrow> bool) \<Rightarrow> 's msg_recv \<Rightarrow> 's msg_send \<Rightarrow> bool" where
  "rep_socket owes msg_recv msg_send \<longleftrightarrow>
     (\<forall>s. owes s \<longrightarrow> fst (msg_recv s) = Inl EFSM) \<and>
     (\<forall>s d s'. msg_recv s = (Inr d, s') \<longrightarrow> owes s') \<and>
     (\<forall>s e s'. msg_recv s = (Inl e, s') \<longrightarrow> owes s' = owes s) \<and>
     (\<forall>s d. \<not> owes s \<longrightarrow> fst (msg_send d s) = Inl EFSM) \<and>
     (\<forall>s d n s'. msg_send d s = (Inr n, s') \<longrightarrow> \<not> owes s') \<and>
     (\<forall>s d e s'. msg_send d s = (Inl e, s') \<longrightarrow> owes s' = owes s)"

text \<open>A reply socket with the requests that will come, and the replies it has sent.\<close>

record rep_script =
  requests :: "bytes list"
  replies :: "bytes list"
  owed :: bool

definition script_recv :: "rep_script msg_recv" where
  "script_recv s = (if owed s then (Inl EFSM, s)
     else case requests s of
       [] \<Rightarrow> (Inl ZMQ_EAGAIN, s)
     | d # ds \<Rightarrow> (Inr d, s\<lparr>requests := ds, owed := True\<rparr>))"

definition script_send :: "rep_script msg_send" where
  "script_send d s = (if owed s then (Inr (length d), s\<lparr>replies := replies s @ [d], owed := False\<rparr>)
     else (Inl EFSM, s))"

lemma rep_socket_script: "rep_socket owed script_recv script_send"
  by (auto simp: rep_socket_def script_recv_def script_send_def split: if_splits list.splits)

lemmas rep_socketD = rep_socket_def [THEN iffD1, rule_format]

lemma EFSM_not_EAGAIN [simp]: "EFSM \<noteq> ZMQ_EAGAIN" "ZMQ_EAGAIN \<noteq> EFSM"
  by (simp_all add: EFSM_def ZMQ_HAUSNUMERO_def ZMQ_EAGAIN_def)

lemma zmq_round_owes:
  assumes "rep_socket owes r s" "owes (sock srv)"
  shows "zmq_round r s a srv = Inl (Zmq_error EFSM)"
proof -
  have "fst (r (sock srv)) = Inl EFSM" using assms by (simp add: rep_socket_def)
  then show ?thesis by (cases "r (sock srv)") (simp add: zmq_round_def socket_recv_def)
qed

section \<open>What a round does\<close>

text \<open>Why a request that was received may stay unanswered: it is no packet, no packet comes back within
  the second, or the one that comes back cannot be written as JSON.\<close>

definition unanswered :: "packet list \<Rightarrow> bytes \<Rightarrow> 's zmq_server \<Rightarrow> bool" where
  "unanswered arrivals data srv =
     (case fst (packet_parse_json (srv_seq srv) data) of
        Inl e \<Rightarrow> is_std_exception e
      | Inr p \<Rightarrow>
          (case fst (timed_pop arrivals (srv_inq srv)) of
             None \<Rightarrow> True
           | Some reply \<Rightarrow> (case answer_text reply of Inl e \<Rightarrow> is_std_exception e | Inr txt \<Rightarrow> False)))"

lemma serve_request_unanswered:
  assumes "unanswered a d srv"
  shows "\<exists>srv'. serve_request s a d srv = Inr srv' \<and> sock srv' = sock srv"
proof -
  obtain r seq where r: "packet_parse_json (srv_seq srv) d = (r, seq)" by fastforce
  show ?thesis
  proof (cases r)
    case (Inl e)
    then have "is_std_exception e" using assms r by (simp add: unanswered_def)
    then show ?thesis using r Inl by (simp add: serve_request_def accept_request_defs catch_std_def)
  next
    case (Inr p)
    obtain reply q where q: "timed_pop a (srv_inq srv) = (reply, q)" by fastforce
    show ?thesis
    proof (cases reply)
      case None
      then show ?thesis
        using r Inr q by (simp add: serve_request_def accept_request_defs answer_request_def catch_std_def)
    next
      case (Some x)
      then obtain e where "answer_text x = Inl e" "is_std_exception e"
        using assms r Inr q by (cases "answer_text x") (simp_all add: unanswered_def)
      then show ?thesis
        using r Inr q Some by (simp add: serve_request_def accept_request_defs answer_request_def catch_std_def)
    qed
  qed
qed

lemma zmq_round_unanswered:
  assumes "rep_socket owes msg_recv msg_send" "msg_recv (sock srv) = (Inr data, s1)" "unanswered a data srv"
  shows "\<exists>srv'. zmq_round msg_recv msg_send a srv = Inr srv' \<and> owes (sock srv')"
proof -
  have "unanswered a data (srv\<lparr>sock := s1\<rparr>) = unanswered a data srv"
    by (simp add: unanswered_def split: sum.split)
  then obtain srv' where "zmq_round msg_recv msg_send a srv = Inr srv'" "sock srv' = s1"
    using serve_request_unanswered [of a data "srv\<lparr>sock := s1\<rparr>" msg_send] assms(2,3)
    by (auto simp: zmq_round_def socket_recv_def)
  moreover have "owes s1" using assms(1,2) by (auto simp: rep_socket_def)
  ultimately show ?thesis by blast
qed

text \<open>In particular a text that is no packet.\<close>

lemma refused_request_ends_server:
  assumes "rep_socket owes msg_recv msg_send" "msg_recv (sock srv) = (Inr data, s1)"
    and "fst (packet_parse_json (srv_seq srv) data) = Inl e" "is_std_exception e"
  shows "zmq_cli_monitor msg_recv msg_send (a # b # rounds) srv = Inl (Zmq_error EFSM)"
proof -
  have "unanswered a data srv" using assms(3,4) by (simp add: unanswered_def)
  then obtain srv' where "zmq_round msg_recv msg_send a srv = Inr srv'" "owes (sock srv')"
    using zmq_round_unanswered [OF assms(1,2)] by blast
  then show ?thesis using zmq_round_owes [OF assms(1), of srv' b] by simp
qed

lemma serve_request_answered:
  assumes "packet_parse_json (srv_seq srv) d = (Inr p, seq)" "timed_pop a (srv_inq srv) = (Some reply, q)"
    and "answer_text reply = Inr txt" "s txt (sock srv) = (Inr n, s')"
  shows "serve_request s a d srv =
    Inr (srv\<lparr>sock := s', srv_outq := srv_outq srv @ [p], srv_inq := q, srv_seq := seq\<rparr>)"
  using assms by (simp add: serve_request_def accept_request_defs answer_request_def catch_std_def socket_send_def push_noti_def)

text \<open>A request that is not answered kills the server. Under the rule of reply sockets, when a
  received request is no valid packet (an exception the \<open>catch\<close> swallows), or the worker has no answer
  within the second, or its answer cannot be written as JSON, the round ends normally with the reply
  still owed, and the next call of \<open>recv\<close>, outside the \<open>try\<close>, throws \<open>EFSM\<close>: the thread, and with it
  the process, ends whatever comes later.\<close>

theorem unanswered_request_kills_server:
  assumes "rep_socket owes msg_recv msg_send" "msg_recv (sock srv) = (Inr data, s1)"
    and "unanswered a data srv"
  shows "(\<exists>srv'. zmq_round msg_recv msg_send a srv = Inr srv' \<and> owes (sock srv')) \<and>
    zmq_cli_monitor msg_recv msg_send (a # b # rounds) srv = Inl (Zmq_error EFSM)"
proof -
  obtain srv' where "zmq_round msg_recv msg_send a srv = Inr srv'" "owes (sock srv')"
    using zmq_round_unanswered [OF assms] by blast
  then show ?thesis using zmq_round_owes [OF assms(1), of srv' b] by simp
qed

lemma unanswered_request_kills_server_witness:
  "zmq_cli_monitor script_recv script_send [[], [], []]
     \<lparr>sock = \<lparr>requests = [json_text (JObject sample_request)], replies = [], owed = False\<rparr>, srv_outq = [],
      srv_inq = [], srv_seq = 7\<rparr> = Inl (Zmq_error EFSM)"
proof -
  have "\<exists>p seq. packet_parse_json 7 (json_text (JObject sample_request)) = (Inr p, seq)"
    using header_parse_json_object [OF json_parse_text [OF sample_request_wf] sample_request_fields(1,2)]
      from_json_object [OF sample_request_fields(3)] json_parse_text [OF sample_request_wf]
    by (simp add: packet_parse_json_def msg_type_enum_request)
  then show ?thesis
    using unanswered_request_kills_server [OF rep_socket_script,
      of "\<lparr>sock = \<lparr>requests = [json_text (JObject sample_request)], replies = [], owed = False\<rparr>, srv_outq = [],
      srv_inq = [], srv_seq = 7\<rparr>"]
    by (auto simp: script_recv_def unanswered_def timed_pop_items tsq_take_def)
qed

text \<open>A registration served from end to end. The text of any well-formed JSON object with message
  type "3" and the ten keys becomes the registration packet at the end of \<open>outq_\<close>; the first packet
  of \<open>inq_\<close>, or the first that arrives while the round waits, if it is a result, is sent as a JSON text
  that the client's parser reads as the object with its type, its code and the description of that
  code; then no reply is owed, and one sequence number is used.\<close>

theorem registration_served:
  assumes "rep_socket owes msg_recv msg_send"
    and "msg_recv (sock srv) = (Inr (json_text (JObject m)), s1)" "json_wf (JObject m)"
    and "map_of m ''msg_type'' = Some (JString ''3'')" "map_of m ''action_code'' = Some (JString ac)"
      "\<forall>k \<in> set reginfo_keys. map_of m k = Some (JString (v k))"
    and "(if srv_inq srv = [] then arrivals else srv_inq srv) = reply # q"
    and "body reply = Result \<lparr>result_field = to_string_int (rslt_type_code r) @ zeros k\<rparr>"
      "\<forall>c \<in> set (until_nul (msg_type (header reply))). is_digit c"
    and "\<forall>txt. \<exists>n. fst (msg_send txt s1) = Inr n"
  shows "\<exists>txt srv'. zmq_round msg_recv msg_send arrivals srv = Inr srv' \<and>
    sock srv' = snd (msg_send txt s1) \<and> \<not> owes (sock srv') \<and> json_parse txt = Inr (answer_object (header reply) r) \<and>
    srv_outq srv' = srv_outq srv @ [registration_packet (srv_seq srv) ac v] \<and> srv_inq srv' = q \<and>
    srv_seq srv' = srv_seq srv + 1"
proof -
  let ?srv = "srv\<lparr>sock := s1\<rparr>" and ?j = "answer_object (header reply) r"
  have "json_wf ?j" using assms(9) by (rule answer_object_wf)
  then have ans: "answer_text reply = Inr (json_text ?j)" "json_parse (json_text ?j) = Inr ?j"
    using packet_to_json_result [OF assms(8)] by (simp_all add: answer_text_def json_dump_text json_parse_text)
  have p: "packet_parse_json (srv_seq ?srv) (json_text (JObject m)) =
      (Inr (registration_packet (srv_seq srv) ac v), srv_seq srv + 1)"
    using parse_registration [OF json_parse_text [OF assms(3)] assms(4-6)] by simp
  have q: "timed_pop arrivals (srv_inq ?srv) = (Some reply, q)"
    using assms(7) by (simp add: timed_pop_items tsq_take_def)
  obtain n where n: "msg_send (json_text ?j) s1 = (Inr n, snd (msg_send (json_text ?j) s1))"
    using assms(10) by (metis prod.collapse)
  then have "\<not> owes (snd (msg_send (json_text ?j) s1))"
    using assms(1) by (auto simp: rep_socket_def)
  then show ?thesis
    using serve_request_answered [OF p q ans(1), of msg_send n] n assms(2) ans(2)
    by (intro exI [of _ "json_text ?j"]) (simp add: zmq_round_def socket_recv_def)
qed

lemma registration_served_witness:
  "\<exists>txt srv'. zmq_round script_recv script_send
       [\<lparr>header = new_header, body = Result \<lparr>result_field = ''0'' @ zeros 3\<rparr>\<rparr>]
     \<lparr>sock = \<lparr>requests = [json_text (JObject sample_request)], replies = [], owed = False\<rparr>, srv_outq = [],
      srv_inq = [], srv_seq = 7\<rparr> = Inr srv' \<and> replies (sock srv') = [txt] \<and>
      json_parse txt = Inr (answer_object new_header OK) \<and> length (srv_outq srv') = 1"
  using registration_served [OF rep_socket_script _ sample_request_wf sample_request_fields,
      of "\<lparr>sock = \<lparr>requests = [json_text (JObject sample_request)], replies = [], owed = False\<rparr>, srv_outq = [],
      srv_inq = [], srv_seq = 7\<rparr>" "\<lparr>requests = [], replies = [], owed = True\<rparr>"
      "[\<lparr>header = new_header, body = Result \<lparr>result_field = ''0'' @ zeros 3\<rparr>\<rparr>]"
      "\<lparr>header = new_header, body = Result \<lparr>result_field = ''0'' @ zeros 3\<rparr>\<rparr>" "[]" OK 3]
  by (auto simp: script_recv_def script_send_def to_string_int_def to_string_small new_header_def until_nul_def
      zeros_numeral(1))

end
