(* ===== verification/Tcp.thy ===== *)
theory Tcp
  imports Prelude
begin

text \<open>
  \<^verbatim>\<open>lib/numsworker/TcpClient.cpp\<close> and the free functions \<open>read_exact\<close> and
  \<open>send_all\<close> of \<^verbatim>\<open>lib/newbee/send_link.cpp\<close> and
  \<^verbatim>\<open>lib/numsworker/numsworker.cpp\<close>. The operating system is a script: what each
  call to \<open>recv\<close>, \<open>send\<close>, \<open>setsockopt\<close>, \<open>socket\<close> and \<open>connect\<close> will do, in
  any order and with any segmentation of the stream. Text written to the log is left out.
\<close>

section \<open>The operating system\<close>

text \<open>What arrives at a socket: a segment, the end of the stream, an error number.\<close>

datatype rx_event = Segment bytes | Fin | Rx_error int

definition EINTR :: int where "EINTR = 4"
definition EAGAIN :: int where "EAGAIN = 11"

text \<open>The value of a call to \<open>recv\<close>: bytes, 0, -1 with \<open>errno\<close>, or no return at all.\<close>

datatype recv_value = Bytes bytes | Closed | Errno int | Blocks

text \<open>\<open>recv (fd, buf, n, flags)\<close>, with \<open>n > 0\<close>. When nothing is left to arrive it fails with
  \<open>EAGAIN\<close> if it is non-blocking or has a timeout, and blocks otherwise.\<close>

fun sys_recv :: "bool \<Rightarrow> nat \<Rightarrow> rx_event list \<Rightarrow> recv_value \<times> rx_event list" where
  "sys_recv bounded n [] = (if bounded then Errno EAGAIN else Blocks, [])"
| "sys_recv bounded n (Fin # evs) = (Closed, Fin # evs)"
| "sys_recv bounded n (Rx_error e # evs) = (Errno e, evs)"
| "sys_recv bounded n (Segment bs # evs) =
     (if bs = [] then sys_recv bounded n evs
      else (Bytes (take n bs), if length bs \<le> n then evs else Segment (drop n bs) # evs))"

text \<open>Work left in a script: every call that returns bytes or an error takes some.\<close>

definition rx_size :: "rx_event list \<Rightarrow> nat" where
  "rx_size evs = (\<Sum>e \<leftarrow> evs. case e of Segment bs \<Rightarrow> Suc (length bs) | Fin \<Rightarrow> 1 | Rx_error _ \<Rightarrow> 1)"

lemma rx_size_simps [simp]:
  "rx_size [] = 0" "rx_size (Segment bs # evs) = Suc (length bs + rx_size evs)"
  "rx_size (Fin # evs) = Suc (rx_size evs)" "rx_size (Rx_error e # evs) = Suc (rx_size evs)"
  by (simp_all add: rx_size_def)

lemma sys_recv_size:
  "sys_recv b n evs = (v, evs') \<Longrightarrow> rx_size evs' \<le> rx_size evs"
  "sys_recv b n evs = (Bytes bs, evs') \<Longrightarrow> 0 < n \<Longrightarrow> rx_size evs' + length bs \<le> rx_size evs"
  "sys_recv b n evs = (Errno EINTR, evs') \<Longrightarrow> rx_size evs' < rx_size evs"
  by (induction b n evs rule: sys_recv.induct) (auto simp: EINTR_def EAGAIN_def split: if_splits)

lemma sys_recv_bytes: "sys_recv b n evs = (Bytes bs, evs') \<Longrightarrow> 0 < n \<Longrightarrow> 0 < length bs \<and> length bs \<le> n"
  by (induction b n evs rule: sys_recv.induct) (auto split: if_splits)

lemma sys_recv_progress:
  "sys_recv b n evs = (Bytes bs, evs') \<Longrightarrow> 0 < n \<Longrightarrow> rx_size evs' < rx_size evs"
proof -
  assume a: "sys_recv b n evs = (Bytes bs, evs')" "0 < n"
  show ?thesis using sys_recv_size(2) [OF a] sys_recv_bytes [OF a] by linarith
qed

section \<open>Reading\<close>

datatype read_result = Read bytes | Read_failed | Read_blocks

text \<open>The loop of \<open>TcpClient::read_exact\<close>: \<open>got\<close> is the front of the buffer.\<close>

function read_loop :: "bool \<Rightarrow> nat \<Rightarrow> bytes \<Rightarrow> rx_event list \<Rightarrow> read_result \<times> rx_event list" where
  "read_loop bounded len got evs =
     (if len \<le> length got then (Read got, evs)
      else case sys_recv bounded (len - length got) evs of
          (Bytes bs, evs') \<Rightarrow> read_loop bounded len (got @ bs) evs'
        | (Closed, evs') \<Rightarrow> (Read_failed, evs')
        | (Errno e, evs') \<Rightarrow> if e = EINTR then read_loop bounded len got evs' else (Read_failed, evs')
        | (Blocks, evs') \<Rightarrow> (Read_blocks, evs'))"
  by pat_completeness auto
termination
  by (relation "measure (\<lambda>(b, len, got, evs). rx_size evs)")
     (auto dest!: sym [of _ "sys_recv _ _ _"] dest: sys_recv_progress sys_recv_size(3))

declare read_loop.simps [simp del]

text \<open>One call to \<open>recv\<close> at a time.\<close>

lemma read_loop_full: "len \<le> length got \<Longrightarrow> read_loop b len got evs = (Read got, evs)"
  by (simp add: read_loop.simps [of b len got])

lemma read_loop_call:
  assumes "\<not> len \<le> length got"
  shows "sys_recv b (len - length got) evs = (Bytes bs, evs') \<Longrightarrow> read_loop b len got evs = read_loop b len (got @ bs) evs'"
    and "sys_recv b (len - length got) evs = (Errno EINTR, evs') \<Longrightarrow> read_loop b len got evs = read_loop b len got evs'"
    and "sys_recv b (len - length got) evs = (Errno e, evs') \<Longrightarrow> e \<noteq> EINTR \<Longrightarrow> read_loop b len got evs = (Read_failed, evs')"
    and "sys_recv b (len - length got) evs = (Closed, evs') \<Longrightarrow> read_loop b len got evs = (Read_failed, evs')"
    and "sys_recv b (len - length got) evs = (Blocks, evs') \<Longrightarrow> read_loop b len got evs = (Read_blocks, evs')"
  using assms by (simp_all add: read_loop.simps [of b len got evs])

text \<open>An induction over the calls.\<close>

lemma read_loop_induct [case_names full bytes interrupted failed closed blocks]:
  assumes full: "\<And>got evs. len \<le> length got \<Longrightarrow> P got evs"
    and bytes: "\<And>got evs bs evs'. \<not> len \<le> length got \<Longrightarrow>
      sys_recv b (len - length got) evs = (Bytes bs, evs') \<Longrightarrow> P (got @ bs) evs' \<Longrightarrow> P got evs"
    and interrupted: "\<And>got evs evs'. \<not> len \<le> length got \<Longrightarrow>
      sys_recv b (len - length got) evs = (Errno EINTR, evs') \<Longrightarrow> P got evs' \<Longrightarrow> P got evs"
    and failed: "\<And>got evs e evs'. \<not> len \<le> length got \<Longrightarrow>
      sys_recv b (len - length got) evs = (Errno e, evs') \<Longrightarrow> e \<noteq> EINTR \<Longrightarrow> P got evs"
    and closed: "\<And>got evs evs'. \<not> len \<le> length got \<Longrightarrow> sys_recv b (len - length got) evs = (Closed, evs') \<Longrightarrow> P got evs"
    and blocks: "\<And>got evs evs'. \<not> len \<le> length got \<Longrightarrow> sys_recv b (len - length got) evs = (Blocks, evs') \<Longrightarrow> P got evs"
  shows "P got evs"
proof (induction "rx_size evs" arbitrary: got evs rule: less_induct)
  case less
  show ?case
  proof (cases "len \<le> length got")
    case False
    obtain v evs' where v: "sys_recv b (len - length got) evs = (v, evs')" by fastforce
    show ?thesis
    proof (cases v)
      case (Bytes bs)
      then have "rx_size evs' < rx_size evs" using sys_recv_progress v False by simp
      then show ?thesis using bytes [OF False v [unfolded Bytes]] less.hyps by blast
    next
      case (Errno e)
      show ?thesis
      proof (cases "e = EINTR")
        case True
        then have "sys_recv b (len - length got) evs = (Errno EINTR, evs')" using v Errno by simp
        then show ?thesis using interrupted [OF False] less.hyps sys_recv_size(3) by blast
      qed (use failed [OF False] v Errno in blast)
    qed (use closed [OF False] blocks [OF False] v in blast)+
  qed (rule full)
qed

record tcp =
  fd :: "int option"
  open_fds :: "int list"
  next_fd :: int
  rx :: "rx_event list"
  tx :: "int list"
  wire :: bytes
  sockopt_ok :: "bool list"
  connect_ok :: "(bool \<times> bool \<times> rx_event list) list"

definition sys_setsockopt :: "tcp \<Rightarrow> bool \<times> tcp" where
  "sys_setsockopt t = (case sockopt_ok t of [] \<Rightarrow> (True, t) | ok # oks \<Rightarrow> (ok, t\<lparr>sockopt_ok := oks\<rparr>))"

text \<open>\<open>TcpClient::read_exact\<close>. The timeout is in milliseconds: none blocks, 0 does not wait, any
  other value is handed to the socket, as is the cleared timeout of a blocking read.\<close>

definition tcp_read_exact :: "nat \<Rightarrow> nat option \<Rightarrow> tcp \<Rightarrow> read_result \<times> tcp" where
  "tcp_read_exact len timeout t =
     (let (ok, t) = (if timeout = Some 0 then (True, t) else sys_setsockopt t) in
      if \<not> ok then (Read_failed, t)
      else (let (r, evs) = read_loop (timeout \<noteq> None) len [] (rx t) in (r, t\<lparr>rx := evs\<rparr>)))"

text \<open>\<open>read_exact\<close> of \<^verbatim>\<open>send_link.cpp\<close>: the same loop on a blocking socket, with the case
  of the closed peer first.\<close>

definition link_read_exact :: "nat \<Rightarrow> rx_event list \<Rightarrow> read_result \<times> rx_event list" where
  "link_read_exact len evs = read_loop False len [] evs"

section \<open>Writing\<close>

text \<open>\<open>send (fd, p, n, 0)\<close>: the next value of the script, at most \<open>n\<close>; the bytes go onto the
  wire. A call the script has no value for fails.\<close>

definition sys_send :: "bytes \<Rightarrow> tcp \<Rightarrow> int \<times> tcp" where
  "sys_send bs t = (case tx t of
       [] \<Rightarrow> (-1, t)
     | n # ns \<Rightarrow> (min n (int (length bs)), t\<lparr>tx := ns, wire := wire t @ take (nat n) bs\<rparr>))"

function send_loop :: "bytes \<Rightarrow> tcp \<Rightarrow> bool \<times> tcp" where
  "send_loop bs t =
     (if bs = [] then (True, t)
      else let (n, t') = sys_send bs t in
        if n \<le> 0 then (False, t') else send_loop (drop (nat n) bs) t')"
  by pat_completeness auto
termination
  by (relation "measure (\<lambda>(bs, t). length bs)") auto

declare send_loop.simps [simp del]

definition tcp_send_all :: "bytes \<Rightarrow> tcp \<Rightarrow> bool \<times> tcp" where
  "tcp_send_all data t = send_loop data t"

section \<open>Connecting and closing\<close>

text \<open>One attempt takes one entry of the script: whether \<open>socket\<close> and \<open>connect\<close> succeed, and
  what will arrive on the new connection. The descriptor the client held before is overwritten.\<close>

definition tcp_connect :: "tcp \<Rightarrow> bool \<times> tcp" where
  "tcp_connect t = (case connect_ok t of
       [] \<Rightarrow> (False, t\<lparr>fd := None\<rparr>)
     | (socket_ok, conn_ok, evs) # rest \<Rightarrow>
         (let t = t\<lparr>connect_ok := rest\<rparr> in
          if \<not> socket_ok then (False, t\<lparr>fd := None\<rparr>)
          else (let new = next_fd t; t = t\<lparr>next_fd := new + 1\<rparr> in
            if \<not> conn_ok then (False, t\<lparr>fd := None\<rparr>)
            else (True, snd (sys_setsockopt (t\<lparr>fd := Some new, open_fds := new # open_fds t, rx := evs\<rparr>))))))"

definition tcp_close :: "tcp \<Rightarrow> tcp" where
  "tcp_close t = (case fd t of
       None \<Rightarrow> t
     | Some d \<Rightarrow> t\<lparr>fd := None, open_fds := remove1 d (open_fds t), rx := []\<rparr>)"

section \<open>The stream a script delivers\<close>

text \<open>The bytes that arrive before the end of the stream or an error other than an interrupt, and
  whether an error is behind them.\<close>

fun deliverable :: "rx_event list \<Rightarrow> bytes" where
  "deliverable [] = []"
| "deliverable (Segment bs # evs) = bs @ deliverable evs"
| "deliverable (Fin # evs) = []"
| "deliverable (Rx_error e # evs) = (if e = EINTR then deliverable evs else [])"

fun ends_open :: "rx_event list \<Rightarrow> bool" where
  "ends_open [] = True"
| "ends_open (Segment bs # evs) = ends_open evs"
| "ends_open (Fin # evs) = False"
| "ends_open (Rx_error e # evs) = (e = EINTR \<and> ends_open evs)"

lemma sys_recv_cases:
  "0 < n \<Longrightarrow> (case sys_recv b n evs of
      (Bytes bs, evs') \<Rightarrow> deliverable evs = bs @ deliverable evs' \<and> ends_open evs' = ends_open evs
    | (Closed, evs') \<Rightarrow> deliverable evs = [] \<and> \<not> ends_open evs
    | (Errno e, evs') \<Rightarrow> (if e = EINTR then deliverable evs' = deliverable evs \<and> ends_open evs' = ends_open evs
        else deliverable evs = [] \<and> (b \<or> \<not> ends_open evs))
    | (Blocks, evs') \<Rightarrow> deliverable evs = [] \<and> ends_open evs \<and> \<not> b)"
  by (induction b n evs rule: sys_recv.induct)
    (auto simp: EINTR_def EAGAIN_def split: prod.splits recv_value.splits if_splits)

lemma read_loop_spec:
  "length got \<le> len \<Longrightarrow>
   (case read_loop b len got evs of
      (Read bs, evs') \<Rightarrow> len - length got \<le> length (deliverable evs) \<and>
        bs = got @ take (len - length got) (deliverable evs) \<and>
        deliverable evs' = drop (len - length got) (deliverable evs)
    | (Read_failed, evs') \<Rightarrow> length (deliverable evs) < len - length got \<and> (b \<or> \<not> ends_open evs)
    | (Read_blocks, evs') \<Rightarrow> length (deliverable evs) < len - length got \<and> \<not> b \<and> ends_open evs)"
proof (induction got evs rule: read_loop_induct [where b = b and len = len])
  case (full got evs)
  then show ?case by (simp add: read_loop_full)
next
  case (bytes got evs bs evs')
  define k where "k = len - (length got + length bs)"
  have "length got + length bs \<le> len" using sys_recv_bytes [OF bytes(2)] bytes(1) by linarith
  then have k: "length (got @ bs) \<le> len" "len - length got = length bs + k" "len - length (got @ bs) = k"
    by (simp_all add: k_def)
  moreover have "deliverable evs = bs @ deliverable evs'" "ends_open evs' = ends_open evs"
    using sys_recv_cases [where n = "len - length got" and b = b and evs = evs] bytes(1,2) by simp_all
  ultimately show ?case
    using bytes(3) read_loop_call(1) [OF bytes(1,2)]
    by (cases "fst (read_loop b len (got @ bs) evs')") (auto split: prod.splits)
next
  case (interrupted got evs evs')
  have "deliverable evs' = deliverable evs" "ends_open evs' = ends_open evs"
    using sys_recv_cases [where n = "len - length got" and b = b and evs = evs] interrupted(1,2) by simp_all
  with interrupted(3) [OF interrupted(4)] show ?case by (simp only: read_loop_call(2) [OF interrupted(1,2)])
next
  case (failed got evs e evs')
  then show ?case using sys_recv_cases [where n = "len - length got" and b = b and evs = evs] read_loop_call(3) [OF failed(1-3)] by auto
next
  case (closed got evs evs')
  then show ?case using sys_recv_cases [where n = "len - length got" and b = b and evs = evs] read_loop_call(4) [OF closed(1,2)] by simp
next
  case (blocks got evs evs')
  then show ?case using sys_recv_cases [where n = "len - length got" and b = b and evs = evs] read_loop_call(5) [OF blocks(1,2)] by simp
qed

lemma read_loop_length: "read_loop b len [] evs = (Read bs, evs') \<Longrightarrow> length bs = len"
  using read_loop_spec [where got = "[]" and len = len and b = b and evs = evs] by simp

section \<open>What the client guarantees\<close>

text \<open>C23: reading exactly \<open>len\<close> bytes, whatever the segmentation of the stream and however many
  signals interrupt the calls. If the socket option can be set, the read succeeds if and only if the
  stream still delivers \<open>len\<close> bytes; then the buffer holds exactly those and the next read continues
  behind them. With too few bytes it fails when a timeout is set or the connection has ended, and
  blocks for ever only when it has no timeout and the peer stays silent.\<close>

theorem read_exact_stream:
  assumes "timeout = Some 0 \<or> sockopt_ok t = [] \<or> hd (sockopt_ok t)"
  shows "\<exists>r t'. tcp_read_exact len timeout t = (r, t') \<and>
    (if len \<le> length (deliverable (rx t))
     then r = Read (take len (deliverable (rx t))) \<and> deliverable (rx t') = drop len (deliverable (rx t))
     else r = (if timeout = None \<and> ends_open (rx t) then Read_blocks else Read_failed))"
proof -
  obtain r evs where r: "read_loop (timeout \<noteq> None) len [] (rx t) = (r, evs)" by fastforce
  have spec: "case r of
      Read bs \<Rightarrow> len \<le> length (deliverable (rx t)) \<and> bs = take len (deliverable (rx t)) \<and>
        deliverable evs = drop len (deliverable (rx t))
    | Read_failed \<Rightarrow> length (deliverable (rx t)) < len \<and> (timeout \<noteq> None \<or> \<not> ends_open (rx t))
    | Read_blocks \<Rightarrow> length (deliverable (rx t)) < len \<and> timeout = None \<and> ends_open (rx t)"
    using read_loop_spec [where got = "[]" and len = len and b = "timeout \<noteq> None" and evs = "rx t"] r
    by (cases r) auto
  define t1 where "t1 = (if timeout = Some 0 then t else snd (sys_setsockopt t))"
  have t1: "(if timeout = Some 0 then (True, t) else sys_setsockopt t) = (True, t1)" "rx t1 = rx t"
    using assms by (auto simp: t1_def sys_setsockopt_def split: list.split)
  then have "tcp_read_exact len timeout t = (r, t1\<lparr>rx := evs\<rparr>)"
    using r by (simp only: tcp_read_exact_def) simp
  then show ?thesis using spec by (intro exI [of _ r] exI [of _ "t1\<lparr>rx := evs\<rparr>"]) (cases r; auto)
qed

definition sample_tcp :: tcp where
  "sample_tcp = \<lparr>fd = None, open_fds = [], next_fd = 3, rx = [], tx = [], wire = [], sockopt_ok = [],
     connect_ok = []\<rparr>"

lemma read_exact_stream_witness:
  "fst (tcp_read_exact 3 None (sample_tcp\<lparr>rx := [Segment ''a'', Rx_error EINTR, Segment ''bcd'', Fin]\<rparr>)) = Read ''abc''"
  using read_exact_stream [of None "sample_tcp\<lparr>rx := [Segment ''a'', Rx_error EINTR, Segment ''bcd'', Fin]\<rparr>" 3]
  by (auto simp: sample_tcp_def)

text \<open>How much of the data the kernel accepts: the sum of the values of the calls until one fails.\<close>

fun accepted :: "nat \<Rightarrow> int list \<Rightarrow> nat" where
  "accepted n [] = 0"
| "accepted n (k # ks) = (if n = 0 \<or> k \<le> 0 then 0
     else let m = min (nat k) n in m + accepted (n - m) ks)"

lemma accepted_le: "accepted n ks \<le> n"
proof (induction n ks rule: accepted.induct)
  case (2 n k ks)
  then show ?case by (cases "n = 0 \<or> k \<le> 0") (auto simp: Let_def min_def)
qed simp

lemma send_loop_spec:
  "\<exists>t'. send_loop bs t = (accepted (length bs) (tx t) = length bs, t') \<and>
     wire t' = wire t @ take (accepted (length bs) (tx t)) bs \<and> rx t' = rx t \<and> fd t' = fd t \<and>
     open_fds t' = open_fds t \<and> sockopt_ok t' = sockopt_ok t"
proof (induction bs t rule: send_loop.induct)
  case (1 bs t)
  show ?case
  proof (cases "bs = [] \<or> tx t = [] \<or> hd (tx t) \<le> 0")
    case True
    then show ?thesis
      by (cases "tx t") (auto simp: send_loop.simps [of bs t] sys_send_def)
  next
    case False
    then obtain k ks where k: "tx t = k # ks" "0 < k" "bs \<noteq> []" by (cases "tx t") auto
    define m where "m = min (nat k) (length bs)"
    let ?t = "t\<lparr>tx := ks, wire := wire t @ take m bs\<rparr>"
    have m: "min k (int (length bs)) = int m" "0 < m" "m \<le> length bs" "take (nat k) bs = take m bs"
      using k by (auto simp: m_def min_def)
    have send: "sys_send bs t = (int m, ?t)" using k m by (simp add: sys_send_def)
    have step: "send_loop bs t = send_loop (drop m bs) ?t"
      using k m send by (simp add: send_loop.simps [of bs t])
    obtain t' where t': "send_loop (drop m bs) ?t =
        (accepted (length bs - m) ks = length bs - m, t')"
        "wire t' = wire t @ take m bs @ take (accepted (length bs - m) ks) (drop m bs)"
        "rx t' = rx t" "fd t' = fd t" "open_fds t' = open_fds t" "sockopt_ok t' = sockopt_ok t"
      using "1.IH" [of "(int m, ?t)" "int m" ?t] k m send by auto
    have acc: "accepted (length bs) (tx t) = m + accepted (length bs - m) ks"
      using k by (simp add: m_def Let_def)
    then have "take (accepted (length bs) (tx t)) bs = take m bs @ take (accepted (length bs - m) ks) (drop m bs)"
      by (simp add: take_add)
    then show ?thesis using step t' acc m(3) by (intro exI [of _ t']) auto
  qed
qed

text \<open>C24: sending a buffer, whatever the kernel accepts per call. The call reports success exactly
  when every byte was accepted, and what is on the wire is always a prefix of the data, in order,
  as long as what was accepted: a reported failure may leave a partial packet on the wire.\<close>

theorem send_all_prefix:
  "\<exists>ok t'. tcp_send_all data t = (ok, t') \<and> wire t' = wire t @ take (accepted (length data) (tx t)) data \<and>
     (ok \<longleftrightarrow> accepted (length data) (tx t) = length data) \<and> (ok \<longrightarrow> wire t' = wire t @ data)"
proof -
  obtain t' where "send_loop data t = (accepted (length data) (tx t) = length data, t')"
     "wire t' = wire t @ take (accepted (length data) (tx t)) data"
    using send_loop_spec [of data t] by blast
  then show ?thesis by (simp add: tcp_send_all_def)
qed

lemma send_all_prefix_witness:
  "fst (tcp_send_all ''abc'' (sample_tcp\<lparr>tx := [2, 7]\<rparr>)) \<and> \<not> fst (tcp_send_all ''abc'' (sample_tcp\<lparr>tx := [2, -1]\<rparr>))"
  using send_all_prefix [of "''abc''" "sample_tcp\<lparr>tx := [2, 7]\<rparr>"]
    send_all_prefix [of "''abc''" "sample_tcp\<lparr>tx := [2, -1]\<rparr>"]
  by (auto simp: sample_tcp_def Let_def)

text \<open>Descriptors. \<open>close\<close> gives the descriptor back and may be repeated; a failed \<open>connect\<close>
  leaves none open that was not open before. But a successful \<open>connect\<close> on a client that is still
  connected forgets the old descriptor without closing it: one descriptor leaks per reconnect.\<close>

theorem connect_leaks_descriptor:
  "(fd t = Some d \<longrightarrow> d \<in> set (open_fds t) \<longrightarrow> distinct (open_fds t) \<longrightarrow>
      fd (tcp_close t) = None \<and> d \<notin> set (open_fds (tcp_close t)) \<and> tcp_close (tcp_close t) = tcp_close t) \<and>
   (case tcp_connect t of
      (False, t') \<Rightarrow> fd t' = None \<and> open_fds t' = open_fds t
    | (True, t') \<Rightarrow> fd t' = Some (next_fd t) \<and> length (open_fds t') = Suc (length (open_fds t)) \<and>
        set (open_fds t) \<subseteq> set (open_fds t'))"
  by (auto simp: tcp_close_def tcp_connect_def sys_setsockopt_def Let_def split: list.split prod.split)

lemma connect_leaks_descriptor_witness:
  "length (open_fds (snd (tcp_connect (sample_tcp\<lparr>fd := Some 2, open_fds := [2], connect_ok := [(True, True, [])]\<rparr>)))) = 2"
  using connect_leaks_descriptor [of "sample_tcp\<lparr>fd := Some 2, open_fds := [2], connect_ok := [(True, True, [])]\<rparr>" 2]
  by (auto simp: sample_tcp_def split: prod.splits bool.splits) (simp add: tcp_connect_def)

end
