(* ===== verification/Numsworker.thy ===== *)
theory Numsworker
  imports Packets Queues Tcp
begin

text \<open>
  \<^verbatim>\<open>lib/numsworker/numsworker.cpp\<close>: the thread that takes packets from \<open>outq_\<close>, sends them
  to the SMSC, receives the answer and puts it into \<open>inq_\<close>. \<open>recvMsg (0ms)\<close>, which the loop
  calls after connecting, has no definition in the repository and is an argument. Timeouts are
  milliseconds. A call either returns, throws (or has undefined behaviour), or never returns.
\<close>

section \<open>The worker\<close>

record worker =
  smsc :: tcp
  outq :: "packet tsq"
  inq :: "packet tsq"
  retry_cnt :: nat
  seq :: seq_counter

text \<open>\<open>sendMsg\<close>: whether the whole packet was sent.\<close>

definition sendMsg :: "packet \<Rightarrow> worker \<Rightarrow> (bool \<times> worker) run" where
  "sendMsg msg w =
     run_bind (lift_run (packet_serialize msg (zeros (total_size msg)) (total_size msg))) (\<lambda>out.
       let (ok, t) = tcp_send_all out (smsc w) in Returns (ok, w\<lparr>smsc := t\<rparr>))"

definition recvHeader :: "nat option \<Rightarrow> worker \<Rightarrow> (header option \<times> worker) run" where
  "recvHeader timeout w =
     (case tcp_read_exact header_SIZE timeout (smsc w) of
        (Read buf, t) \<Rightarrow> run_bind (lift_run (header_deserialize new_header buf)) (\<lambda>h.
           Returns (Some h, w\<lparr>smsc := t\<rparr>))
      | (Read_failed, t) \<Rightarrow> Returns (None, w\<lparr>smsc := t\<rparr>)
      | (Read_blocks, t) \<Rightarrow> Hangs)"

text \<open>\<open>recvBody\<close>: the length field as the size of a vector, of which the first four bytes are read
  into a result whatever the size is.\<close>

definition recvBody :: "header \<Rightarrow> nat option \<Rightarrow> worker \<Rightarrow> (Body option \<times> worker) run" where
  "recvBody h timeout w =
     run_bind (lift_run (get_msg_len h)) (\<lambda>len.
       if 2 ^ 63 \<le> len then Throws (Length_error ''cannot create std::vector larger than max_size()'')
       else case tcp_read_exact len timeout (smsc w) of
           (Read buf, t) \<Rightarrow> run_bind (lift_run (result_body_deserialize new_result_body buf)) (\<lambda>b.
              Returns (Some (Result b), w\<lparr>smsc := t\<rparr>))
         | (Read_failed, t) \<Rightarrow> Returns (None, w\<lparr>smsc := t\<rparr>)
         | (Read_blocks, t) \<Rightarrow> Hangs)"

definition recv_timeout :: "MsgType \<Rightarrow> nat" where
  "recv_timeout t = (if t = LINK then 10000 else if t = SN_REGINFO then 5000 else 0)"

text \<open>A packet made from a type, pushed to \<open>outq_\<close>.\<close>

definition push_ack :: "MsgType \<Rightarrow> worker \<Rightarrow> worker run" where
  "push_ack t w = (case packet_of_type (seq w) t of
       (Inl e, s) \<Rightarrow> Throws e
     | (Inr ack, s) \<Rightarrow> Returns (w\<lparr>outq := push_noti ack (outq w), seq := s\<rparr>))"

datatype recv_step = Again nat worker | Done "packet option" worker

text \<open>One round of the loop of \<open>recvMsg\<close>. After a failed header the first time, the message is
  queued again and control falls through to the dereference of the empty optional.\<close>

definition recvMsg_step :: "packet \<Rightarrow> nat \<Rightarrow> worker \<Rightarrow> recv_step run" where
  "recvMsg_step sentmsg timeout w =
     run_bind (recvHeader (Some timeout) w) (\<lambda>(rep_h, w).
       case rep_h of
         None \<Rightarrow>
           (if retry_cnt w < 1 then
              (let w = w\<lparr>outq := push_noti sentmsg (outq w), retry_cnt := retry_cnt w + 1\<rparr>
               in Throws (Undefined_behaviour ''dereference of an empty optional''))
            else Returns (Done None (w\<lparr>retry_cnt := 0\<rparr>)))
       | Some h \<Rightarrow>
           (case msg_type_enum h of
              LINK \<Rightarrow> run_bind (push_ack LINK_ACK w) (\<lambda>w. Returns (Again timeout w))
            | LINK_ACK \<Rightarrow> Returns (Done (Some (new_packet\<lparr>header := h\<rparr>)) w)
            | SN_REGINFO_ACK \<Rightarrow>
                run_bind (recvBody h (Some 5000) w) (\<lambda>(b, w).
                  if b = None then Returns (Done None w) else Returns (Again 5000 w))
            | REQ_RESULT \<Rightarrow>
                run_bind (recvBody h (Some 5000) w) (\<lambda>(b, w).
                  case b of
                    None \<Rightarrow> Returns (Done None w)
                  | Some rep_b \<Rightarrow> run_bind (push_ack REQ_RESULT_ACK w) (\<lambda>w.
                      Returns (Done (Some \<lparr>header = h, body = rep_b\<rparr>) w)))
            | _ \<Rightarrow> Returns (Done (Some \<lparr>header = h, body = Monostate\<rparr>) w)))"

section \<open>Termination of the receive loop\<close>

definition arriving :: "worker \<Rightarrow> nat" where
  "arriving w = rx_size (rx (smsc w))"

lemma read_loop_size:
  "read_loop b len got evs = (r, evs') \<Longrightarrow> rx_size evs' \<le> rx_size evs \<and>
     (\<forall>bs. r = Read bs \<longrightarrow> rx_size evs' + (len - length got) \<le> rx_size evs)"
proof (induction got evs rule: read_loop_induct [where b = b and len = len])
  case (bytes got evs bs evs'')
  then show ?case using sys_recv_size(2) [OF bytes(2)] read_loop_call(1) [OF bytes(1,2)] by fastforce
next
  case (interrupted got evs evs'')
  then show ?case using sys_recv_size(1) [OF interrupted(2)] read_loop_call(2) [OF interrupted(1,2)] by fastforce
qed (auto simp: read_loop_full read_loop_call(3-5) dest: sys_recv_size(1))

lemma tcp_read_exact_size:
  "tcp_read_exact len timeout t = (r, t') \<Longrightarrow> rx_size (rx t') \<le> rx_size (rx t) \<and>
     (\<forall>bs. r = Read bs \<longrightarrow> rx_size (rx t') + len \<le> rx_size (rx t))"
  using read_loop_size [of "timeout \<noteq> None" len "[]" "rx t"]
  by (auto simp: tcp_read_exact_def sys_setsockopt_def Let_def split: if_splits prod.splits list.splits)

lemma recvHeader_size:
  "recvHeader timeout w = Returns (h, w') \<Longrightarrow> arriving w' \<le> arriving w \<and> (h \<noteq> None \<longrightarrow> arriving w' + 24 \<le> arriving w)"
  using tcp_read_exact_size [of header_SIZE timeout "smsc w"]
  by (auto simp: recvHeader_def arriving_def run_bind_eq_Returns header_SIZE_def
      split: prod.splits read_result.splits)

lemma recvBody_size:
  assumes "recvBody h timeout w = Returns (b, w')" shows "arriving w' \<le> arriving w"
proof -
  obtain len where len: "lift_run (get_msg_len h) = Returns len" "\<not> 2 ^ 63 \<le> len"
    using assms by (cases "lift_run (get_msg_len h)") (auto simp: recvBody_def split: if_splits)
  obtain r t where r: "tcp_read_exact len timeout (smsc w) = (r, t)" by fastforce
  have "w' = w\<lparr>smsc := t\<rparr>"
    using assms len r by (cases r) (auto simp: recvBody_def run_bind_eq_Returns)
  then show ?thesis using tcp_read_exact_size [OF r] by (simp add: arriving_def)
qed

lemma push_ack_size: "push_ack t w = Returns w' \<Longrightarrow> arriving w' = arriving w"
  by (auto simp: push_ack_def arriving_def split: prod.splits sum.splits)

lemma recvMsg_step_size:
  assumes "recvMsg_step s t w = Returns (Again t' w')" shows "arriving w' + 24 \<le> arriving w"
proof -
  obtain h w1 where h: "recvHeader (Some t) w = Returns (Some h, w1)"
    using assms by (auto simp: recvMsg_step_def run_bind_eq_Returns Let_def split: option.splits if_splits)
  then have "arriving w1 + 24 \<le> arriving w" using recvHeader_size [OF h] by simp
  moreover have "arriving w' \<le> arriving w1"
    using assms h push_ack_size [of _ w1 w'] recvBody_size [of h "Some 5000" w1]
    by (auto simp: recvMsg_step_def run_bind_eq_Returns split: MsgType.splits option.splits if_splits)
  ultimately show ?thesis by simp
qed

function recvMsg_loop :: "packet \<Rightarrow> nat \<Rightarrow> worker \<Rightarrow> (packet option \<times> worker) run" where
  "recvMsg_loop sentmsg timeout w = (case recvMsg_step sentmsg timeout w of
       Returns (Again timeout' w') \<Rightarrow> recvMsg_loop sentmsg timeout' w'
     | Returns (Done r w') \<Rightarrow> Returns (r, w')
     | Throws e \<Rightarrow> Throws e
     | Hangs \<Rightarrow> Hangs)"
  by pat_completeness auto
termination
  by (relation "measure (\<lambda>(s, t, w). arriving w)")
     (auto dest!: sym [of _ "recvMsg_step _ _ _"] recvMsg_step_size)

declare recvMsg_loop.simps [simp del]

definition recvMsg :: "packet \<Rightarrow> worker \<Rightarrow> (packet option \<times> worker) run" where
  "recvMsg sentmsg w = recvMsg_loop sentmsg (recv_timeout (msg_type_enum (header sentmsg))) w"

section \<open>The thread\<close>

text \<open>\<open>while (!smsc_.connect (...))\<close>, which looks at nothing but the result of the attempt. An attempt the
  script has no entry for fails, so a script without a success is a server that stays away, and the loop
  never ends.\<close>

partial_function (option) connect_until :: "tcp \<Rightarrow> tcp option" where
  "connect_until t = (case tcp_connect t of (ok, t') \<Rightarrow> if ok then Some t' else connect_until t')"

lemma connect_until_no_server: "connect_ok t = [] \<Longrightarrow> connect_until t = None"
proof (rule ccontr)
  have "connect_ok t \<noteq> []" if "connect_until t = Some t'" for t t'
    by (rule connect_until.raw_induct [where P = "\<lambda>t t'. connect_ok t \<noteq> []", OF _ that])
      (fastforce simp: tcp_connect_def split: list.splits)
  moreover assume "connect_ok t = []" "connect_until t \<noteq> None"
  ultimately show False by blast
qed

lemma connect_until_attempt:
  "tcp_connect t = (ok, t') \<Longrightarrow> connect_until t = (if ok then Some t' else connect_until t')"
  by (simp add: connect_until.simps [of t])

lemma connect_until_induct [case_names no_server attempt]:
  assumes none: "\<And>t. connect_ok t = [] \<Longrightarrow> P t"
    and attempt: "\<And>t s c evs rest ok t'. connect_ok t = (s, c, evs) # rest \<Longrightarrow> tcp_connect t = (ok, t') \<Longrightarrow>
      connect_ok t' = rest \<Longrightarrow> P t' \<Longrightarrow> P t"
  shows "P t"
proof (induction "connect_ok t" arbitrary: t)
  case Nil
  then show ?case using none by simp
next
  case (Cons a rest)
  obtain s c evs where a: "a = (s, c, evs)" by (cases a)
  obtain ok t' where t': "tcp_connect t = (ok, t')" by fastforce
  then have "connect_ok t' = rest"
    using Cons.hyps(2) [symmetric] a by (auto simp: tcp_connect_def sys_setsockopt_def Let_def split: if_splits list.splits)
  then show ?case using attempt [OF Cons.hyps(2) [symmetric, unfolded a] t'] Cons.hyps(1) by blast
qed

text \<open>The message of a round: the oldest of \<open>outq_\<close>, or a \<open>LINK\<close> after five idle seconds.\<close>

definition link_message :: "worker \<Rightarrow> (packet \<times> worker) run" where
  "link_message w = (let (r, s) = packet_of_type (seq w) LINK in
     run_bind (lift_run r) (\<lambda>p. Returns (p, w\<lparr>seq := s\<rparr>)))"

definition next_message :: "packet list \<Rightarrow> worker \<Rightarrow> (packet \<times> worker) run" where
  "next_message arrivals w =
     (let (msg_opt, q) = timed_pop arrivals (outq w); w = w\<lparr>outq := q\<rparr> in
      case msg_opt of
        Some m \<Rightarrow> Returns (m, w)
      | None \<Rightarrow> link_message w)"

text \<open>The parts of a round: connecting, with \<open>recvMsg (0ms)\<close> as \<open>recv_no_wait\<close>; sending, and whether
  an answer is awaited; what is done with the answer.\<close>

definition round_start :: "(worker \<Rightarrow> (packet option \<times> worker) run) \<Rightarrow> worker \<Rightarrow> worker run" where
  "round_start recv_no_wait w =
     (case connect_until (smsc w) of
        None \<Rightarrow> Hangs
      | Some t \<Rightarrow> run_bind (recv_no_wait (w\<lparr>smsc := t\<rparr>)) (\<lambda>(initial, w). Returns w))"

definition round_send :: "packet \<Rightarrow> worker \<Rightarrow> (bool \<times> worker) run" where
  "round_send msg w =
     run_bind (sendMsg msg w) (\<lambda>(ok, w). Returns
       (if \<not> ok then (False, w\<lparr>smsc := tcp_close (smsc w)\<rparr>)
        else (msg_type_enum (header msg) \<notin> {LINK_ACK, REQ_RESULT_ACK}, w)))"

fun round_result :: "packet option \<Rightarrow> worker \<Rightarrow> worker" where
  "round_result (Some r) w = w\<lparr>inq := push_noti r (inq w)\<rparr>"
| "round_result None w = w\<lparr>smsc := tcp_close (smsc w)\<rparr>"

text \<open>A round up to the wait for a message, and from sending it.\<close>

definition round_begin ::
  "(worker \<Rightarrow> (packet option \<times> worker) run) \<Rightarrow> packet list \<Rightarrow> worker \<Rightarrow> (packet \<times> worker) run" where
  "round_begin recv_no_wait arrivals w = run_bind (round_start recv_no_wait w) (next_message arrivals)"

definition round_end :: "packet \<Rightarrow> worker \<Rightarrow> worker run" where
  "round_end msg w =
     run_bind (round_send msg w) (\<lambda>(awaits, w).
       if awaits then run_bind (recvMsg msg w) (\<lambda>(result, w). Returns (round_result result w))
       else Returns w)"

definition outq_round ::
  "(worker \<Rightarrow> (packet option \<times> worker) run) \<Rightarrow> packet list \<Rightarrow> worker \<Rightarrow> worker run" where
  "outq_round recv_no_wait arrivals w =
     run_bind (round_begin recv_no_wait arrivals w) (\<lambda>(msg, w). round_end msg w)"

lemma round_end_cases:
  "round_end msg w =
     run_bind (sendMsg msg w) (\<lambda>(ok, w).
       if \<not> ok then Returns (w\<lparr>smsc := tcp_close (smsc w)\<rparr>)
       else if msg_type_enum (header msg) \<in> {LINK_ACK, REQ_RESULT_ACK} then Returns w
       else run_bind (recvMsg msg w) (\<lambda>(result, w). Returns (round_result result w)))"
  by (cases "sendMsg msg w") (auto simp: round_end_def round_send_def)

lemmas outq_round_defs = outq_round_def round_begin_def round_start_def round_end_cases

text \<open>\<open>outq_monitor\<close>: one round per entry, each entry the packets pushed while that round waits;
  the stop request comes after the last one.\<close>

fun outq_monitor ::
  "(worker \<Rightarrow> (packet option \<times> worker) run) \<Rightarrow> packet list list \<Rightarrow> worker \<Rightarrow> worker run" where
  "outq_monitor recv_no_wait [] w = Returns w"
| "outq_monitor recv_no_wait (a # as) w =
     run_bind (outq_round recv_no_wait a w) (outq_monitor recv_no_wait as)"

section \<open>What the worker makes of a stream\<close>

text \<open>The receive loop as a function of the bytes that arrive, segmentation and interrupts left
  out: the acknowledgements it queues, and how it ends.\<close>

datatype 'a stream_read = Value 'a bytes | Missing | Fault cxx_error

definition header_at :: "bytes \<Rightarrow> header" where
  "header_at s = \<lparr>msg_type = take 3 s, msg_len = take 6 (drop 3 s), action_code = take 2 (drop 9 s),
     seq_num = take 13 (drop 11 s)\<rparr>"

definition body_at :: "header \<Rightarrow> bytes \<Rightarrow> Body stream_read" where
  "body_at h s =
     (case get_msg_len h of
        Inl e \<Rightarrow> Fault e
      | Inr len \<Rightarrow>
          (if 2 ^ 63 \<le> len then Fault (Length_error ''cannot create std::vector larger than max_size()'')
           else if length s < len then Missing
           else if len < 4 then Fault (Undefined_behaviour ''out-of-bounds read'')
           else Value (Result \<lparr>result_field = take 4 s\<rparr>) (drop len s)))"

datatype verdict = Answer packet bytes | No_header | No_body | Failed cxx_error

lemma body_at_length: "body_at h s = Value b s' \<Longrightarrow> length s' \<le> length s"
  by (auto simp: body_at_def split: sum.splits if_splits)

function answer_of :: "bytes \<Rightarrow> packet list \<times> verdict" where
  "answer_of s =
     (if length s < 24 then ([], No_header)
      else let h = header_at s; s' = drop 24 s in
        case msg_type_enum h of
          LINK \<Rightarrow> (let (acks, v) = answer_of s' in (new_packet # acks, v))
        | LINK_ACK \<Rightarrow> ([], Answer \<lparr>header = h, body = Monostate\<rparr> s')
        | SN_REGINFO_ACK \<Rightarrow>
            (case body_at h s' of
               Value b s'' \<Rightarrow> answer_of s''
             | Missing \<Rightarrow> ([], No_body)
             | Fault e \<Rightarrow> ([], Failed e))
        | REQ_RESULT \<Rightarrow>
            (case body_at h s' of
               Value b s'' \<Rightarrow> ([new_packet], Answer \<lparr>header = h, body = b\<rparr> s'')
             | Missing \<Rightarrow> ([], No_body)
             | Fault e \<Rightarrow> ([], Failed e))
        | _ \<Rightarrow> ([], Answer \<lparr>header = h, body = Monostate\<rparr> s'))"
  by pat_completeness auto
termination
  by (relation "measure length") (auto dest!: sym [of _ "body_at _ _"] dest: body_at_length)

declare answer_of.simps [simp del]

text \<open>The bytes that will arrive at the worker's socket, whose options can be set.\<close>

definition stream :: "worker \<Rightarrow> bytes \<Rightarrow> bool" where
  "stream w s \<longleftrightarrow> deliverable (rx (smsc w)) = s \<and> sockopt_ok (smsc w) = []"

text \<open>What the receive loop leaves alone.\<close>

definition same_queues :: "worker \<Rightarrow> worker \<Rightarrow> bool" where
  "same_queues w w' \<longleftrightarrow> outq w' = outq w \<and> inq w' = inq w \<and> retry_cnt w' = retry_cnt w \<and> seq w' = seq w \<and>
     open_fds (smsc w') = open_fds (smsc w) \<and> wire (smsc w') = wire (smsc w)"

lemma tcp_read_exact_stream:
  assumes "sockopt_ok t = []"
  shows "\<exists>t'. tcp_read_exact len (Some ms) t =
      ((if len \<le> length (deliverable (rx t)) then Read (take len (deliverable (rx t))) else Read_failed), t') \<and>
    (len \<le> length (deliverable (rx t)) \<longrightarrow> deliverable (rx t') = drop len (deliverable (rx t))) \<and>
    sockopt_ok t' = [] \<and> open_fds t' = open_fds t \<and> wire t' = wire t"
proof -
  obtain r evs where r: "read_loop True len [] (rx t) = (r, evs)" by fastforce
  have "tcp_read_exact len (Some ms) t = (r, t\<lparr>rx := evs\<rparr>)"
    using assms r by (simp add: tcp_read_exact_def sys_setsockopt_def)
  then show ?thesis
    using read_loop_spec [where got = "[]" and len = len and b = True and evs = "rx t"] r assms
    by (cases r) auto
qed

lemma same_queues_trans [trans]: "same_queues w w1 \<Longrightarrow> same_queues w1 w2 \<Longrightarrow> same_queues w w2"
  by (simp add: same_queues_def)

lemma same_queues_push:
  "same_queues w w' \<Longrightarrow> same_queues (w\<lparr>outq := outq w @ ps\<rparr>) (w'\<lparr>outq := outq w' @ ps\<rparr>)"
  by (simp add: same_queues_def)

lemma recvHeader_stream:
  assumes "stream w s"
  shows "\<exists>w'. recvHeader (Some ms) w = Returns (if 24 \<le> length s then Some (header_at s) else None, w') \<and>
    same_queues w w' \<and> (24 \<le> length s \<longrightarrow> stream w' (drop 24 s))"
proof -
  obtain t where "tcp_read_exact header_SIZE (Some ms) (smsc w) =
      ((if 24 \<le> length s then Read (take 24 s) else Read_failed), t)"
      "24 \<le> length s \<longrightarrow> deliverable (rx t) = drop 24 s" "sockopt_ok t = []"
      "open_fds t = open_fds (smsc w)" "wire t = wire (smsc w)"
    using tcp_read_exact_stream [of "smsc w" header_SIZE ms] assms by (auto simp: stream_def header_SIZE_def)
  then show ?thesis
    using header_deserialize_fits [OF header_wf_new, of "take 24 s"]
    by (simp add: recvHeader_def stream_def same_queues_def header_at_def min_def drop_take)
qed

lemma recvBody_stream:
  assumes "stream w s"
  shows "(case body_at h s of
      Value b s' \<Rightarrow> \<exists>w'. recvBody h (Some ms) w = Returns (Some b, w') \<and> same_queues w w' \<and> stream w' s'
    | Missing \<Rightarrow> \<exists>w'. recvBody h (Some ms) w = Returns (None, w') \<and> same_queues w w'
    | Fault e \<Rightarrow> recvBody h (Some ms) w = Throws e)"
proof (cases "get_msg_len h")
  case (Inl e)
  then show ?thesis by (simp add: body_at_def recvBody_def)
next
  case (Inr len)
  show ?thesis
  proof (cases "2 ^ 63 \<le> len")
    case True
    then show ?thesis using Inr by (simp add: body_at_def recvBody_def)
  next
    case False
    obtain t where "tcp_read_exact len (Some ms) (smsc w) =
        ((if len \<le> length s then Read (take len s) else Read_failed), t)"
        "len \<le> length s \<longrightarrow> deliverable (rx t) = drop len s" "sockopt_ok t = []"
        "open_fds t = open_fds (smsc w)" "wire t = wire (smsc w)"
      using tcp_read_exact_stream [of "smsc w" len ms] assms by (auto simp: stream_def)
    moreover have "result_body_deserialize new_result_body (take len s) =
        (if len < 4 \<or> length s < 4 then Inl (Undefined_behaviour ''out-of-bounds read'')
         else Inr \<lparr>result_field = take 4 s\<rparr>)"
      by (simp add: result_body_deserialize_def new_result_body_def read_at_def min_def)
    ultimately show ?thesis
      using Inr False by (auto simp: body_at_def recvBody_def stream_def same_queues_def)
  qed
qed

lemma packet_of_ack: "packet_of_type s LINK_ACK = (Inr new_packet, s)" "packet_of_type s REQ_RESULT_ACK = (Inr new_packet, s)"
  by (simp_all add: packet_of_type_def)

lemma push_ack_eq:
  "push_ack LINK_ACK w = Returns (w\<lparr>outq := outq w @ [new_packet]\<rparr>)"
  "push_ack REQ_RESULT_ACK w = Returns (w\<lparr>outq := outq w @ [new_packet]\<rparr>)"
  by (simp_all add: push_ack_def packet_of_ack push_noti_def)

lemma recvMsg_loop_again:
  "recvMsg_step m ms w = Returns (Again ms' w') \<Longrightarrow> recvMsg_loop m ms w = recvMsg_loop m ms' w'"
  by (simp add: recvMsg_loop.simps [of m ms w])

lemma recvMsg_loop_done:
  "recvMsg_step m ms w = Returns (Done r w') \<Longrightarrow> recvMsg_loop m ms w = Returns (r, w')"
  by (simp add: recvMsg_loop.simps [of m ms w])

lemma recvMsg_loop_throws: "recvMsg_step m ms w = Throws e \<Longrightarrow> recvMsg_loop m ms w = Throws e"
  by (simp add: recvMsg_loop.simps [of m ms w])

text \<open>How the loop ends, against the verdict on the stream.\<close>

fun ends_as :: "worker \<Rightarrow> packet list \<times> verdict \<Rightarrow> (packet option \<times> worker) run \<Rightarrow> bool" where
  "ends_as w (acks, Answer p s') r \<longleftrightarrow> (\<exists>w'. r = Returns (Some p, w') \<and> stream w' s' \<and>
     same_queues (w\<lparr>outq := outq w @ acks\<rparr>) w')"
| "ends_as w (acks, No_body) r \<longleftrightarrow> (\<exists>w'. r = Returns (None, w') \<and> same_queues (w\<lparr>outq := outq w @ acks\<rparr>) w')"
| "ends_as w (acks, No_header) r \<longleftrightarrow>
     (if retry_cnt w < 1 then r = Throws (Undefined_behaviour ''dereference of an empty optional'')
      else \<exists>w'. r = Returns (None, w') \<and> same_queues (w\<lparr>outq := outq w @ acks, retry_cnt := 0\<rparr>) w')"
| "ends_as w (acks, Failed e) r \<longleftrightarrow> r = Throws e"

lemma ends_as_same: "same_queues w w' \<Longrightarrow> ends_as w' v r \<Longrightarrow> ends_as w v r"
  by (cases v; cases "snd v") (auto simp: same_queues_def)

lemma ends_as_ack:
  "ends_as (w\<lparr>outq := outq w @ [new_packet]\<rparr>) (acks, v) r \<Longrightarrow> ends_as w (new_packet # acks, v) r"
  by (cases v) (auto simp: same_queues_def)

text \<open>One lemma for each way a frame can end the loop.\<close>

lemma no_header_ends:
  assumes "stream w s" "length s < 24"
  shows "ends_as w ([], No_header) (recvMsg_loop m ms w)"
proof -
  obtain w1 where w1: "recvHeader (Some ms) w = Returns (None, w1)" "same_queues w w1"
    using recvHeader_stream [OF assms(1), of ms] assms(2) by auto
  then have "recvMsg_step m ms w = (if retry_cnt w < 1
      then Throws (Undefined_behaviour ''dereference of an empty optional'')
      else Returns (Done None (w1\<lparr>retry_cnt := 0\<rparr>)))"
    by (simp add: recvMsg_step_def same_queues_def)
  then show ?thesis using w1(2) by (auto simp: recvMsg_loop.simps [of m ms w] same_queues_def)
qed

lemma body_fails_ends:
  assumes "recvHeader (Some ms) w = Returns (Some h, w1)" "same_queues w w1" "stream w1 s"
    and "msg_type_enum h \<in> {SN_REGINFO_ACK, REQ_RESULT}"
  shows "body_at h s = Missing \<Longrightarrow> ends_as w ([], No_body) (recvMsg_loop m ms w)"
    and "body_at h s = Fault e \<Longrightarrow> ends_as w ([], Failed e) (recvMsg_loop m ms w)"
proof -
  note body = recvBody_stream [OF assms(3), of h 5000]
  show "ends_as w ([], No_body) (recvMsg_loop m ms w)" if missing: "body_at h s = Missing"
  proof -
    obtain w2 where w2: "recvBody h (Some 5000) w1 = Returns (None, w2)" "same_queues w1 w2"
      using body missing by auto
    have "recvMsg_loop m ms w = Returns (None, w2)"
      using assms(1,4) w2(1) by (intro recvMsg_loop_done) (auto simp: recvMsg_step_def)
    then show ?thesis using same_queues_trans [OF assms(2) w2(2)] by simp
  qed
  show "ends_as w ([], Failed e) (recvMsg_loop m ms w)" if "body_at h s = Fault e"
  proof -
    have "recvMsg_loop m ms w = Throws e"
      using assms(1,4) body that by (intro recvMsg_loop_throws) (auto simp: recvMsg_step_def)
    then show ?thesis by simp
  qed
qed

lemma result_ends:
  assumes "recvHeader (Some ms) w = Returns (Some h, w1)" "same_queues w w1" "stream w1 s"
    and "msg_type_enum h = REQ_RESULT" "body_at h s = Value b s2"
  shows "ends_as w ([new_packet], Answer \<lparr>header = h, body = b\<rparr> s2) (recvMsg_loop m ms w)"
proof -
  obtain w2 where w2: "recvBody h (Some 5000) w1 = Returns (Some b, w2)" "same_queues w1 w2" "stream w2 s2"
    using recvBody_stream [OF assms(3), of h 5000] assms(5) by auto
  have "recvMsg_loop m ms w = Returns (Some \<lparr>header = h, body = b\<rparr>, w2\<lparr>outq := outq w2 @ [new_packet]\<rparr>)"
    using assms(1,4) w2(1) by (intro recvMsg_loop_done) (simp add: recvMsg_step_def push_ack_eq)
  moreover have "stream (w2\<lparr>outq := outq w2 @ [new_packet]\<rparr>) s2" using w2(3) by (simp add: stream_def)
  ultimately show ?thesis using same_queues_push [OF same_queues_trans [OF assms(2) w2(2)]] by simp
qed

text \<open>The frames after which the loop goes on.\<close>

lemma link_continues:
  assumes "recvHeader (Some ms) w = Returns (Some h, w1)" "same_queues w w1" "msg_type_enum h = LINK"
    and "ends_as (w1\<lparr>outq := outq w1 @ [new_packet]\<rparr>) v (recvMsg_loop m ms (w1\<lparr>outq := outq w1 @ [new_packet]\<rparr>))"
  shows "ends_as w (new_packet # fst v, snd v) (recvMsg_loop m ms w)"
proof -
  have "recvMsg_loop m ms w = recvMsg_loop m ms (w1\<lparr>outq := outq w1 @ [new_packet]\<rparr>)"
    using assms(1,3) by (intro recvMsg_loop_again) (simp add: recvMsg_step_def push_ack_eq)
  then show ?thesis using ends_as_same [OF assms(2)] ends_as_ack [of w1 "fst v" "snd v"] assms(4) by simp
qed

lemma reginfo_ack_continues:
  assumes "recvHeader (Some ms) w = Returns (Some h, w1)" "same_queues w w1" "stream w1 s"
    and "msg_type_enum h = SN_REGINFO_ACK" "body_at h s = Value b s2"
    and "\<And>w2. stream w2 s2 \<Longrightarrow> ends_as w2 v (recvMsg_loop m 5000 w2)"
  shows "ends_as w v (recvMsg_loop m ms w)"
proof -
  obtain w2 where w2: "recvBody h (Some 5000) w1 = Returns (Some b, w2)" "same_queues w1 w2" "stream w2 s2"
    using recvBody_stream [OF assms(3), of h 5000] assms(5) by auto
  have "recvMsg_loop m ms w = recvMsg_loop m 5000 w2"
    using assms(1,4) w2(1) by (intro recvMsg_loop_again) (simp add: recvMsg_step_def)
  then show ?thesis using ends_as_same [OF assms(2)] ends_as_same [OF w2(2)] assms(6) [OF w2(3)] by simp
qed

lemma recvMsg_loop_stream: "stream w s \<Longrightarrow> ends_as w (answer_of s) (recvMsg_loop m ms w)"
proof (induction s arbitrary: w ms rule: answer_of.induct)
  case (1 s)
  show ?case
  proof (cases "length s < 24")
    case True
    then have "answer_of s = ([], No_header)" by (simp add: answer_of.simps [of s])
    then show ?thesis using no_header_ends [OF "1.prems" True] by (simp only:)
  next
    case False
    let ?h = "header_at s" and ?s = "drop 24 s"
    obtain w1 where rh: "recvHeader (Some ms) w = Returns (Some ?h, w1)" and same: "same_queues w w1"
        and st: "stream w1 ?s"
      using recvHeader_stream [OF "1.prems", of ms] False by auto
    show ?thesis
    proof (cases "msg_type_enum ?h")
      case LINK
      have "stream (w1\<lparr>outq := outq w1 @ [new_packet]\<rparr>) ?s" using st by (simp add: stream_def)
      then show ?thesis
        using link_continues [OF rh same LINK "1.IH"(1) [OF False refl refl LINK]] False LINK
        by (simp add: answer_of.simps [of s] Let_def split_beta)
    next
      case SN_REGINFO_ACK
      then show ?thesis
        using reginfo_ack_continues [OF rh same st SN_REGINFO_ACK _ "1.IH"(2) [OF False refl refl SN_REGINFO_ACK]]
          body_fails_ends [OF rh same st] False
        by (cases "body_at ?h ?s") (simp_all add: answer_of.simps [of s])
    next
      case REQ_RESULT
      then show ?thesis
        using result_ends [OF rh same st REQ_RESULT] body_fails_ends [OF rh same st] False
        by (cases "body_at ?h ?s") (simp_all add: answer_of.simps [of s])
    qed (use rh st same False in
        \<open>simp_all add: answer_of.simps [of s] recvMsg_step_def new_packet_def recvMsg_loop_done\<close>)
  qed
qed

text \<open>C18: the receive loop refines a function of the byte stream. Whatever the segmentation, the
  interrupts, the message that was sent and its timeouts, \<open>recvMsg\<close> ends as \<open>answer_of\<close> says of
  the bytes that arrive: it returns the packet of that answer and leaves the rest of the stream
  unread, with exactly the acknowledgements for the frames read queued; it returns nothing when a
  body is missing; a length field that is no number, is absurd, or is below four takes the thread
  down; and when no header comes, the first time is undefined behaviour (the retry that was meant
  never happens), and only a worker that already counts a retry returns.\<close>

theorem recvMsg_refines_stream:
  assumes "stream w s"
  shows "ends_as w (answer_of s) (recvMsg sentmsg w)"
  unfolding recvMsg_def using assms by (rule recvMsg_loop_stream)

definition sample_worker :: worker where
  "sample_worker = \<lparr>smsc = sample_tcp, outq = [], inq = [], retry_cnt = 0, seq = 7\<rparr>"

definition sample_header :: "byte \<Rightarrow> bytes \<Rightarrow> header" where
  "sample_header t len = \<lparr>msg_type = t # zeros 2, msg_len = len @ zeros (6 - length len), action_code = zeros 2,
     seq_num = zeros 13\<rparr>"

lemma sample_header_wf: "length len \<le> 6 \<Longrightarrow> header_wf (sample_header t len)"
  by (simp add: header_wf_def sample_header_def)

lemma sample_header_type:
  "msg_type_enum (sample_header (CHR ''1'') len) = LINK"
  "msg_type_enum (sample_header (CHR ''2'') len) = LINK_ACK"
  "msg_type_enum (sample_header (CHR ''4'') len) = SN_REGINFO_ACK"
  "msg_type_enum (sample_header (CHR ''5'') len) = REQ_RESULT"
  unfolding msg_type_enum_def sample_header_def by (simp_all add: zeros_numeral(1))

lemma header_at_layout: "header_wf h \<Longrightarrow> header_at (header_layout h @ s) = h"
  by (simp add: header_at_def header_layout_def header_wf_def)

lemma length_header_layout: "header_wf h \<Longrightarrow> length (header_layout h) = 24"
  using hdr.length_layout by (simp add: frame_sizes)

lemma answer_of_layout:
  assumes "header_wf h"
  shows "answer_of (header_layout h @ s) = (case msg_type_enum h of
          LINK \<Rightarrow> (let (acks, v) = answer_of s in (new_packet # acks, v))
        | LINK_ACK \<Rightarrow> ([], Answer \<lparr>header = h, body = Monostate\<rparr> s)
        | SN_REGINFO_ACK \<Rightarrow>
            (case body_at h s of
               Value b s'' \<Rightarrow> answer_of s''
             | Missing \<Rightarrow> ([], No_body)
             | Fault e \<Rightarrow> ([], Failed e))
        | REQ_RESULT \<Rightarrow>
            (case body_at h s of
               Value b s'' \<Rightarrow> ([new_packet], Answer \<lparr>header = h, body = b\<rparr> s'')
             | Missing \<Rightarrow> ([], No_body)
             | Fault e \<Rightarrow> ([], Failed e))
        | _ \<Rightarrow> ([], Answer \<lparr>header = h, body = Monostate\<rparr> s))"
  using length_header_layout [OF assms] header_at_layout [OF assms]
  by (simp add: answer_of.simps [of "header_layout h @ s"])

lemma body_at_four:
  "get_msg_len h = Inr 4 \<Longrightarrow> length b = 4 \<Longrightarrow> body_at h (b @ s) = Value (Result \<lparr>result_field = b\<rparr>) s"
  by (simp add: body_at_def)

lemma recvMsg_refines_stream_witness:
  "\<exists>w'. recvMsg new_packet (sample_worker\<lparr>smsc := sample_tcp\<lparr>rx :=
       [Segment (header_layout (sample_header (CHR ''2'') [])), Segment ''x'']\<rparr>\<rparr>) =
     Returns (Some \<lparr>header = sample_header (CHR ''2'') [], body = Monostate\<rparr>, w') \<and> stream w' ''x''"
  using recvMsg_refines_stream [of "sample_worker\<lparr>smsc := sample_tcp\<lparr>rx :=
       [Segment (header_layout (sample_header (CHR ''2'') [])), Segment ''x'']\<rparr>\<rparr>"
       "header_layout (sample_header (CHR ''2'') []) @ ''x''" new_packet]
  by (auto simp: answer_of_layout sample_header_wf sample_header_type stream_def sample_tcp_def)

text \<open>C19: the exchange the worker is built for. The peer acknowledges a registration, checks the link,
  and reports the result, all behind each other on the stream: the call returns the report with its
  result, skips the acknowledgement, leaves what follows for the next call, and has queued one packet
  for the link check and one for the report. Both of those are blank packets.\<close>

theorem registration_exchange:
  assumes "stream w (header_layout h4 @ b4 @ header_layout h1 @ header_layout h5 @ b5 @ rest)"
    and "header_wf h4" "header_wf h1" "header_wf h5"
    and "msg_type_enum h4 = SN_REGINFO_ACK" "msg_type_enum h1 = LINK" "msg_type_enum h5 = REQ_RESULT"
    and "get_msg_len h4 = Inr 4" "get_msg_len h5 = Inr 4" "length b4 = 4" "length b5 = 4"
  shows "\<exists>w'. recvMsg m w = Returns (Some \<lparr>header = h5, body = Result \<lparr>result_field = b5\<rparr>\<rparr>, w') \<and>
    stream w' rest \<and> outq w' = outq w @ [new_packet, new_packet] \<and> inq w' = inq w"
proof -
  have "answer_of (header_layout h4 @ b4 @ header_layout h1 @ header_layout h5 @ b5 @ rest) =
      ([new_packet, new_packet], Answer \<lparr>header = h5, body = Result \<lparr>result_field = b5\<rparr>\<rparr> rest)"
    using assms(2-) by (simp add: answer_of_layout body_at_four)
  then show ?thesis
    using recvMsg_loop_stream [OF assms(1), of m "recv_timeout (msg_type_enum (header m))"]
    by (auto simp: recvMsg_def same_queues_def)
qed

lemma sample_header_len: "get_msg_len (sample_header t ''4'') = Inr 4"
  using stoul_to_string_padded [of 4 5]
  by (simp add: get_msg_len_def sample_header_def to_string_small)

lemma registration_exchange_witness:
  "\<exists>w'. recvMsg new_packet (sample_worker\<lparr>smsc := sample_tcp\<lparr>rx := [Segment (
       header_layout (sample_header (CHR ''4'') ''4'') @ ''0000'' @ header_layout (sample_header (CHR ''1'') []) @
       header_layout (sample_header (CHR ''5'') ''4'') @ ''0008'')]\<rparr>\<rparr>) =
     Returns (Some \<lparr>header = sample_header (CHR ''5'') ''4'', body = Result \<lparr>result_field = ''0008''\<rparr>\<rparr>, w') \<and>
     stream w' [] \<and> outq w' = [new_packet, new_packet] \<and> inq w' = []"
  using registration_exchange [of "sample_worker\<lparr>smsc := sample_tcp\<lparr>rx := [Segment (
       header_layout (sample_header (CHR ''4'') ''4'') @ ''0000'' @ header_layout (sample_header (CHR ''1'') []) @
       header_layout (sample_header (CHR ''5'') ''4'') @ ''0008'')]\<rparr>\<rparr>"
       "sample_header (CHR ''4'') ''4''" "''0000''" "sample_header (CHR ''1'') []"
       "sample_header (CHR ''5'') ''4''" "''0008''" "[]" new_packet]
  by (simp add: sample_header_wf sample_header_type sample_header_len stream_def sample_tcp_def sample_worker_def)

section \<open>What a round costs\<close>

lemma connect_until_first:
  "(connect_until t = None \<longleftrightarrow> \<not> list_ex (\<lambda>(s, c, evs). s \<and> c) (connect_ok t)) \<and>
    (case connect_until t of None \<Rightarrow> True
     | Some t' \<Rightarrow> fd t' \<noteq> None \<and> Some (rx t') = map_option (\<lambda>(s, c, evs). evs) (find (\<lambda>(s, c, evs). s \<and> c) (connect_ok t)))"
proof (induction t rule: connect_until_induct)
  case (no_server t)
  then show ?case by (simp add: connect_until_no_server)
next
  case (attempt t s c evs rest ok t')
  have "ok = (s \<and> c)" "ok \<longrightarrow> fd t' \<noteq> None \<and> rx t' = evs"
    using attempt.hyps(1,2) by (auto simp: tcp_connect_def sys_setsockopt_def Let_def split: if_splits list.splits)
  then show ?case using attempt by (cases ok) (auto simp: connect_until_attempt)
qed

text \<open>What only the round itself changes.\<close>

definition keeps_sockets :: "worker \<Rightarrow> worker \<Rightarrow> bool" where
  "keeps_sockets w w' \<longleftrightarrow> fd (smsc w') = fd (smsc w) \<and> open_fds (smsc w') = open_fds (smsc w) \<and> inq w' = inq w"

lemma keeps_sockets_refl [simp]: "keeps_sockets w w"
  and keeps_sockets_trans: "keeps_sockets w w1 \<Longrightarrow> keeps_sockets w1 w2 \<Longrightarrow> keeps_sockets w w2"
  by (simp_all add: keeps_sockets_def)

lemma tcp_read_exact_keeps:
  "tcp_read_exact len timeout t = (r, t') \<Longrightarrow> fd t' = fd t \<and> open_fds t' = open_fds t"
  by (auto simp: tcp_read_exact_def sys_setsockopt_def Let_def split: if_splits prod.splits list.splits)

lemma recvHeader_keeps: "recvHeader timeout w = Returns (h, w') \<Longrightarrow> keeps_sockets w w'"
  using tcp_read_exact_keeps [of header_SIZE timeout "smsc w"]
  by (auto simp: recvHeader_def keeps_sockets_def run_bind_eq_Returns split: prod.splits read_result.splits)

lemma recvBody_keeps:
  assumes "recvBody h timeout w = Returns (b, w')" shows "keeps_sockets w w'"
proof -
  obtain len where len: "lift_run (get_msg_len h) = Returns len" "\<not> 2 ^ 63 \<le> len"
    using assms by (cases "lift_run (get_msg_len h)") (auto simp: recvBody_def split: if_splits)
  obtain r t where r: "tcp_read_exact len timeout (smsc w) = (r, t)" by fastforce
  have "w' = w\<lparr>smsc := t\<rparr>"
    using assms len r by (cases r) (auto simp: recvBody_def run_bind_eq_Returns)
  then show ?thesis using tcp_read_exact_keeps [OF r] by (simp add: keeps_sockets_def)
qed

lemma push_ack_keeps: "push_ack t w = Returns w' \<Longrightarrow> keeps_sockets w w'"
  by (auto simp: push_ack_def keeps_sockets_def split: prod.splits sum.splits)

lemma recvMsg_step_keeps:
  assumes "recvMsg_step s t w = Returns r"
  shows "case r of Again t' w' \<Rightarrow> keeps_sockets w w' | Done p w' \<Rightarrow> keeps_sockets w w'"
proof -
  obtain h w1 where h: "recvHeader (Some t) w = Returns (h, w1)"
    using assms by (auto simp: recvMsg_step_def run_bind_eq_Returns)
  have k: "keeps_sockets w w1" using recvHeader_keeps [OF h] .
  show ?thesis
  proof (cases h)
    case None
    then show ?thesis using assms h k
      by (auto simp: recvMsg_step_def Let_def keeps_sockets_def split: if_splits)
  next
    case (Some x)
    let ?k = "\<lambda>r. case r of Again t' w' \<Rightarrow> keeps_sockets w1 w' | Done p w' \<Rightarrow> keeps_sockets w1 w'"
    have "?k r"
    proof (cases "msg_type_enum x")
      case LINK
      then show ?thesis using assms h Some push_ack_keeps
        by (auto simp: recvMsg_step_def run_bind_eq_Returns)
    next
      case SN_REGINFO_ACK
      then obtain b w2 where "recvBody x (Some 5000) w1 = Returns (b, w2)"
          "(if b = None then Returns (Done None w2) else Returns (Again 5000 w2)) = Returns r"
        using assms h Some by (auto simp: recvMsg_step_def run_bind_eq_Returns)
      then show ?thesis using recvBody_keeps by (auto split: if_splits)
    next
      case REQ_RESULT
      then obtain b w2 where b: "recvBody x (Some 5000) w1 = Returns (b, w2)"
          "(case b of None \<Rightarrow> Returns (Done None w2)
            | Some rep_b \<Rightarrow> run_bind (push_ack REQ_RESULT_ACK w2) (\<lambda>w.
                      Returns (Done (Some \<lparr>header = x, body = rep_b\<rparr>) w))) = Returns r"
        using assms h Some by (auto simp: recvMsg_step_def run_bind_eq_Returns)
      have "keeps_sockets w1 w2" using recvBody_keeps [OF b(1)] .
      then show ?thesis
        using b(2) push_ack_keeps [of REQ_RESULT_ACK w2] keeps_sockets_trans
        by (cases b) (auto simp: run_bind_eq_Returns)
    qed (use assms h Some in \<open>simp_all add: recvMsg_step_def\<close>, (metis keeps_sockets_refl recv_step.simps(6))+)
    then show ?thesis using keeps_sockets_trans [OF k] by (cases r) simp_all
  qed
qed

text \<open>What every round of the receive loop respects, the loop respects; what every round's result has, its
  result has.\<close>

lemma recvMsg_loop_trans:
  assumes step: "\<And>ms w x. recvMsg_step m ms w = Returns x \<Longrightarrow>
      (case x of Again ms' w' \<Rightarrow> R w w' | Done p w' \<Rightarrow> S w w' \<and> P p)"
    and trans: "\<And>x y z. R x y \<Longrightarrow> S y z \<Longrightarrow> S x z"
  shows "recvMsg_loop m ms w = Returns (r, w') \<Longrightarrow> S w w' \<and> P r"
proof (induction "arriving w" arbitrary: ms w rule: less_induct)
  case less
  obtain x where x: "recvMsg_step m ms w = Returns x"
    using less.prems by (auto simp: recvMsg_loop.simps [of m ms w] split: run.splits)
  show ?case
  proof (cases x)
    case (Again ms' w1)
    then have "R w w1" "recvMsg_loop m ms' w1 = Returns (r, w')" "arriving w1 < arriving w"
      using step [OF x] less.prems x recvMsg_step_size [of m ms w ms' w1] by (simp_all add: recvMsg_loop_again)
    then show ?thesis using less.hyps trans by blast
  next
    case (Done p w1)
    then show ?thesis using step [OF x] less.prems x by (simp add: recvMsg_loop_done)
  qed
qed

lemma recvMsg_loop_keeps:
  assumes "recvMsg_loop m ms w = Returns (r, w')" shows "keeps_sockets w w'"
proof -
  have "case x of Again t' w' \<Rightarrow> keeps_sockets w w' | Done p w' \<Rightarrow> keeps_sockets w w' \<and> True"
    if "recvMsg_step m ms w = Returns x" for ms w x
    using recvMsg_step_keeps [OF that] by (cases x) simp_all
  from recvMsg_loop_trans [where R = keeps_sockets and S = keeps_sockets, OF this keeps_sockets_trans assms] show ?thesis by simp
qed

lemma next_message_keeps: "next_message a w = Returns (m, w') \<Longrightarrow> keeps_sockets w w'"
  by (auto simp: next_message_def link_message_def keeps_sockets_def run_bind_eq_Returns Let_def split: prod.splits option.splits)

lemma sendMsg_keeps:
  assumes "sendMsg m w = Returns (ok, w')" shows "keeps_sockets w w'"
proof -
  obtain out where "lift_run (packet_serialize m (zeros (total_size m)) (total_size m)) = Returns out"
      "(let (ok, t) = tcp_send_all out (smsc w) in Returns (ok, w\<lparr>smsc := t\<rparr>)) = Returns (ok, w')"
    using assms by (auto simp: sendMsg_def run_bind_eq_Returns)
  then show ?thesis using send_loop_spec [of out "smsc w"]
    by (auto simp: tcp_send_all_def keeps_sockets_def)
qed

lemma connect_until_opens: "connect_until t = Some t' \<Longrightarrow> \<exists>d. fd t' = Some d \<and> open_fds t' = d # open_fds t"
proof (induction t rule: connect_until_induct)
  case (no_server t)
  then show ?case by (simp add: connect_until_no_server)
next
  case (attempt t s c evs rest ok t1)
  have "\<not> ok \<longrightarrow> open_fds t1 = open_fds t" "ok \<longrightarrow> (\<exists>d. fd t1 = Some d \<and> open_fds t1 = d # open_fds t)"
    using attempt.hyps(2) by (auto simp: tcp_connect_def sys_setsockopt_def Let_def split: if_splits list.splits)
  then show ?case using attempt by (cases ok) (auto simp: connect_until_attempt)
qed

definition reads_only :: "(worker \<Rightarrow> (packet option \<times> worker) run) \<Rightarrow> bool" where
  "reads_only recv \<longleftrightarrow> (\<forall>w. case recv w of Returns (r, w') \<Rightarrow> keeps_sockets w w' | _ \<Rightarrow> True)"

lemma outq_round_sockets:
  assumes "reads_only recv" "outq_round recv a w = Returns w'"
  shows "(open_fds (smsc w') = open_fds (smsc w) \<and> inq w' = inq w) \<or>
    (\<exists>d. open_fds (smsc w') = d # open_fds (smsc w) \<and> (inq w' = inq w \<or> (\<exists>r. inq w' = inq w @ [r])))"
proof -
  obtain t where t: "connect_until (smsc w) = Some t" using assms(2) by (cases "connect_until (smsc w)") (auto simp: outq_round_defs)
  let ?w = "w\<lparr>smsc := t\<rparr>"
  obtain d where d: "fd t = Some d" "open_fds t = d # open_fds (smsc w)" using connect_until_opens [OF t] by blast
  obtain i w1 m w2 ok w3 where s: "recv ?w = Returns (i, w1)" "next_message a w1 = Returns (m, w2)"
      "sendMsg m w2 = Returns (ok, w3)" and
    r: "(if \<not> ok then Returns (w3\<lparr>smsc := tcp_close (smsc w3)\<rparr>)
            else if msg_type_enum (header m) \<in> {LINK_ACK, REQ_RESULT_ACK} then Returns w3
            else run_bind (recvMsg m w3) (\<lambda>(result, w). Returns (round_result result w))) = Returns w'"
    using assms(2) t by (auto simp: outq_round_defs run_bind_eq_Returns split: if_splits)
  have "keeps_sockets ?w w1" using assms(1) s(1) by (force simp: reads_only_def dest: spec [of _ ?w])
  then have k3: "keeps_sockets ?w w3"
    using next_message_keeps [OF s(2)] sendMsg_keeps [OF s(3)] by (blast intro: keeps_sockets_trans)
  have closed: "open_fds (tcp_close (smsc x)) = open_fds (smsc w) \<and> inq x = inq w" if "keeps_sockets ?w x" for x
    using that d by (simp add: keeps_sockets_def tcp_close_def)
  have opened: "open_fds (smsc x) = d # open_fds (smsc w) \<and> inq x = inq w" if "keeps_sockets ?w x" for x
    using that d by (simp add: keeps_sockets_def)
  show ?thesis
  proof (cases "ok \<and> msg_type_enum (header m) \<notin> {LINK_ACK, REQ_RESULT_ACK}")
    case False
    then show ?thesis using r closed [OF k3] opened [OF k3] by (auto split: if_splits)
  next
    case True
    then obtain res w4 where w4: "recvMsg m w3 = Returns (res, w4)" and e: "w' = round_result res w4"
      using r by (auto simp: run_bind_eq_Returns)
    have "keeps_sockets ?w w4"
      using k3 recvMsg_loop_keeps w4 by (auto simp: recvMsg_def intro: keeps_sockets_trans)
    then show ?thesis using e closed [of w4] opened [of w4] by (cases res) (auto simp: push_noti_def)
  qed
qed

text \<open>C20: what the thread costs over any number of rounds. Each round of the loop opens a connection,
  and the descriptor it had is never closed unless the round failed: the descriptors open before stay
  open, no more than one is added per round, and at least one for every packet that was delivered to
  \<open>inq_\<close>. A client that is answered often enough exhausts the process's descriptors.\<close>

theorem answers_leak_descriptors:
  assumes "reads_only recv" and "outq_monitor recv rounds w = Returns w'"
  shows "\<exists>leaked answers. open_fds (smsc w') = leaked @ open_fds (smsc w) \<and> inq w' = inq w @ answers \<and>
    length answers \<le> length leaked \<and> length leaked \<le> length rounds"
  using assms(2)
proof (induction rounds arbitrary: w)
  case (Cons a rounds)
  obtain w1 where w1: "outq_round recv a w = Returns w1" "outq_monitor recv rounds w1 = Returns w'"
    using Cons.prems by (auto simp: run_bind_eq_Returns)
  obtain ds rs where 2: "open_fds (smsc w') = ds @ open_fds (smsc w1)" "inq w' = inq w1 @ rs"
      "length rs \<le> length ds" "length ds \<le> length rounds"
    using Cons.IH [OF w1(2)] by blast
  from outq_round_sockets [OF assms(1) w1(1)]
  obtain ds1 rs1 where 1: "open_fds (smsc w1) = ds1 @ open_fds (smsc w)" "inq w1 = inq w @ rs1"
      "length rs1 \<le> length ds1" "length ds1 \<le> 1"
  proof (elim disjE exE conjE, goal_cases)
    case 1 then show ?case by (intro 1(1) [of "[]" "[]"]) simp_all
  next
    case (2 d) then show ?case by (intro 2(1) [of "[d]" "[]"]) simp_all
  next
    case (3 d r) then show ?case by (intro 3(1) [of "[d]" "[r]"]) simp_all
  qed
  show ?case
    using 1 2 by (intro exI [of _ "ds @ ds1"] exI [of _ "rs1 @ rs"]) simp
qed simp

text \<open>A link check that is answered, on a connection that also delivers the answer.\<close>

definition nothing_yet :: "worker \<Rightarrow> (packet option \<times> worker) run" where
  "nothing_yet w = Returns (None, w)"

definition answered_worker :: worker where
  "answered_worker = sample_worker\<lparr>outq := [\<lparr>header = sample_header (CHR ''1'') [], body = Monostate\<rparr>],
     smsc := sample_tcp\<lparr>tx := [24], connect_ok :=
       [(True, True, [Segment (header_layout (sample_header (CHR ''2'') []))])]\<rparr>\<rparr>"

lemma reads_only_nothing_yet: "reads_only nothing_yet"
  by (simp add: reads_only_def nothing_yet_def)

lemma total_size_Monostate: "body p = Monostate \<Longrightarrow> total_size p = 24"
  by (simp add: total_size_def frame_sizes)

lemma sendMsg_link:
  assumes "header_wf (header p)" "body p = Monostate"
  shows "\<exists>t. sendMsg p w = Returns (accepted 24 (tx (smsc w)) = 24, w\<lparr>smsc := t\<rparr>) \<and>
    wire t = wire (smsc w) @ take (accepted 24 (tx (smsc w))) (header_layout (header p)) \<and>
    rx t = rx (smsc w) \<and> fd t = fd (smsc w) \<and> open_fds t = open_fds (smsc w)"
proof -
  have "packet_serialize p (zeros 24) 24 = Inr (header_layout (header p))"
    using assms packet_serialize_fits [of p 24 "zeros 24"]
    by (simp add: packet_wf_def total_size_Monostate packet_layout_def)
  then show ?thesis
    using assms send_loop_spec [of "header_layout (header p)" "smsc w"]
    by (auto simp: sendMsg_def total_size_Monostate tcp_send_all_def length_header_layout)
qed

lemma answered_monitor:
  "\<exists>w'. outq_monitor nothing_yet [[]] answered_worker = Returns w' \<and> length (inq w') = 1"
proof -
  let ?p = "\<lparr>header = sample_header (CHR ''1'') [], body = Monostate\<rparr>"
  let ?s = "header_layout (sample_header (CHR ''2'') [])"
  let ?t = "sample_tcp\<lparr>tx := [24], connect_ok := [], fd := Some 3, open_fds := [3], next_fd := 4, rx := [Segment ?s]\<rparr>"
  let ?w = "sample_worker\<lparr>smsc := ?t\<rparr>"
  have c: "connect_until (smsc answered_worker) = Some ?t"
    by (simp add: answered_worker_def sample_worker_def sample_tcp_def connect_until.simps tcp_connect_def sys_setsockopt_def)
  have m: "next_message [] (answered_worker\<lparr>smsc := ?t\<rparr>) = Returns (?p, ?w)"
    by (simp add: next_message_def timed_pop_items tsq_take_def answered_worker_def sample_worker_def)
  have k: "sockopt_ok t = sockopt_ok ?t" if "sendMsg ?p ?w = Returns (True, ?w\<lparr>smsc := t\<rparr>)" for t
    using that by (auto simp: sendMsg_def run_bind_eq_Returns tcp_send_all_def send_loop.simps sys_send_def
        sample_worker_def sample_tcp_def Let_def split: if_splits prod.splits list.splits)
  obtain t where t: "sendMsg ?p ?w = Returns (True, ?w\<lparr>smsc := t\<rparr>)" "rx t = [Segment ?s]"
    using sendMsg_link [of ?p ?w] sample_header_wf [of "[]"]
    by (auto simp: sample_worker_def sample_tcp_def)
  have "stream (?w\<lparr>smsc := t\<rparr>) ?s" using t k [OF t(1)] by (simp add: stream_def sample_tcp_def)
  then obtain w' where w': "recvMsg ?p (?w\<lparr>smsc := t\<rparr>) = Returns (Some \<lparr>header = sample_header (CHR ''2'') [], body = Monostate\<rparr>, w')"
      "inq w' = []"
    using recvMsg_loop_stream [of "?w\<lparr>smsc := t\<rparr>" ?s ?p "recv_timeout LINK"]
      answer_of_layout [OF sample_header_wf, of "[]" "CHR ''2''" "[]"]
    by (auto simp: recvMsg_def sample_header_type same_queues_def sample_worker_def)
  then have "outq_round nothing_yet [] answered_worker = Returns (w'\<lparr>inq := push_noti \<lparr>header = sample_header (CHR ''2'') [], body = Monostate\<rparr> (inq w')\<rparr>)"
    using c m t by (simp add: outq_round_defs nothing_yet_def sample_header_type)
  then show ?thesis using w' by (simp add: push_noti_def)
qed

lemma answers_leak_descriptors_witness:
  "\<exists>w'. outq_monitor nothing_yet [[]] answered_worker = Returns w' \<and> length (open_fds (smsc w')) = 1"
proof -
  obtain w' where w': "outq_monitor nothing_yet [[]] answered_worker = Returns w'" "length (inq w') = 1"
    using answered_monitor by blast
  have "inq answered_worker = []" "open_fds (smsc answered_worker) = []"
    by (simp_all add: answered_worker_def sample_worker_def sample_tcp_def)
  then show ?thesis
    using answers_leak_descriptors [OF reads_only_nothing_yet w'(1)] w' by (intro exI [of _ w']) auto
qed

text \<open>C21: the acknowledgement of a report, sent. The packet that \<open>recvMsg\<close> queued for it is
  24 NUL bytes of unknown type, so the branch of the loop that expects no answer to an acknowledgement
  is not taken: the worker waits for an answer with a timeout of zero, and if the peer is silent, which
  it may well be, dereferences an empty optional. The first report a worker delivers is its last.\<close>

theorem acknowledgement_round_crashes:
  assumes "connect_until (smsc w) = Some t" and "accepted 24 (tx t) = 24" and "deliverable (rx t) = []"
    and "outq w = new_packet # rest" and "retry_cnt w = 0"
  shows "(\<exists>w'. sendMsg new_packet (w\<lparr>smsc := t\<rparr>) = Returns (True, w') \<and> wire (smsc w') = wire t @ zeros 24) \<and>
    outq_round nothing_yet arrivals w = Throws (Undefined_behaviour ''dereference of an empty optional'')"
proof
  have wf: "header_wf (header new_packet)" "body new_packet = Monostate"
    by (simp_all add: new_packet_def header_wf_new)
  have lay: "header_layout (header new_packet) = zeros 24"
    by (simp add: new_packet_def new_header_def header_layout_def zeros_def flip: replicate_add)
  have ty: "msg_type_enum (header new_packet) = UNKNOWN"
    unfolding msg_type_enum_def by (simp add: new_packet_def new_header_def zeros_numeral(1))
  show "\<exists>w'. sendMsg new_packet (w\<lparr>smsc := t\<rparr>) = Returns (True, w') \<and> wire (smsc w') = wire t @ zeros 24"
    using sendMsg_link [OF wf, of "w\<lparr>smsc := t\<rparr>"] assms(2) lay by auto
  let ?w = "w\<lparr>smsc := t, outq := rest\<rparr>"
  have msg: "next_message arrivals (w\<lparr>smsc := t\<rparr>) = Returns (new_packet, ?w)"
    using assms(4) by (simp add: next_message_def timed_pop_items tsq_take_def)
  obtain t2 where t2: "sendMsg new_packet ?w = Returns (True, ?w\<lparr>smsc := t2\<rparr>)" "rx t2 = rx t"
    using sendMsg_link [OF wf, of ?w] assms(2) by auto
  have "recvHeader (Some 0) (?w\<lparr>smsc := t2\<rparr>) = Returns (None, ?w\<lparr>smsc := t2\<lparr>rx := snd (read_loop True 24 [] (rx t))\<rparr>\<rparr>)"
    using read_loop_spec [where got = "[]" and len = 24 and b = True and evs = "rx t"] assms(3) t2(2)
    by (auto simp: recvHeader_def tcp_read_exact_def header_SIZE_def Let_def split: prod.splits read_result.splits)
  then have "recvMsg new_packet (?w\<lparr>smsc := t2\<rparr>) = Throws (Undefined_behaviour ''dereference of an empty optional'')"
    using assms(5) ty by (simp add: recvMsg_def recv_timeout_def recvMsg_loop_throws recvMsg_step_def)
  then show "outq_round nothing_yet arrivals w = Throws (Undefined_behaviour ''dereference of an empty optional'')"
    using assms(1) msg t2(1) ty by (simp add: outq_round_defs nothing_yet_def)
qed

lemma acknowledgement_round_crashes_witness:
  "outq_round nothing_yet [] (sample_worker\<lparr>outq := [new_packet], smsc := sample_tcp\<lparr>tx := [24], connect_ok := [(True, True, [])]\<rparr>\<rparr>) =
     Throws (Undefined_behaviour ''dereference of an empty optional'')"
  using acknowledgement_round_crashes [of "sample_worker\<lparr>outq := [new_packet], smsc := sample_tcp\<lparr>tx := [24], connect_ok := [(True, True, [])]\<rparr>\<rparr>"
     "sample_tcp\<lparr>tx := [24], connect_ok := [], fd := Some 3, open_fds := [3], next_fd := 4\<rparr>" "[]" "[]"]
  by (simp add: sample_worker_def sample_tcp_def connect_until.simps tcp_connect_def sys_setsockopt_def)

end
