(* ===== verification/Worker_Rounds.thy ===== *)
theory Worker_Rounds
  imports Numsworker
begin

text \<open>
  What the rounds of \<^verbatim>\<open>lib/numsworker/numsworker.cpp\<close> guarantee: when they end, what they
  add to \<open>outq_\<close> and \<open>inq_\<close>, and that every packet they produce has the sizes of its arrays.
\<close>

section \<open>When a round ends\<close>

lemma tcp_read_exact_bounded: "fst (tcp_read_exact len (Some ms) t) \<noteq> Read_blocks"
proof -
  have "fst (read_loop True len [] evs) \<noteq> Read_blocks" for evs
    using read_loop_spec [where got = "[]" and len = len and b = True and evs = evs] by (auto split: prod.splits)
  then show ?thesis by (auto simp: tcp_read_exact_def Let_def split_beta)
qed

lemma recvHeader_bounded: "recvHeader (Some ms) w \<noteq> Hangs"
  using tcp_read_exact_bounded [of header_SIZE ms "smsc w"]
  by (auto simp: recvHeader_def run_bind_eq_Hangs split: prod.splits read_result.splits)

lemma recvBody_bounded: "recvBody h (Some ms) w \<noteq> Hangs"
proof
  assume "recvBody h (Some ms) w = Hangs"
  then obtain len where "(case tcp_read_exact len (Some ms) (smsc w) of
           (Read buf, t) \<Rightarrow> run_bind (lift_run (result_body_deserialize new_result_body buf)) (\<lambda>b.
              Returns (Some (Result b), w\<lparr>smsc := t\<rparr>))
         | (Read_failed, t) \<Rightarrow> Returns (None, w\<lparr>smsc := t\<rparr>)
         | (Read_blocks, t) \<Rightarrow> Hangs) = Hangs"
    by (auto simp: recvBody_def run_bind_eq_Hangs split: if_splits)
  then show False using tcp_read_exact_bounded [of len ms "smsc w"]
    by (auto simp: run_bind_eq_Hangs split: prod.splits read_result.splits)
qed

lemma recvMsg_step_bounded: "recvMsg_step m ms w \<noteq> Hangs"
  using recvHeader_bounded recvBody_bounded
  by (auto simp: recvMsg_step_def run_bind_eq_Hangs Let_def push_ack_eq
      split: option.splits if_splits MsgType.splits)

lemma recvMsg_loop_bounded: "recvMsg_loop m ms w \<noteq> Hangs"
proof (induction m ms w rule: recvMsg_loop.induct)
  case (1 m ms w)
  then show ?case using recvMsg_step_bounded [of m ms w]
    by (auto simp: recvMsg_loop.simps [of m ms w] split: run.splits recv_step.splits)
qed

section \<open>What the receive loop adds\<close>

text \<open>The bytes the worker can receive on its connection.\<close>

definition received :: "worker \<Rightarrow> nat" where
  "received w = length (deliverable (rx (smsc w)))"

lemma tcp_read_exact_received:
  assumes "tcp_read_exact len timeout t = (Read buf, t')"
  shows "length (deliverable (rx t')) + len = length (deliverable (rx t))"
proof -
  let ?b = "timeout \<noteq> None"
  obtain evs where "read_loop ?b len [] (rx t) = (Read buf, evs)" "rx t' = evs"
    using assms by (auto simp: tcp_read_exact_def sys_setsockopt_def Let_def split: if_splits prod.splits list.splits)
  then show ?thesis
    using read_loop_spec [where got = "[]" and len = len and b = ?b and evs = "rx t"] by simp
qed

lemma recvHeader_received: "recvHeader timeout w = Returns (Some h, w') \<Longrightarrow> received w' + 24 = received w"
  using tcp_read_exact_received [of header_SIZE timeout "smsc w"]
  by (auto simp: recvHeader_def received_def run_bind_eq_Returns header_SIZE_def split: prod.splits read_result.splits)

lemma recvBody_received:
  assumes "recvBody h timeout w = Returns (Some b, w')" shows "received w' \<le> received w"
proof -
  obtain len where len: "lift_run (get_msg_len h) = Returns len" "\<not> 2 ^ 63 \<le> len"
    using assms by (cases "lift_run (get_msg_len h)") (auto simp: recvBody_def split: if_splits)
  obtain buf t where r: "tcp_read_exact len timeout (smsc w) = (Read buf, t)" "w' = w\<lparr>smsc := t\<rparr>"
    using assms len by (auto simp: recvBody_def run_bind_eq_Returns split: prod.splits read_result.splits)
  then show ?thesis using tcp_read_exact_received [OF r(1)] by (simp add: received_def)
qed

text \<open>A blank packet in \<open>outq_\<close> for each frame that is answered, each of which took the 24 bytes of a
  header off the stream: after a round that goes on, and in all.\<close>

definition acked :: "worker \<Rightarrow> worker \<Rightarrow> bool" where
  "acked w w' \<longleftrightarrow> seq w' = seq w \<and>
     (\<exists>k. outq w' = outq w @ replicate k new_packet \<and> 24 * k + received w' \<le> received w)"

definition acked_in_all :: "worker \<Rightarrow> worker \<Rightarrow> bool" where
  "acked_in_all w w' \<longleftrightarrow> seq w' = seq w \<and>
     (\<exists>k. outq w' = outq w @ replicate k new_packet \<and> 24 * k \<le> received w)"

lemma acked_same: "seq w' = seq w \<Longrightarrow> outq w' = outq w \<Longrightarrow> received w' \<le> received w \<Longrightarrow> acked w w'"
  unfolding acked_def by (intro conjI exI [of _ 0]) simp_all

lemma acked_one: "seq w' = seq w \<Longrightarrow> outq w' = outq w @ [new_packet] \<Longrightarrow> received w' + 24 \<le> received w \<Longrightarrow> acked w w'"
  unfolding acked_def by (intro conjI exI [of _ 1]) simp_all

lemma acked_all: "acked w w' \<Longrightarrow> acked_in_all w w'"
  by (fastforce simp: acked_def acked_in_all_def)

lemma acked_none: "seq w' = seq w \<Longrightarrow> outq w' = outq w \<Longrightarrow> acked_in_all w w'"
  unfolding acked_in_all_def by (intro conjI exI [of _ 0]) simp_all

lemma acked_trans:
  assumes "acked w w1" "acked_in_all w1 w2" shows "acked_in_all w w2"
proof -
  obtain k l where "outq w1 = outq w @ replicate k new_packet" "24 * k + received w1 \<le> received w"
      "outq w2 = outq w1 @ replicate l new_packet" "24 * l \<le> received w1"
    using assms by (auto simp: acked_def acked_in_all_def)
  then show ?thesis using assms unfolding acked_def acked_in_all_def
    by (intro conjI exI [of _ "k + l"]) (simp_all add: replicate_add)
qed

lemma recvHeader_outq: "recvHeader timeout w = Returns (h, w') \<Longrightarrow> outq w' = outq w \<and> seq w' = seq w"
  by (auto simp: recvHeader_def run_bind_eq_Returns split: prod.splits read_result.splits)

lemma recvBody_outq:
  assumes "recvBody h timeout w = Returns (b, w')" shows "outq w' = outq w \<and> seq w' = seq w"
proof -
  obtain len where len: "lift_run (get_msg_len h) = Returns len" "\<not> 2 ^ 63 \<le> len"
    using assms by (cases "lift_run (get_msg_len h)") (auto simp: recvBody_def split: if_splits)
  obtain r t where r: "tcp_read_exact len timeout (smsc w) = (r, t)" by fastforce
  show ?thesis using assms len r by (cases r) (auto simp: recvBody_def run_bind_eq_Returns)
qed

lemma recvMsg_step_acked:
  assumes "recvMsg_step m ms w = Returns r"
  shows "case r of Again ms' w' \<Rightarrow> acked w w' \<and> received w' + 24 \<le> received w | Done p w' \<Rightarrow> acked_in_all w w'"
proof -
  obtain h w1 where h: "recvHeader (Some ms) w = Returns (h, w1)"
    using assms by (auto simp: recvMsg_step_def run_bind_eq_Returns)
  note same = recvHeader_outq [OF h]
  show ?thesis
  proof (cases h)
    case None
    then show ?thesis using assms h same
      by (auto simp: recvMsg_step_def Let_def intro!: acked_none split: if_splits)
  next
    case (Some x)
    have size: "received w1 + 24 = received w" using recvHeader_received h Some by blast
    note step = assms [unfolded recvMsg_step_def h run_bind_simps prod.case Some option.case]
    show ?thesis
    proof (cases "msg_type_enum x")
      case LINK
      then show ?thesis using step size same by (auto simp: push_ack_eq received_def intro!: acked_one)
    next
      case SN_REGINFO_ACK
      then obtain b w2 where b: "recvBody x (Some 5000) w1 = Returns (b, w2)"
          "(if b = None then Returns (Done None w2) else Returns (Again 5000 w2)) = Returns r"
        using step by (auto simp: run_bind_eq_Returns)
      note w2 = recvBody_outq [OF b(1)]
      show ?thesis
      proof (cases b)
        case None
        then show ?thesis using b(2) w2 same by (auto intro!: acked_none)
      next
        case (Some y)
        then have "received w2 \<le> received w1" using b(1) recvBody_received by blast
        then show ?thesis using b(2) w2 same size Some by (auto intro!: acked_same)
      qed
    next
      case REQ_RESULT
      then obtain b w2 where b: "recvBody x (Some 5000) w1 = Returns (b, w2)"
          "(case b of None \<Rightarrow> Returns (Done None w2)
            | Some rep_b \<Rightarrow> run_bind (push_ack REQ_RESULT_ACK w2) (\<lambda>w.
                      Returns (Done (Some \<lparr>header = x, body = rep_b\<rparr>) w))) = Returns r"
        using step by (auto simp: run_bind_eq_Returns)
      note w2 = recvBody_outq [OF b(1)]
      show ?thesis
      proof (cases b)
        case None
        then show ?thesis using b(2) w2 same by (auto intro!: acked_none)
      next
        case (Some y)
        then have "received w2 \<le> received w1" using b(1) recvBody_received by blast
        then show ?thesis using b(2) w2 same size Some
          by (auto simp: push_ack_eq received_def intro!: acked_all [OF acked_one])
      qed
    qed (use step same in \<open>auto intro!: acked_none\<close>)
  qed
qed

section \<open>What the receive loop returns\<close>

lemma recvHeader_wf:
  assumes "recvHeader timeout w = Returns (Some h, w')" shows "header_wf h"
proof -
  obtain buf t where buf: "tcp_read_exact header_SIZE timeout (smsc w) = (Read buf, t)"
      "header_deserialize new_header buf = Inr h"
    using assms by (auto simp: recvHeader_def run_bind_eq_Returns lift_run_eq_Returns split: prod.splits read_result.splits)
  then have "length buf = 24"
    using read_loop_length [of "timeout \<noteq> None" 24 _ buf]
    by (auto simp: tcp_read_exact_def Let_def header_SIZE_def split: prod.splits if_splits)
  then show ?thesis using buf(2) header_deserialize_fits [OF header_wf_new, of buf] by (auto simp: header_wf_def)
qed

lemma recvBody_wf:
  assumes "recvBody h timeout w = Returns (Some b, w')" shows "body_wf b"
proof -
  obtain len where len: "lift_run (get_msg_len h) = Returns len" "\<not> 2 ^ 63 \<le> len"
    using assms by (cases "lift_run (get_msg_len h)") (auto simp: recvBody_def split: if_splits)
  obtain r t where r: "tcp_read_exact len timeout (smsc w) = (r, t)" by fastforce
  then obtain buf c where "lift_run (result_body_deserialize new_result_body buf) = Returns c" "b = Result c"
    using assms len by (cases r) (auto simp: recvBody_def run_bind_eq_Returns)
  then show ?thesis
    by (auto simp: result_body_deserialize_def new_result_body_def read_at_def result_body_wf_def split: if_splits)
qed

lemma packet_wf_blank [simp]: "packet_wf new_packet"
  by (simp add: packet_wf_def new_packet_def header_wf_new)

lemma recvMsg_step_wf:
  assumes "recvMsg_step m ms w = Returns (Done (Some p) w')" shows "packet_wf p"
proof -
  obtain h w1 where h: "recvHeader (Some ms) w = Returns (Some h, w1)"
    using assms by (auto simp: recvMsg_step_def run_bind_eq_Returns Let_def split: option.splits if_splits)
  have "header_wf h" using recvHeader_wf [OF h] .
  moreover have "header p = h \<and> body_wf (body p)"
    using assms h recvBody_wf [of h "Some 5000" w1]
    by (auto simp: recvMsg_step_def run_bind_eq_Returns new_packet_def push_ack_eq
        split: MsgType.splits option.splits if_splits)
  ultimately show ?thesis by (simp add: packet_wf_def)
qed

lemma recvMsg_loop_acked:
  assumes "recvMsg_loop m ms w = Returns (r, w')" shows "acked_in_all w w'" "pred_option packet_wf r"
proof -
  have "case x of Again t' w' \<Rightarrow> acked w w' | Done p w' \<Rightarrow> acked_in_all w w' \<and> pred_option packet_wf p"
    if "recvMsg_step m ms w = Returns x" for ms w x
  proof (cases x)
    case (Again t' w')
    then show ?thesis using recvMsg_step_acked [OF that] by simp
  next
    case (Done p w')
    then show ?thesis using recvMsg_step_acked [OF that] recvMsg_step_wf that by (cases p) simp_all
  qed
  from recvMsg_loop_trans [where R = acked and S = acked_in_all, OF this acked_trans assms]
  show "acked_in_all w w'" "pred_option packet_wf r" by simp_all
qed

section \<open>The bound on the rounds\<close>

text \<open>The receive loop cut off after a number of rounds.\<close>

fun recvMsg_within :: "nat \<Rightarrow> packet \<Rightarrow> nat \<Rightarrow> worker \<Rightarrow> (packet option \<times> worker) run option" where
  "recvMsg_within 0 m ms w = None"
| "recvMsg_within (Suc n) m ms w = (case recvMsg_step m ms w of
       Returns (Again ms' w') \<Rightarrow> recvMsg_within n m ms' w'
     | Returns (Done r w') \<Rightarrow> Some (Returns (r, w'))
     | Throws e \<Rightarrow> Some (Throws e)
     | Hangs \<Rightarrow> Some Hangs)"

lemma recvMsg_within_enough: "received w < 24 * n \<Longrightarrow> recvMsg_within n m ms w = Some (recvMsg_loop m ms w)"
proof (induction n arbitrary: ms w)
  case (Suc n)
  have "recvMsg_within n m ms' w' = Some (recvMsg_loop m ms' w')" if "recvMsg_step m ms w = Returns (Again ms' w')" for ms' w'
    using Suc.IH [of w' ms'] recvMsg_step_acked [OF that] Suc.prems by simp
  then show ?case
    by (auto simp: recvMsg_loop.simps [of m ms w] split: run.splits recv_step.splits)
qed simp

text \<open>C6: termination of the worker. The receive loop, which has no bound of its own, ends after at
  most one round for every 24 bytes that can be received and one more, whatever the segments they come in
  and the signals that interrupt it; it never waits for ever, and queues at most one packet for every 24 bytes. Given a \<open>recvMsg (0ms)\<close> that comes back, a whole round of the thread
  ends if and only if an attempt to connect succeeds; else it retries without an end.\<close>

theorem worker_round_terminates:
  assumes "\<And>w. recv_no_wait w \<noteq> Hangs"
  shows "(outq_round recv_no_wait arrivals w = Hangs \<longleftrightarrow> \<not> list_ex (\<lambda>(s, c, evs). s \<and> c) (connect_ok (smsc w))) \<and>
    recvMsg_within (received w div 24 + 1) m (recv_timeout (msg_type_enum (header m))) w = Some (recvMsg m w) \<and>
    recvMsg m w \<noteq> Hangs \<and> (\<forall>r w'. recvMsg m w = Returns (r, w') \<longrightarrow>
      (\<exists>k. outq w' = outq w @ replicate k new_packet \<and> 24 * k \<le> received w))"
proof (intro conjI)
  have next_m: "next_message a x \<noteq> Hangs" for a x
    by (auto simp: next_message_def link_message_def run_bind_eq_Hangs Let_def split: prod.splits option.splits)
  have send: "sendMsg p x \<noteq> Hangs" for p x
    by (auto simp: sendMsg_def run_bind_eq_Hangs Let_def split: prod.splits)
  have finish: "round_end p x \<noteq> Hangs" for p x
    using send recvMsg_loop_bounded
    by (auto simp: round_end_cases recvMsg_def run_bind_eq_Hangs split: if_splits option.splits)
  have "outq_round recv_no_wait arrivals w = Hangs \<longleftrightarrow> connect_until (smsc w) = None"
    using assms next_m finish
    by (auto simp: outq_round_def round_begin_def round_start_def run_bind_eq_Hangs split: option.splits)
  then show "outq_round recv_no_wait arrivals w = Hangs \<longleftrightarrow> \<not> list_ex (\<lambda>(s, c, evs). s \<and> c) (connect_ok (smsc w))"
    using connect_until_first [of "smsc w"] by simp
  have "received w < 24 * (received w div 24 + 1)" by simp
  then show "recvMsg_within (received w div 24 + 1) m (recv_timeout (msg_type_enum (header m))) w = Some (recvMsg m w)"
    using recvMsg_within_enough unfolding recvMsg_def by blast
  show "recvMsg m w \<noteq> Hangs" unfolding recvMsg_def by (rule recvMsg_loop_bounded)
  show "\<forall>r w'. recvMsg m w = Returns (r, w') \<longrightarrow>
      (\<exists>k. outq w' = outq w @ replicate k new_packet \<and> 24 * k \<le> received w)"
    using recvMsg_loop_acked unfolding recvMsg_def acked_in_all_def by blast
qed

lemma worker_round_terminates_witness:
  "outq_round nothing_yet [] sample_worker = Hangs \<and> outq_round nothing_yet [] answered_worker \<noteq> Hangs"
  using worker_round_terminates [of nothing_yet "[]" sample_worker] worker_round_terminates [of nothing_yet "[]" answered_worker]
  by (simp add: nothing_yet_def sample_worker_def answered_worker_def sample_tcp_def)

end
