(* ===== verification/System.thy ===== *)
theory System
  imports Zmq_Server Worker_Rounds
begin

text \<open>
  The process of \<^verbatim>\<open>program/newbee/main.cpp\<close>: the server thread and the worker thread over the
  two queues they share, \<open>outq_\<close> with the packets for the SMSC and \<open>inq_\<close> with its answers, and the
  one counter of sequence numbers. A step is a part of a thread's round, cut so that it holds at most one access to
  what the threads share: a request is received and parsed, which takes a number; the packet is queued; the wait for an answer ends and
  the answer is sent. The worker connects; takes a message, or times out; makes a link check, which takes a number; sends;
  reads a frame, with the acknowledgement queued for it; queues the answer. (\<open>recvMsg (0ms)\<close>, a parameter, is part of connecting.) The two
  threads take their steps in any order. The parts are those of \<open>zmq_round\<close> and \<open>outq_round\<close>, so a thread
  alone takes its own rounds; what happens to a queue during a wait is the steps of the other thread before
  the wait ends, which it may at any time, by the clock or by a stop request; a stopped thread takes no further step. A part that ends the process (an exception
  nothing catches, undefined behaviour) or never returns is no step. The log of the run is a list of events.
\<close>

section \<open>The state and the steps\<close>

text \<open>What the process is given: the socket's operations and \<open>recvMsg (0ms)\<close>.\<close>

record 's env =
  env_recv :: "'s msg_recv"
  env_send :: "'s msg_send"
  env_no_wait :: "worker \<Rightarrow> (packet option \<times> worker) run"

text \<open>Where the worker is in its round: at its start, in the wait for a message, with a message to send,
  after a wait in vain, in the receive loop with the timeout in force, and after it with an answer or none.\<close>

datatype phase =
    Free
  | Connected
  | Timed_out
  | Holding packet
  | Receiving packet nat
  | Delivering "packet option"

text \<open>Where the server is in its round: before \<open>recv\<close>, with a packet made from a request, and in the wait
  for an answer.\<close>

datatype turn = Listening | Parsed packet | Awaiting

text \<open>Both queues and the counter are those of the worker's state.\<close>

record 's system =
  z_sock :: 's
  wk :: worker
  serving :: turn
  doing :: phase

abbreviation waiting :: "'s system \<Rightarrow> bool" where "waiting st \<equiv> serving st = Awaiting"

definition server_of :: "'s system \<Rightarrow> 's zmq_server" where
  "server_of st = \<lparr>sock = z_sock st, srv_outq = outq (wk st), srv_inq = inq (wk st), srv_seq = seq (wk st)\<rparr>"

definition put_server :: "'s zmq_server \<Rightarrow> 's system \<Rightarrow> 's system" where
  "put_server srv st = st\<lparr>z_sock := sock srv,
     wk := (wk st)\<lparr>outq := srv_outq srv, inq := srv_inq srv, seq := srv_seq srv\<rparr>\<rparr>"

datatype event =
    Idle
  | Stamped packet
  | Request packet
  | Refused
  | Answer "packet option"
  | Connect
  | Sending packet
  | Waited
  | Link_check packet
  | Transmitted
  | Frame
  | Exchanged "packet option"

inductive sys_step :: "'s env \<Rightarrow> 's system \<Rightarrow> event \<Rightarrow> 's system \<Rightarrow> bool" for E where
  no_request: "serving st = Listening \<Longrightarrow> socket_recv (env_recv E) (z_sock st) = (Inr None, s) \<Longrightarrow>
     sys_step E st Idle (st\<lparr>z_sock := s\<rparr>)"
| stamped: "serving st = Listening \<Longrightarrow> socket_recv (env_recv E) (z_sock st) = (Inr (Some data), s) \<Longrightarrow>
     parse_request data (server_of (st\<lparr>z_sock := s\<rparr>)) = (Inr p, srv) \<Longrightarrow>
     sys_step E st (Stamped p) ((put_server srv st)\<lparr>serving := Parsed p\<rparr>)"
| refused: "serving st = Listening \<Longrightarrow> socket_recv (env_recv E) (z_sock st) = (Inr (Some data), s) \<Longrightarrow>
     parse_request data (server_of (st\<lparr>z_sock := s\<rparr>)) = (Inl e, srv) \<Longrightarrow> is_std_exception e \<Longrightarrow>
     sys_step E st Refused (put_server srv st)"
| request: "serving st = Parsed p \<Longrightarrow>
     sys_step E st (Request p) ((put_server (queue_request p (server_of st)) st)\<lparr>serving := Awaiting\<rparr>)"
| answer: "serving st = Awaiting \<Longrightarrow> answer_request (env_send E) [] (server_of st) = (r, srv) \<Longrightarrow>
     (\<forall>e. r = Inl e \<longrightarrow> is_std_exception e) \<Longrightarrow>
     sys_step E st (Answer (fst (tsq_take (inq (wk st))))) ((put_server srv st)\<lparr>serving := Listening\<rparr>)"
| connect: "doing st = Free \<Longrightarrow> round_start (env_no_wait E) (wk st) = Returns w \<Longrightarrow>
     sys_step E st Connect (st\<lparr>wk := w, doing := Connected\<rparr>)"
| take_message: "doing st = Connected \<Longrightarrow> timed_pop [] (outq (wk st)) = (Some m, q) \<Longrightarrow>
     sys_step E st (Sending m) (st\<lparr>wk := (wk st)\<lparr>outq := q\<rparr>, doing := Holding m\<rparr>)"
| time_out: "doing st = Connected \<Longrightarrow> timed_pop [] (outq (wk st)) = (None, q) \<Longrightarrow>
     sys_step E st Waited (st\<lparr>wk := (wk st)\<lparr>outq := q\<rparr>, doing := Timed_out\<rparr>)"
| link_check: "doing st = Timed_out \<Longrightarrow> link_message (wk st) = Returns (m, w) \<Longrightarrow>
     sys_step E st (Link_check m) (st\<lparr>wk := w, doing := Holding m\<rparr>)"
| transmit: "doing st = Holding m \<Longrightarrow> round_send m (wk st) = Returns (awaits, w) \<Longrightarrow>
     sys_step E st Transmitted (st\<lparr>wk := w,
       doing := if awaits then Receiving m (recv_timeout (msg_type_enum (header m))) else Free\<rparr>)"
| frame: "doing st = Receiving m ms \<Longrightarrow> recvMsg_step m ms (wk st) = Returns (Again ms' w) \<Longrightarrow>
     sys_step E st Frame (st\<lparr>wk := w, doing := Receiving m ms'\<rparr>)"
| last_frame: "doing st = Receiving m ms \<Longrightarrow> recvMsg_step m ms (wk st) = Returns (Done r w) \<Longrightarrow>
     sys_step E st Frame (st\<lparr>wk := w, doing := Delivering r\<rparr>)"
| exchange: "doing st = Delivering r \<Longrightarrow>
     sys_step E st (Exchanged r) (st\<lparr>wk := round_result r (wk st), doing := Free\<rparr>)"

text \<open>Runs, with their events in order.\<close>

inductive runs :: "'s env \<Rightarrow> 's system \<Rightarrow> event list \<Rightarrow> 's system \<Rightarrow> bool" for E st where
  start: "runs E st [] st"
| step: "runs E st es st1 \<Longrightarrow> sys_step E st1 ev st2 \<Longrightarrow> runs E st (es @ [ev]) st2"

inductive_cases runs_snocE: "runs E st (es @ [ev]) st'"

lemma runs_append: "runs E st1 es' st2 \<Longrightarrow> runs E st es st1 \<Longrightarrow> runs E st (es @ es') st2"
proof (induction rule: runs.induct)
  case (step es1 st3 ev st4)
  then show ?case using runs.step [of E st "es @ es1"] by simp
qed simp

lemma runs_Cons: "sys_step E st ev st1 \<Longrightarrow> runs E st1 es st2 \<Longrightarrow> runs E st (ev # es) st2"
  using runs_append [of E st1 es st2 st "[ev]"] runs.step [OF runs.start] by fastforce

lemma runs_split: "runs E st (es @ es') st' \<Longrightarrow> \<exists>st1. runs E st es st1 \<and> runs E st1 es' st'"
proof (induction es' arbitrary: st' rule: rev_induct)
  case Nil
  then show ?case by (auto intro: runs.start)
next
  case (snoc ev es')
  then obtain st2 where "runs E st (es @ es') st2" "sys_step E st2 ev st'"
    by (metis append.assoc runs_snocE)
  then show ?case using snoc.IH by (blast intro: runs.step)
qed

section \<open>The threads alone\<close>

text \<open>A round of the server with nobody else is its steps one after the other.\<close>

lemma server_round_steps:
  assumes "socket_recv (env_recv E) (z_sock st) = (Inr (Some data), s)"
    and "zmq_round (env_recv E) (env_send E) [] (server_of st) = Inr srv" "serving st = Listening"
  shows "sys_step E st Refused (put_server srv st) \<or>
    (\<exists>p a. runs E st [Stamped p, Request p, Answer a] (put_server srv st))"
proof -
  obtain r srv1 where a: "parse_request data (server_of (st\<lparr>z_sock := s\<rparr>)) = (r, srv1)" by fastforce
  have "(server_of st)\<lparr>sock := s\<rparr> = server_of (st\<lparr>z_sock := s\<rparr>)" by (simp add: server_of_def)
  then have srv: "catch_std (case (r, srv1) of (Inl e, srv) \<Rightarrow> (Inl e, srv)
       | (Inr p, srv) \<Rightarrow> answer_request (env_send E) [] (queue_request p srv)) = Inr srv"
    using assms(1,2) a by (cases r) (simp_all add: zmq_round_def serve_request_def server_of_def accept_request_def)
  show ?thesis
  proof (cases r)
    case (Inl e)
    then show ?thesis
      using sys_step.refused [OF assms(3,1) a [unfolded Inl]] srv by (auto simp: catch_std_def split: if_splits)
  next
    case (Inr p)
    let ?st1 = "(put_server srv1 st)\<lparr>serving := Parsed p\<rparr>"
    let ?st2 = "(put_server (queue_request p (server_of ?st1)) ?st1)\<lparr>serving := Awaiting\<rparr>"
    have s1: "sys_step E st (Stamped p) ?st1" using sys_step.stamped [OF assms(3,1) a [unfolded Inr]] .
    have s2: "sys_step E ?st1 (Request p) ?st2" by (rule sys_step.request) simp
    have eq: "server_of ?st2 = queue_request p srv1"
      by (simp add: server_of_def put_server_def queue_request_def)
    obtain r2 srv2 where b: "answer_request (env_send E) [] (queue_request p srv1) = (r2, srv2)" by fastforce
    then have c: "srv2 = srv" "\<forall>e. r2 = Inl e \<longrightarrow> is_std_exception e"
      using srv Inr by (auto simp: catch_std_def split: sum.splits if_splits)
    have s3: "sys_step E ?st2 (Answer (fst (tsq_take (inq (wk ?st2))))) ((put_server srv ?st2)\<lparr>serving := Listening\<rparr>)"
      using sys_step.answer [of ?st2 E r2 srv] b c eq by simp
    have e: "(put_server srv ?st2)\<lparr>serving := Listening\<rparr> = put_server srv st"
      using assms(3) by (cases st) (simp add: put_server_def)
    from runs_Cons [OF s1 runs_Cons [OF s2 runs_Cons [OF s3 [unfolded e] runs.start]]] show ?thesis by blast
  qed
qed

text \<open>So is a round of the worker: the receive loop is one step for each frame.\<close>

lemma receive_runs:
  "recvMsg_loop m ms w = Returns (r, w') \<Longrightarrow> wk st = w \<Longrightarrow> doing st = Receiving m ms \<Longrightarrow>
   \<exists>k. runs E st (replicate k Frame @ [Exchanged r]) (st\<lparr>wk := round_result r w', doing := Free\<rparr>)"
proof (induction m ms w arbitrary: st rule: recvMsg_loop.induct)
  case (1 m ms w)
  obtain x where x: "recvMsg_step m ms w = Returns x"
    using "1.prems"(1) by (auto simp: recvMsg_loop.simps [of m ms w] split: run.splits)
  show ?case
  proof (cases x)
    case (Again ms' w1)
    let ?st1 = "st\<lparr>wk := w1, doing := Receiving m ms'\<rparr>"
    have "recvMsg_loop m ms' w1 = Returns (r, w')" using "1.prems"(1) x Again by (simp add: recvMsg_loop_again)
    then obtain k where k: "runs E ?st1 (replicate k Frame @ [Exchanged r])
        (?st1\<lparr>wk := round_result r w', doing := Free\<rparr>)"
      using "1.IH" [OF x Again, of ?st1] by auto
    have "sys_step E st Frame ?st1" using sys_step.frame [of st m ms ms' w1 E] "1.prems" x Again by simp
    from runs_Cons [OF this k] show ?thesis by (intro exI [of _ "Suc k"]) simp
  next
    case (Done r' w1)
    then have "r' = r" "w1 = w'" using "1.prems"(1) x by (simp_all add: recvMsg_loop_done)
    then have s1: "sys_step E st Frame (st\<lparr>wk := w', doing := Delivering r\<rparr>)"
      using sys_step.last_frame [of st m ms r w' E] "1.prems" x Done by simp
    have "sys_step E (st\<lparr>wk := w', doing := Delivering r\<rparr>) (Exchanged r) (st\<lparr>wk := round_result r w', doing := Free\<rparr>)"
      using sys_step.exchange [of "st\<lparr>wk := w', doing := Delivering r\<rparr>" r E] by simp
    from runs_Cons [OF s1 runs_Cons [OF this runs.start]] show ?thesis by (intro exI [of _ 1]) simp
  qed
qed

text \<open>The wait of the worker: a message, or the time is over and a link check follows.\<close>

lemma next_message_run:
  assumes "doing st = Connected" "next_message [] (wk st) = Returns (m, w)"
  shows "\<exists>es. runs E st es (st\<lparr>wk := w, doing := Holding m\<rparr>)"
proof -
  obtain r q where p: "timed_pop [] (outq (wk st)) = (r, q)" by fastforce
  show ?thesis
  proof (cases r)
    case (Some x)
    then have "sys_step E st (Sending m) (st\<lparr>wk := w, doing := Holding m\<rparr>)"
      using assms p sys_step.take_message [OF assms(1), of x q E] by (simp add: next_message_def)
    then show ?thesis using runs_Cons runs.start by blast
  next
    case None
    let ?st1 = "st\<lparr>wk := (wk st)\<lparr>outq := q\<rparr>, doing := Timed_out\<rparr>"
    have s1: "sys_step E st Waited ?st1" using sys_step.time_out [OF assms(1)] p None by blast
    have "link_message (wk ?st1) = Returns (m, w)" using assms(2) p None by (simp add: next_message_def)
    then have "sys_step E ?st1 (Link_check m) (st\<lparr>wk := w, doing := Holding m\<rparr>)"
      using sys_step.link_check [of ?st1 m w E] by simp
    from runs_Cons [OF s1 runs_Cons [OF this runs.start]] show ?thesis by blast
  qed
qed

lemma worker_round_steps:
  assumes "outq_round (env_no_wait E) [] (wk st) = Returns w" "doing st = Free"
  shows "\<exists>es. runs E st es (st\<lparr>wk := w\<rparr>)"
proof -
  obtain w1 m w2 where w: "round_start (env_no_wait E) (wk st) = Returns w1" "next_message [] w1 = Returns (m, w2)"
      "round_end m w2 = Returns w"
    using assms(1) by (auto simp: outq_round_def round_begin_def run_bind_eq_Returns)
  obtain awaits w3 where w3: "round_send m w2 = Returns (awaits, w3)"
      "(if awaits then run_bind (recvMsg m w3) (\<lambda>(result, w). Returns (round_result result w)) else Returns w3) = Returns w"
    using w(3) by (auto simp: round_end_def run_bind_eq_Returns)
  let ?st1 = "st\<lparr>wk := w1, doing := Connected\<rparr>" and ?st2 = "st\<lparr>wk := w2, doing := Holding m\<rparr>"
  let ?st3 = "st\<lparr>wk := w3, doing := if awaits then Receiving m (recv_timeout (msg_type_enum (header m))) else Free\<rparr>"
  have s1: "sys_step E st Connect ?st1" using sys_step.connect assms(2) w(1) by blast
  obtain es2 where s2: "runs E ?st1 es2 ?st2" using next_message_run [of ?st1 m w2 E] w(2) by auto
  have s3: "sys_step E ?st2 Transmitted ?st3" using sys_step.transmit [of ?st2 m awaits w3 E] w3(1) by simp
  have "\<exists>es. runs E ?st3 es (st\<lparr>wk := w\<rparr>)"
  proof (cases awaits)
    case False
    then have "?st3 = st\<lparr>wk := w\<rparr>" using w3(2) assms(2) by simp
    then show ?thesis by (auto intro: runs.start)
  next
    case True
    then obtain r w4 where r: "recvMsg m w3 = Returns (r, w4)" "w = round_result r w4"
      using w3(2) by (auto simp: run_bind_eq_Returns)
    obtain k where k: "runs E ?st3 (replicate k Frame @ [Exchanged r]) (?st3\<lparr>wk := round_result r w4, doing := Free\<rparr>)"
      using receive_runs [OF r(1) [unfolded recvMsg_def], of ?st3 E] True by auto
    have "?st3\<lparr>wk := round_result r w4, doing := Free\<rparr> = st\<lparr>wk := w\<rparr>" using assms(2) r(2) by (cases st) simp
    with k show ?thesis by metis
  qed
  then show ?thesis using runs_Cons [OF s1 runs_append [OF runs_Cons [OF s3] s2]] by blast
qed

lemma pop_wait_now: "timed_pop [] q = tsq_take q"
  by (simp add: timed_pop_items)

section \<open>Parts of a run\<close>

lemma sendMsg_wf:
  assumes "packet_wf p"
  shows "\<exists>t. sendMsg p w = Returns (accepted (total_size p) (tx (smsc w)) = total_size p, w\<lparr>smsc := t\<rparr>) \<and>
    wire t = wire (smsc w) @ take (accepted (total_size p) (tx (smsc w))) (packet_layout p) \<and>
    rx t = rx (smsc w) \<and> sockopt_ok t = sockopt_ok (smsc w)"
proof -
  have "packet_serialize p (zeros (total_size p)) (total_size p) = Inr (packet_layout p)"
    using packet_serialize_fits [OF assms, of "total_size p" "zeros (total_size p)"] by simp
  then show ?thesis
    using send_loop_spec [of "packet_layout p" "smsc w"] length_packet_layout [OF assms]
    by (auto simp: sendMsg_def tcp_send_all_def)
qed

text \<open>A message that is accepted whole and answered.\<close>

lemma exchange_run:
  assumes "doing st = Holding m" "packet_wf m" "msg_type_enum (header m) \<notin> {LINK_ACK, REQ_RESULT_ACK}"
    and "accepted (total_size m) (tx (smsc (wk st))) = total_size m" "sockopt_ok (smsc (wk st)) = []"
    and "answer_of (deliverable (rx (smsc (wk st)))) = (acks, verdict.Answer ans rest)"
  shows "\<exists>k w. runs E st (Transmitted # replicate k Frame @ [Exchanged (Some ans)]) (st\<lparr>wk := w, doing := Free\<rparr>) \<and>
    inq w = inq (wk st) @ [ans] \<and> outq w = outq (wk st) @ acks \<and> seq w = seq (wk st) \<and>
    wire (smsc w) = wire (smsc (wk st)) @ packet_layout m"
proof -
  let ?w = "wk st" and ?ms = "recv_timeout (msg_type_enum (header m))"
  obtain t where t: "sendMsg m ?w = Returns (True, ?w\<lparr>smsc := t\<rparr>)" "wire t = wire (smsc ?w) @ packet_layout m"
      "rx t = rx (smsc ?w)" "sockopt_ok t = []"
    using sendMsg_wf [OF assms(2), of ?w] assms(4,5) length_packet_layout [OF assms(2)] by auto
  let ?st1 = "st\<lparr>wk := ?w\<lparr>smsc := t\<rparr>, doing := Receiving m ?ms\<rparr>"
  have "round_send m ?w = Returns (True, ?w\<lparr>smsc := t\<rparr>)" using t(1) assms(3) by (simp add: round_send_def)
  then have s1: "sys_step E st Transmitted ?st1" using sys_step.transmit [OF assms(1), of True _ E] by simp
  have "stream (?w\<lparr>smsc := t\<rparr>) (deliverable (rx (smsc ?w)))" using t by (simp add: stream_def)
  then obtain w' where w': "recvMsg_loop m ?ms (?w\<lparr>smsc := t\<rparr>) = Returns (Some ans, w')"
      "same_queues (?w\<lparr>smsc := t, outq := outq ?w @ acks\<rparr>) w'"
    using recvMsg_loop_stream [of "?w\<lparr>smsc := t\<rparr>" "deliverable (rx (smsc ?w))" m ?ms] assms(6) by auto
  obtain k where "runs E ?st1 (replicate k Frame @ [Exchanged (Some ans)])
      (?st1\<lparr>wk := round_result (Some ans) w', doing := Free\<rparr>)"
    using receive_runs [OF w'(1), of ?st1] by auto
  from runs_Cons [OF s1 this] show ?thesis
    using w'(2) t by (intro exI [of _ k] exI [of _ "round_result (Some ans) w'"]) (simp add: push_noti_def same_queues_def)
qed

lemma connect_step:
  "env_no_wait E = nothing_yet \<Longrightarrow> doing st = Free \<Longrightarrow> connect_until (smsc (wk st)) = Some t \<Longrightarrow>
   sys_step E st Connect (st\<lparr>wk := (wk st)\<lparr>smsc := t\<rparr>, doing := Connected\<rparr>)"
  by (rule sys_step.connect) (simp_all add: round_start_def nothing_yet_def)

lemma sending_step:
  "doing st = Connected \<Longrightarrow> outq (wk st) = m # ms \<Longrightarrow>
   sys_step E st (Sending m) (st\<lparr>wk := (wk st)\<lparr>outq := ms\<rparr>, doing := Holding m\<rparr>)"
  by (rule sys_step.take_message) (simp_all add: pop_wait_now tsq_take_def)

lemma waited_step:
  assumes "doing st = Connected" "outq (wk st) = []"
  shows "sys_step E st Waited (st\<lparr>doing := Timed_out\<rparr>)"
proof -
  have "sys_step E st Waited (st\<lparr>wk := (wk st)\<lparr>outq := []\<rparr>, doing := Timed_out\<rparr>)"
    using assms by (intro sys_step.time_out) (simp_all add: pop_wait_now tsq_take_def)
  moreover have "(wk st)\<lparr>outq := []\<rparr> = wk st" using assms(2) by (cases "wk st") simp
  ultimately show ?thesis by simp
qed

lemma link_check_step:
  assumes "doing st = Timed_out"
  shows "\<exists>link. packet_of_type (seq (wk st)) LINK = (Inr link, seq (wk st) + 1) \<and> packet_wf link \<and>
    body link = Monostate \<and> msg_type_enum (header link) = LINK \<and>
    sys_step E st (Link_check link) (st\<lparr>wk := (wk st)\<lparr>seq := seq (wk st) + 1\<rparr>, doing := Holding link\<rparr>)"
proof -
  obtain link where link: "packet_of_type (seq (wk st)) LINK = (Inr link, seq (wk st) + 1)" "packet_wf link"
      "body link = Monostate" "msg_type_enum (header link) = LINK"
    using packet_of_link by blast
  then have "link_message (wk st) = Returns (link, (wk st)\<lparr>seq := seq (wk st) + 1\<rparr>)" by (simp add: link_message_def)
  from sys_step.link_check [OF assms this] show ?thesis using link by blast
qed

text \<open>The parts of the server's round as steps.\<close>

lemma stamped_step:
  assumes "serving st = Listening" "env_recv E (z_sock st) = (Inr (json_text (JObject m)), s1)" "json_wf (JObject m)"
    and "map_of m ''msg_type'' = Some (JString ''3'')" "map_of m ''action_code'' = Some (JString ac)"
      "\<forall>k \<in> set reginfo_keys. map_of m k = Some (JString (v k))"
  shows "sys_step E st (Stamped (registration_packet (seq (wk st)) ac v))
    (st\<lparr>z_sock := s1, wk := (wk st)\<lparr>seq := seq (wk st) + 1\<rparr>, serving := Parsed (registration_packet (seq (wk st)) ac v)\<rparr>)"
proof -
  let ?p = "registration_packet (seq (wk st)) ac v"
  let ?srv = "server_of (st\<lparr>z_sock := s1\<rparr>)"
  have a: "parse_request (json_text (JObject m)) ?srv = (Inr ?p, ?srv\<lparr>srv_seq := seq (wk st) + 1\<rparr>)"
    using parse_registration [OF json_parse_text [OF assms(3)] assms(4-6), of "seq (wk st)"]
    by (simp add: parse_request_def server_of_def)
  have s: "socket_recv (env_recv E) (z_sock st) = (Inr (Some (json_text (JObject m))), s1)"
    using assms(2) by (simp add: socket_recv_def)
  show ?thesis
    using sys_step.stamped [OF assms(1) s a] by (simp add: put_server_def server_of_def)
qed

lemma request_step:
  "serving st = Parsed p \<Longrightarrow>
   sys_step E st (Request p) (st\<lparr>wk := (wk st)\<lparr>outq := outq (wk st) @ [p]\<rparr>, serving := Awaiting\<rparr>)"
  using sys_step.request [of st p E] by (simp add: put_server_def server_of_def queue_request_def push_noti_def)

text \<open>Both, with nothing of the worker between them.\<close>

lemma registration_run:
  assumes "serving st = Listening" "env_recv E (z_sock st) = (Inr (json_text (JObject m)), s1)" "json_wf (JObject m)"
    and "map_of m ''msg_type'' = Some (JString ''3'')" "map_of m ''action_code'' = Some (JString ac)"
      "\<forall>k \<in> set reginfo_keys. map_of m k = Some (JString (v k))"
  shows "runs E st [Stamped (registration_packet (seq (wk st)) ac v), Request (registration_packet (seq (wk st)) ac v)]
    (st\<lparr>z_sock := s1, wk := (wk st)\<lparr>seq := seq (wk st) + 1,
       outq := outq (wk st) @ [registration_packet (seq (wk st)) ac v]\<rparr>, serving := Awaiting\<rparr>)"
proof -
  let ?p = "registration_packet (seq (wk st)) ac v"
  let ?st1 = "st\<lparr>z_sock := s1, wk := (wk st)\<lparr>seq := seq (wk st) + 1\<rparr>, serving := Parsed ?p\<rparr>"
  have "sys_step E ?st1 (Request ?p) (?st1\<lparr>wk := (wk ?st1)\<lparr>outq := outq (wk ?st1) @ [?p]\<rparr>, serving := Awaiting\<rparr>)"
    by (rule request_step) simp
  from runs_Cons [OF stamped_step [OF assms] runs_Cons [OF this runs.start]] show ?thesis by simp
qed

lemma answer_step:
  assumes "serving st = Awaiting" "inq (wk st) = p # ps" "answer_text p = Inr txt"
    and "env_send E txt (z_sock st) = (Inr n, s')"
  shows "sys_step E st (Answer (Some p)) (st\<lparr>z_sock := s', wk := (wk st)\<lparr>inq := ps\<rparr>, serving := Listening\<rparr>)"
proof -
  have "answer_request (env_send E) [] (server_of st) =
      (Inr (), (server_of st)\<lparr>sock := s', srv_inq := ps\<rparr>)"
    using assms(2-4) by (simp add: answer_request_def pop_wait_now tsq_take_def server_of_def socket_send_def)
  from sys_step.answer [OF assms(1) this] show ?thesis
    using assms(2) by (simp add: tsq_take_def put_server_def server_of_def)
qed

text \<open>An idle worker's link check, answered.\<close>

lemma idle_exchange:
  assumes "env_no_wait E = nothing_yet" "doing st = Free" "outq (wk st) = []" "inq (wk st) = []"
    and "connect_until (smsc (wk st)) = Some t" "accepted 24 (tx t) = 24" "sockopt_ok t = []"
      "answer_of (deliverable (rx t)) = (acks, verdict.Answer ack rest)"
  shows "\<exists>link k w. runs E st ([Connect, Waited, Link_check link, Transmitted] @ replicate k Frame @ [Exchanged (Some ack)])
      (st\<lparr>wk := w, doing := Free\<rparr>) \<and>
    msg_type_enum (header link) = LINK \<and> inq w = [ack] \<and> outq w = acks \<and> seq w = seq (wk st) + 1 \<and>
    wire (smsc w) = wire t @ packet_layout link"
proof -
  let ?st1 = "st\<lparr>wk := (wk st)\<lparr>smsc := t\<rparr>, doing := Connected\<rparr>"
  have s1: "sys_step E st Connect ?st1" using connect_step assms(1,2,5) by blast
  let ?st0 = "?st1\<lparr>doing := Timed_out\<rparr>"
  have s0: "sys_step E ?st1 Waited ?st0" using waited_step [of ?st1 E] assms(3) by simp
  obtain link where link: "packet_wf link" "body link = Monostate" "msg_type_enum (header link) = LINK"
    and s2: "sys_step E ?st0 (Link_check link) (?st0\<lparr>wk := (wk ?st0)\<lparr>seq := seq (wk ?st0) + 1\<rparr>, doing := Holding link\<rparr>)"
    using link_check_step [of ?st0 E] by auto
  let ?st2 = "?st0\<lparr>wk := (wk ?st0)\<lparr>seq := seq (wk ?st0) + 1\<rparr>, doing := Holding link\<rparr>"
  obtain k w where w: "runs E ?st2 (Transmitted # replicate k Frame @ [Exchanged (Some ack)]) (?st2\<lparr>wk := w, doing := Free\<rparr>)"
      "inq w = [ack]" "outq w = acks" "seq w = seq (wk st) + 1" "wire (smsc w) = wire t @ packet_layout link"
    using exchange_run [of ?st2 link acks ack rest E] assms(3,4,6-8) link by (auto simp: total_size_Monostate)
  show ?thesis
    using runs_Cons [OF s1 runs_Cons [OF s0 runs_Cons [OF s2 w(1)]]] w(2-) link(3) by (intro exI [of _ link] exI [of _ k] exI [of _ w]) simp
qed

text \<open>A process at work: one registration will come, and what the SMSC sends on the next connection.\<close>

definition sample_env :: "rep_script env" where
  "sample_env = \<lparr>env_recv = script_recv, env_send = script_send, env_no_wait = nothing_yet\<rparr>"

definition sample_system :: "int list \<Rightarrow> bytes \<Rightarrow> rep_script system" where
  "sample_system sends s = \<lparr>z_sock = \<lparr>requests = [json_text (JObject sample_request)], replies = [], owed = False\<rparr>,
     wk = sample_worker\<lparr>smsc := sample_tcp\<lparr>tx := sends, connect_ok := [(True, True, [Segment s])]\<rparr>\<rparr>,
     serving = Listening, doing = Free\<rparr>"

lemma sample_connection:
  "connect_until (smsc (wk (sample_system sends s))) =
     Some (sample_tcp\<lparr>tx := sends, connect_ok := [], fd := Some 3, open_fds := [3], next_fd := 4, rx := [Segment s]\<rparr>)"
  by (simp add: sample_system_def sample_worker_def sample_tcp_def connect_until.simps tcp_connect_def sys_setsockopt_def)

abbreviation link_answer :: packet where
  "link_answer \<equiv> \<lparr>header = sample_header (CHR ''2'') [], body = Monostate\<rparr>"

abbreviation answered_system :: "rep_script system" where
  "answered_system \<equiv> sample_system [24] (header_layout (sample_header (CHR ''2'') []))"

lemma sample_link_run:
  "\<exists>link k w. runs sample_env answered_system
     ([Connect, Waited, Link_check link, Transmitted] @ replicate k Frame @ [Exchanged (Some link_answer)])
     (answered_system\<lparr>wk := w, doing := Free\<rparr>)"
proof -
  have "answer_of (header_layout (sample_header (CHR ''2'') [])) = ([], verdict.Answer link_answer [])"
    using answer_of_layout [OF sample_header_wf, of "[]" "CHR ''2''" "[]"] by (simp add: sample_header_type)
  then show ?thesis
    using idle_exchange [OF _ _ _ _ sample_connection, of sample_env "[24]" "header_layout (sample_header (CHR ''2'') [])" "[]"]
    by (fastforce simp: sample_env_def sample_system_def sample_worker_def sample_tcp_def)
qed

section \<open>What the steps do to the answers\<close>

text \<open>The answers that came from the SMSC, and those the server took, in the order of the events.\<close>

fun answers_in :: "event \<Rightarrow> packet list" where
  "answers_in (Exchanged (Some p)) = [p]"
| "answers_in _ = []"

fun answers_out :: "event \<Rightarrow> packet list" where
  "answers_out (Answer (Some p)) = [p]"
| "answers_out _ = []"

abbreviation came :: "event list \<Rightarrow> packet list" where "came es \<equiv> concat (map answers_in es)"
abbreviation went :: "event list \<Rightarrow> packet list" where "went es \<equiv> concat (map answers_out es)"

lemma parse_request_queues:
  "parse_request d srv = (r, srv') \<Longrightarrow> srv_inq srv' = srv_inq srv \<and> srv_outq srv' = srv_outq srv \<and> sock srv' = sock srv"
  by (auto simp: parse_request_def split: prod.splits)

lemma parse_request_packet_wf: "parse_request d srv = (Inr p, srv') \<Longrightarrow> packet_wf p"
  by (auto simp: parse_request_def dest: packet_parse_wf split: prod.splits)

lemma queue_request_simps [simp]:
  "srv_inq (queue_request p srv) = srv_inq srv" "sock (queue_request p srv) = sock srv"
  "srv_seq (queue_request p srv) = srv_seq srv" "srv_outq (queue_request p srv) = srv_outq srv @ [p]"
  by (simp_all add: queue_request_def push_noti_def)

lemma answer_request_inq:
  "answer_request snd_msg [] srv = (r, srv') \<Longrightarrow> srv_inq srv' = snd (tsq_take (srv_inq srv)) \<and> srv_outq srv' = srv_outq srv"
  by (auto simp: answer_request_def pop_wait_now Let_def split: prod.splits sum.splits option.splits)

lemma tsq_take_items: "(case fst (tsq_take q) of None \<Rightarrow> [] | Some x \<Rightarrow> [x]) @ snd (tsq_take q) = q"
  by (cases q) (simp_all add: tsq_take_def)

text \<open>What is asked of \<open>recvMsg (0ms)\<close>: it may acknowledge, and leaves the sockets, \<open>inq_\<close> and the counter alone.\<close>

definition reads_quietly :: "(worker \<Rightarrow> (packet option \<times> worker) run) \<Rightarrow> bool" where
  "reads_quietly recv \<longleftrightarrow> (\<forall>w i w'. recv w = Returns (i, w') \<longrightarrow>
     keeps_sockets w w' \<and> seq w' = seq w \<and> (\<exists>k. outq w' = outq w @ replicate k new_packet))"

lemma reads_quietly_nothing_yet: "reads_quietly nothing_yet"
  by (simp add: reads_quietly_def nothing_yet_def)

text \<open>The parts of the worker's round: what each does to the queues and to the counter.\<close>

lemma round_start_queues:
  assumes "reads_quietly recv" "round_start recv w = Returns w'"
  shows "inq w' = inq w" "seq w' = seq w" "\<exists>k. outq w' = outq w @ replicate k new_packet"
proof -
  obtain t i where "recv (w\<lparr>smsc := t\<rparr>) = Returns (i, w')"
    using assms(2) by (auto simp: round_start_def run_bind_eq_Returns split: option.splits)
  then have "keeps_sockets (w\<lparr>smsc := t\<rparr>) w' \<and> seq w' = seq (w\<lparr>smsc := t\<rparr>) \<and>
      (\<exists>k. outq w' = outq (w\<lparr>smsc := t\<rparr>) @ replicate k new_packet)"
    using assms(1) by (simp only: reads_quietly_def)
  then show "inq w' = inq w" "seq w' = seq w" "\<exists>k. outq w' = outq w @ replicate k new_packet"
    by (simp_all add: keeps_sockets_def)
qed

lemma timed_pop_now: "timed_pop [] q = (r, q') \<Longrightarrow> q = (case r of None \<Rightarrow> [] | Some x \<Rightarrow> [x]) @ q' \<and> (r = None \<longrightarrow> q' = [])"
  by (cases q) (auto simp: pop_wait_now tsq_take_def)

lemma link_message_queues:
  assumes "link_message w = Returns (m, w')"
  shows "outq w' = outq w" "inq w' = inq w" "seq w' = seq w + 1" "seq_num (header m) = stamp (seq w)" "packet_wf m"
    "body m = Monostate"
proof -
  obtain p where "packet_of_type (seq w) LINK = (Inr p, seq w + 1)" "packet_wf p" "body p = Monostate"
      "seq_num (header p) = stamp (seq w)"
    using packet_of_link by blast
  then show "outq w' = outq w" "inq w' = inq w" "seq w' = seq w + 1" "seq_num (header m) = stamp (seq w)" "packet_wf m"
      "body m = Monostate"
    using assms by (auto simp: link_message_def)
qed

lemma round_send_queues: "round_send m w = Returns (a, w') \<Longrightarrow> inq w' = inq w \<and> outq w' = outq w \<and> seq w' = seq w"
  by (auto simp: round_send_def sendMsg_def run_bind_eq_Returns split_beta split: if_splits)

lemma recvMsg_step_queues:
  assumes "recvMsg_step m ms w = Returns r"
  shows "case r of Again ms' w' \<Rightarrow> inq w' = inq w \<and> seq w' = seq w \<and> (\<exists>k. outq w' = outq w @ replicate k new_packet)
    | Done a w' \<Rightarrow> inq w' = inq w \<and> seq w' = seq w \<and> (\<exists>k. outq w' = outq w @ replicate k new_packet) \<and> pred_option packet_wf a"
proof (cases r)
  case (Again ms' w')
  then show ?thesis
    using recvMsg_step_keeps [OF assms] recvMsg_step_acked [OF assms] by (auto simp: keeps_sockets_def acked_def acked_in_all_def)
next
  case (Done a w')
  then show ?thesis
    using recvMsg_step_keeps [OF assms] recvMsg_step_acked [OF assms] recvMsg_step_wf [of m ms w _ w'] assms
    by (cases a) (auto simp: keeps_sockets_def acked_def acked_in_all_def)
qed

lemma round_result_simps [simp]:
  "inq (round_result r w) = inq w @ (case r of None \<Rightarrow> [] | Some p \<Rightarrow> [p])"
  "outq (round_result r w) = outq w" "seq (round_result r w) = seq w"
  by (cases r; simp add: push_noti_def)+

lemma step_answers:
  assumes "reads_quietly (env_no_wait E)" "sys_step E st ev st'"
  shows "inq (wk st) @ answers_in ev = answers_out ev @ inq (wk st')"
  using assms(2)
proof cases
  case (answer r srv)
  then show ?thesis
    using answer_request_inq [OF answer(4)] tsq_take_items [of "inq (wk st)"]
    by (cases "fst (tsq_take (inq (wk st)))") (auto simp: server_of_def put_server_def)
next
  case (connect w)
  then show ?thesis using round_start_queues [OF assms(1) connect(4)] by simp
next
  case (time_out q)
  then show ?thesis by simp
next
  case (exchange r)
  then show ?thesis by (cases r) (simp_all add: push_noti_def)
qed (auto simp: server_of_def put_server_def link_message_queues
      dest!: parse_request_queues round_send_queues recvMsg_step_queues)

section \<open>What the steps do to the requests\<close>

text \<open>The packets the server queued, and those the worker took.\<close>

fun asked_in :: "event \<Rightarrow> packet list" where
  "asked_in (Request p) = [p]"
| "asked_in _ = []"

fun sent_in :: "event \<Rightarrow> packet list" where
  "sent_in (Sending m) = [m]"
| "sent_in _ = []"

abbreviation asked :: "event list \<Rightarrow> packet list" where "asked es \<equiv> concat (map asked_in es)"
abbreviation sent :: "event list \<Rightarrow> packet list" where "sent es \<equiv> concat (map sent_in es)"

fun is_reginfo :: "Body \<Rightarrow> bool" where
  "is_reginfo (Reginfo b) = True"
| "is_reginfo _ = False"

abbreviation registrations :: "packet list \<Rightarrow> packet list" where
  "registrations ps \<equiv> filter (\<lambda>p. is_reginfo (body p)) ps"

lemma registrations_blank [simp]: "registrations (replicate k new_packet) = []"
  by (simp add: new_packet_def)

lemma step_requests:
  assumes "reads_quietly (env_no_wait E)" "sys_step E st ev st'"
  shows "registrations (outq (wk st) @ asked_in ev) = registrations (sent_in ev @ outq (wk st'))"
  using assms(2)
proof cases
  case (connect w)
  then show ?thesis using round_start_queues(3) [OF assms(1) connect(4)] by auto
next
  case (take_message m q)
  then show ?thesis using timed_pop_now [OF take_message(4)] by simp
next
  case (time_out q)
  then show ?thesis using timed_pop_now [OF time_out(4)] by simp
next
  case (frame m ms ms' w)
  then show ?thesis using recvMsg_step_queues [OF frame(4)] by auto
next
  case (last_frame m ms r w)
  then show ?thesis using recvMsg_step_queues [OF last_frame(4)] by auto
qed (auto simp: server_of_def put_server_def link_message_queues
      dest!: parse_request_queues answer_request_inq round_send_queues)

text \<open>The server's requests and answers alternate.\<close>

fun asks :: "event \<Rightarrow> bool" where
  "asks (Request p) = True"
| "asks _ = False"

fun answers :: "event \<Rightarrow> bool" where
  "answers (Answer a) = True"
| "answers _ = False"

lemma step_turns:
  "sys_step E st ev st' \<Longrightarrow> of_bool (asks ev) + of_bool (waiting st) = of_bool (answers ev) + (of_bool (waiting st') :: nat)"
  by (erule sys_step.cases) (auto simp: put_server_def)

lemma conserve_append: "a @ x = y @ b \<Longrightarrow> b @ x' = y' @ c \<Longrightarrow> a @ (x @ x') = (y @ y') @ c"
  by (metis append.assoc)

text \<open>C2: what the two threads owe each other, in any interleaving of their steps. The answers of the
  SMSC are handed to clients one by one in the order they came, and no other way: what was in \<open>inq_\<close>
  and what came is what went and what is in \<open>inq_\<close>. Every registration that was
  queued is taken by the worker exactly once and in the order of the requests. The server is in at most one request: as many
  rounds have been answered or have timed out as requests were queued, but for the one it is waiting in.\<close>

theorem answers_in_order:
  assumes "reads_quietly (env_no_wait E)" "runs E st es st'"
  shows "inq (wk st) @ came es = went es @ inq (wk st') \<and>
    registrations (outq (wk st) @ asked es) = registrations (sent es @ outq (wk st')) \<and>
    length (filter asks es) + of_bool (waiting st) = length (filter answers es) + of_bool (waiting st')"
  using assms(2)
proof induction
  case (step es st1 ev st2)
  note ih = step.IH [THEN conjunct1] step.IH [THEN conjunct2, THEN conjunct1] step.IH [THEN conjunct2, THEN conjunct2]
  show ?case
  proof (intro conjI)
    show "inq (wk st) @ came (es @ [ev]) = went (es @ [ev]) @ inq (wk st2)"
      using conserve_append [OF ih(1) step_answers [OF assms(1) step.hyps(2)]] by simp
    show "registrations (outq (wk st) @ asked (es @ [ev])) = registrations (sent (es @ [ev]) @ outq (wk st2))"
      using conserve_append [OF ih(2) [unfolded filter_append]
        step_requests [OF assms(1) step.hyps(2), unfolded filter_append]] by simp
    show "length (filter asks (es @ [ev])) + of_bool (waiting st) =
        length (filter answers (es @ [ev])) + of_bool (waiting st2)"
      using ih(3) step_turns [OF step.hyps(2)] by (cases "asks ev"; cases "answers ev") simp_all
  qed
qed simp

lemma answers_in_order_witness:
  "\<exists>link k w. let st' = answered_system\<lparr>wk := w, doing := Free\<rparr> in
     runs sample_env answered_system
       ([Connect, Waited, Link_check link, Transmitted] @ replicate k Frame @ [Exchanged (Some link_answer)]) st' \<and>
     inq (wk st') = [link_answer] \<and> registrations (outq (wk st')) = []"
proof -
  obtain link k w where r: "runs sample_env answered_system
      ([Connect, Waited, Link_check link, Transmitted] @ replicate k Frame @ [Exchanged (Some link_answer)])
      (answered_system\<lparr>wk := w, doing := Free\<rparr>)"
    using sample_link_run by blast
  have q: "reads_quietly (env_no_wait sample_env)" using reads_quietly_nothing_yet by (simp add: sample_env_def)
  have "inq (wk answered_system) = []" "outq (wk answered_system) = []" by (simp_all add: sample_system_def sample_worker_def)
  then have "inq w = [link_answer]" "registrations (outq w) = []"
    using answers_in_order [OF q r] by (simp_all add: map_replicate_const)
  then show ?thesis using r by (intro exI [of _ link] exI [of _ k] exI [of _ w]) (simp add: Let_def)
qed

section \<open>The types of the packets\<close>

text \<open>Every packet of the process has the sizes of the arrays it consists of.\<close>

fun held :: "phase \<Rightarrow> packet option" where
  "held (Holding m) = Some m"
| "held (Receiving m ms) = Some m"
| "held p = None"

text \<open>The packets on their way between a queue and a socket.\<close>

fun in_hand :: "phase \<Rightarrow> packet option" where
  "in_hand (Delivering r) = r"
| "in_hand p = held p"

fun made :: "turn \<Rightarrow> packet option" where
  "made (Parsed p) = Some p"
| "made t = None"

definition sys_wf :: "'s system \<Rightarrow> bool" where
  "sys_wf st \<longleftrightarrow> list_all packet_wf (outq (wk st)) \<and> list_all packet_wf (inq (wk st)) \<and>
     pred_option packet_wf (in_hand (doing st)) \<and> pred_option packet_wf (made (serving st))"

lemma list_all_blank [simp]: "list_all packet_wf (replicate k new_packet)"
  by (simp add: list_all_length)

lemma tsq_take_wf: "list_all P q \<Longrightarrow> list_all P (snd (tsq_take q))"
  by (cases q) (simp_all add: tsq_take_def)

lemma step_wf:
  assumes "reads_quietly (env_no_wait E)" "sys_step E st ev st'" "sys_wf st"
  shows "sys_wf st'"
  using assms(2)
proof cases
  case (stamped data s p srv)
  then show ?thesis using assms(3) parse_request_queues [OF stamped(5)] parse_request_packet_wf [OF stamped(5)]
    by (auto simp: sys_wf_def put_server_def server_of_def)
next
  case (refused data s e srv)
  then show ?thesis using assms(3) parse_request_queues [OF refused(5)]
    by (auto simp: sys_wf_def put_server_def server_of_def)
next
  case (request p)
  then show ?thesis using assms(3) by (auto simp: sys_wf_def put_server_def server_of_def)
next
  case (answer r srv)
  then show ?thesis using assms(3) answer_request_inq [OF answer(4)]
    by (auto simp: sys_wf_def put_server_def server_of_def intro: tsq_take_wf)
next
  case (connect w)
  then show ?thesis using round_start_queues [OF assms(1) connect(4)] assms(3) by (auto simp: sys_wf_def)
next
  case (take_message m q)
  then show ?thesis using timed_pop_now [OF take_message(4)] assms(3) by (simp add: sys_wf_def)
next
  case (time_out q)
  then show ?thesis using timed_pop_now [OF time_out(4)] assms(3) by (simp add: sys_wf_def)
next
  case (link_check m w)
  then show ?thesis using link_message_queues [OF link_check(4)] assms(3) by (simp add: sys_wf_def)
next
  case (transmit m awaits w)
  then show ?thesis using round_send_queues [OF transmit(4)] assms(3) by (simp add: sys_wf_def)
next
  case (frame m ms ms' w)
  then show ?thesis using recvMsg_step_queues [OF frame(4)] assms(3) by (auto simp: sys_wf_def)
next
  case (last_frame m ms r w)
  then show ?thesis using recvMsg_step_queues [OF last_frame(4)] assms(3) by (auto simp: sys_wf_def)
next
  case (exchange r)
  then show ?thesis using assms(3) by (cases r) (auto simp: sys_wf_def push_noti_def)
qed (use assms(3) in \<open>simp add: sys_wf_def\<close>)

lemma in_hand_held: "held p = Some m \<Longrightarrow> in_hand p = Some m"
  by (cases p) simp_all

text \<open>C3: the type invariant of the running process. Whatever clients and the SMSC send, and however the
  threads interleave, every packet in the two queues and the one being sent consist of arrays of the
  declared sizes; so the packet the worker holds is always serialized, to exactly its layout, without an
  exception and without a write out of bounds.\<close>

theorem packets_well_typed:
  assumes "reads_quietly (env_no_wait E)" "runs E st es st'" "sys_wf st"
  shows "sys_wf st' \<and> (case held (doing st') of None \<Rightarrow> True
    | Some m \<Rightarrow> packet_serialize m (zeros (total_size m)) (total_size m) = Inr (packet_layout m))"
proof -
  have "sys_wf st'"
    using assms(2,3) by induction (auto intro: step_wf [OF assms(1)])
  moreover have "packet_serialize m (zeros (total_size m)) (total_size m) = Inr (packet_layout m)" if "packet_wf m" for m
    using packet_serialize_fits [OF that, of "total_size m" "zeros (total_size m)"] by simp
  ultimately show ?thesis by (auto simp: sys_wf_def in_hand_held split: option.split)
qed

lemma packets_well_typed_witness:
  "\<exists>link k w. let st' = answered_system\<lparr>wk := w, doing := Free\<rparr> in
     runs sample_env answered_system
       ([Connect, Waited, Link_check link, Transmitted] @ replicate k Frame @ [Exchanged (Some link_answer)]) st' \<and> sys_wf st'"
proof -
  obtain link k w where r: "runs sample_env answered_system
      ([Connect, Waited, Link_check link, Transmitted] @ replicate k Frame @ [Exchanged (Some link_answer)])
      (answered_system\<lparr>wk := w, doing := Free\<rparr>)"
    using sample_link_run by blast
  have q: "reads_quietly (env_no_wait sample_env)" using reads_quietly_nothing_yet by (simp add: sample_env_def)
  have "sys_wf answered_system" by (simp add: sys_wf_def sample_system_def sample_worker_def)
  then have "sys_wf (answered_system\<lparr>wk := w, doing := Free\<rparr>)" using packets_well_typed [OF q r] by blast
  then show ?thesis using r by (intro exI [of _ link] exI [of _ k] exI [of _ w]) (simp add: Let_def)
qed

section \<open>Sequence numbers\<close>

text \<open>The packets that get a number: those made from a request, and the link checks.\<close>

fun stamped_in :: "event \<Rightarrow> packet list" where
  "stamped_in (Stamped p) = [p]"
| "stamped_in (Link_check p) = [p]"
| "stamped_in _ = []"

abbreviation stamped :: "event list \<Rightarrow> packet list" where "stamped es \<equiv> concat (map stamped_in es)"

lemma parse_request_seq:
  "parse_request d srv = (Inr p, srv') \<Longrightarrow> seq_num (header p) = stamp (srv_seq srv) \<and> srv_seq srv' = srv_seq srv + 1"
  "parse_request d srv = (Inl e, srv') \<Longrightarrow> srv_seq srv' = srv_seq srv \<or> srv_seq srv' = srv_seq srv + 1"
  by (auto simp: parse_request_def dest: packet_parse_stamp split: prod.splits)

lemma answer_request_seq: "answer_request snd_msg [] srv = (r, srv') \<Longrightarrow> srv_seq srv' = srv_seq srv"
  by (auto simp: answer_request_def pop_wait_now Let_def split: prod.splits sum.splits option.splits)

lemma step_seq:
  assumes "reads_quietly (env_no_wait E)" "sys_step E st ev st'"
  shows "(\<exists>p. stamped_in ev = [p] \<and> seq_num (header p) = stamp (seq (wk st)) \<and> seq (wk st') = seq (wk st) + 1) \<or>
    (stamped_in ev = [] \<and> seq (wk st') \<in> {seq (wk st), seq (wk st) + 1})"
  using assms(2)
proof cases
  case (stamped data s p srv)
  then show ?thesis using parse_request_seq(1) [OF stamped(5)] by (auto simp: server_of_def put_server_def)
next
  case (refused data s e srv)
  then show ?thesis using parse_request_seq(2) [OF refused(5)] by (auto simp: server_of_def put_server_def)
next
  case (answer r srv)
  then show ?thesis using answer_request_seq [OF answer(4)] by (simp add: server_of_def put_server_def)
next
  case (connect w)
  then show ?thesis using round_start_queues(2) [OF assms(1) connect(4)] by simp
next
  case (link_check m w)
  then show ?thesis using link_message_queues [OF link_check(4)] by simp
next
  case (frame m ms ms' w)
  then show ?thesis using recvMsg_step_queues [OF frame(4)] by simp
next
  case (last_frame m ms r w)
  then show ?thesis using recvMsg_step_queues [OF last_frame(4)] by simp
qed (auto simp: server_of_def put_server_def dest: round_send_queues)

lemma runs_seq:
  assumes "reads_quietly (env_no_wait E)" "runs E st es st'"
  shows "\<exists>ns k. k \<le> length es \<and> seq (wk st') = seq (wk st) + of_nat k \<and> sorted_wrt (<) ns \<and> (\<forall>n \<in> set ns. n < k) \<and>
    map (\<lambda>p. seq_num (header p)) (stamped es) = map (\<lambda>n. stamp (seq (wk st) + of_nat n)) ns"
  using assms(2)
proof induction
  case (step es st1 ev st2)
  then obtain ns k where k: "k \<le> length es" "seq (wk st1) = seq (wk st) + of_nat k" "sorted_wrt (<) ns" "\<forall>n \<in> set ns. n < k"
      "map (\<lambda>p. seq_num (header p)) (stamped es) = map (\<lambda>n. stamp (seq (wk st) + of_nat n)) ns"
    by blast
  from step_seq [OF assms(1) step.hyps(2)] show ?case
  proof (elim disjE exE conjE)
    fix p
    assume "stamped_in ev = [p]" "seq_num (header p) = stamp (seq (wk st1))" "seq (wk st2) = seq (wk st1) + 1"
    then show ?thesis using k
      by (intro exI [of _ "ns @ [k]"] exI [of _ "Suc k"]) (auto simp: sorted_wrt_append ac_simps less_Suc_eq)
  next
    assume a: "stamped_in ev = []" "seq (wk st2) \<in> {seq (wk st1), seq (wk st1) + 1}"
    then have "seq (wk st2) = seq (wk st) + of_nat (if seq (wk st2) = seq (wk st1) then k else Suc k)"
      using k(2) by auto
    then show ?thesis using k a(1)
      by (intro exI [of _ ns] exI [of _ "if seq (wk st2) = seq (wk st1) then k else Suc k"]) auto
  qed
qed (auto intro: exI [of _ "[]"])

text \<open>C4: sequence numbers across the two threads. Both stamp packets from the one counter: the server the
  requests, the worker its link checks. In every interleaving, and whatever requests are refused, the
  packets carry strictly increasing decimal numbers, from the counter at the start to the counter at the end: no
  two packets of a run share one, for as long as the counter has at most thirteen digits.\<close>

theorem sequence_numbers_increase:
  assumes "reads_quietly (env_no_wait E)" "runs E st es st'" "unat (seq (wk st)) + length es \<le> 10 ^ 13"
  shows "\<exists>ns. map (\<lambda>p. until_nul (seq_num (header p))) (stamped es) = map to_string_nat ns \<and> sorted_wrt (<) ns \<and>
    set ns \<subseteq> {unat (seq (wk st)) ..< unat (seq (wk st'))} \<and>
    distinct (map (\<lambda>p. seq_num (header p)) (stamped es))"
proof -
  let ?s = "seq (wk st)"
  obtain ns k where k: "k \<le> length es" "seq (wk st') = ?s + of_nat k" "sorted_wrt (<) ns" "\<forall>n \<in> set ns. n < k"
      "map (\<lambda>p. seq_num (header p)) (stamped es) = map (\<lambda>n. stamp (?s + of_nat n)) ns"
    using runs_seq [OF assms(1,2)] by blast
  have u: "unat (?s + of_nat n) = unat ?s + n" if "n \<le> k" for n
    using that k(1) assms(3) by (simp add: unat_word_ariths unat_of_nat)
  have small: "unat (?s + of_nat n) < 10 ^ 13" if "n \<in> set ns" for n
    using that u [of n] k(1,4) assms(3) by fastforce
  have nums: "map (\<lambda>p. until_nul (seq_num (header p))) (stamped es) = map to_string_nat (map (\<lambda>n. unat ?s + n) ns)"
    using arg_cong [OF k(5), of "map until_nul"] u small k(4) by (simp add: comp_def until_nul_stamp less_imp_le)
  have "inj_on (\<lambda>n. stamp (?s + of_nat n)) (set ns)"
  proof (rule inj_onI)
    fix a b
    assume "a \<in> set ns" "b \<in> set ns" "stamp (?s + of_nat a) = stamp (?s + of_nat b)"
    then have "unat (?s + of_nat a) = unat (?s + of_nat b)" using stamp_inj small by metis
    then show "a = b" using u k(4) \<open>a \<in> set ns\<close> \<open>b \<in> set ns\<close> by (simp add: less_imp_le)
  qed
  then have "distinct (map (\<lambda>p. seq_num (header p)) (stamped es))"
    using k(3,5) by (simp add: distinct_map strict_sorted_iff)
  moreover have "set (map (\<lambda>n. unat ?s + n) ns) \<subseteq> {unat ?s ..< unat (seq (wk st'))}" using u [of k] k(2,4) by auto
  ultimately show ?thesis
    using nums k(3) by (intro exI [of _ "map (\<lambda>n. unat ?s + n) ns"]) (simp add: sorted_wrt_map)
qed

text \<open>The worker checks the link before the first request: two packets, numbered 7 and 8.\<close>

abbreviation sample_second :: packet where
  "sample_second \<equiv> registration_packet 8 ''01'' (\<lambda>_. ''x'')"

lemma sample_two_numbers:
  "\<exists>link st'. runs sample_env answered_system [Connect, Waited, Link_check link, Stamped sample_second] st'"
proof -
  let ?t = "sample_tcp\<lparr>tx := [24], connect_ok := [], fd := Some 3, open_fds := [3], next_fd := 4,
      rx := [Segment (header_layout (sample_header (CHR ''2'') []))]\<rparr>"
  let ?st1 = "answered_system\<lparr>wk := (wk answered_system)\<lparr>smsc := ?t\<rparr>, doing := Connected\<rparr>"
  let ?st0 = "?st1\<lparr>doing := Timed_out\<rparr>"
  have s1: "sys_step sample_env answered_system Connect ?st1"
    using connect_step [OF _ _ sample_connection] by (simp add: sample_env_def sample_system_def)
  have s0: "sys_step sample_env ?st1 Waited ?st0"
    using waited_step [of ?st1 sample_env] by (simp add: sample_system_def sample_worker_def)
  obtain link where s2: "sys_step sample_env ?st0 (Link_check link)
      (?st0\<lparr>wk := (wk ?st0)\<lparr>seq := seq (wk ?st0) + 1\<rparr>, doing := Holding link\<rparr>)"
    using link_check_step [of ?st0 sample_env] by auto
  let ?st2 = "?st0\<lparr>wk := (wk ?st0)\<lparr>seq := seq (wk ?st0) + 1\<rparr>, doing := Holding link\<rparr>"
  have "\<exists>st3. sys_step sample_env ?st2 (Stamped (registration_packet (seq (wk ?st2)) ''01'' (\<lambda>_. ''x''))) st3"
    by (rule exI, rule stamped_step [OF _ _ sample_request_wf sample_request_fields])
      (simp_all add: sample_system_def sample_env_def script_recv_def)
  moreover have "seq (wk ?st2) = 8" by (simp add: sample_system_def sample_worker_def)
  ultimately obtain st3 where "sys_step sample_env ?st2 (Stamped sample_second) st3" by metis
  from runs_Cons [OF s1 runs_Cons [OF s0 runs_Cons [OF s2 runs_Cons [OF this runs.start]]]] show ?thesis by blast
qed

lemma sequence_numbers_increase_witness:
  "\<exists>link st'. runs sample_env answered_system [Connect, Waited, Link_check link, Stamped sample_second] st' \<and>
     seq_num (header link) \<noteq> seq_num (header sample_second)"
proof -
  obtain link st' where r: "runs sample_env answered_system [Connect, Waited, Link_check link, Stamped sample_second] st'"
    using sample_two_numbers by blast
  have q: "reads_quietly (env_no_wait sample_env)" using reads_quietly_nothing_yet by (simp add: sample_env_def)
  show ?thesis
    using sequence_numbers_increase [OF q r] r by (auto simp: sample_system_def sample_worker_def)
qed

section \<open>A request without an answer\<close>

text \<open>Events of the server's rounds that end with the reply still owed.\<close>

fun leaves_owing :: "'s env \<Rightarrow> event \<Rightarrow> bool" where
  "leaves_owing E Refused = True"
| "leaves_owing E (Answer None) = True"
| "leaves_owing E (Answer (Some p)) = isl (answer_text p)"
| "leaves_owing E _ = False"

fun of_worker :: "event \<Rightarrow> bool" where
  "of_worker Idle = False"
| "of_worker (Stamped p) = False"
| "of_worker (Request p) = False"
| "of_worker Refused = False"
| "of_worker (Answer a) = False"
| "of_worker _ = True"

lemma step_serving_owes:
  assumes "rep_socket owes (env_recv E) (env_send E)" "sys_step E st ev st'" "serving st \<noteq> Listening \<longrightarrow> owes (z_sock st)"
  shows "serving st' \<noteq> Listening \<longrightarrow> owes (z_sock st')"
  using assms(2)
proof cases
  case (stamped data s p srv)
  then have "env_recv E (z_sock st) = (Inr data, s)" by (auto simp: socket_recv_def split: prod.splits sum.splits if_splits)
  then have "owes s" using assms(1) by (auto simp: rep_socket_def)
  then show ?thesis using stamped parse_request_queues [OF stamped(5)] by (simp add: put_server_def server_of_def)
qed (use assms(3) in \<open>simp_all add: put_server_def server_of_def\<close>)

lemma step_leaves_owing:
  assumes "rep_socket owes (env_recv E) (env_send E)" "sys_step E st ev st'" "serving st \<noteq> Listening \<longrightarrow> owes (z_sock st)"
    and "leaves_owing E ev"
  shows "serving st' = Listening \<and> owes (z_sock st')"
  using assms(2)
proof cases
  case (refused data s e srv)
  then have "env_recv E (z_sock st) = (Inr data, s)" by (auto simp: socket_recv_def split: prod.splits sum.splits if_splits)
  then have "owes s" using assms(1) by (auto simp: rep_socket_def)
  then show ?thesis using refused parse_request_queues [OF refused(5)] by (simp add: put_server_def server_of_def)
next
  case (answer r srv)
  have "sock srv = z_sock st"
  proof (cases "fst (tsq_take (inq (wk st)))")
    case None
    then show ?thesis using answer(4) by (auto simp: answer_request_def pop_wait_now server_of_def split_beta)
  next
    case (Some p)
    then obtain e where "answer_text p = Inl e"
      using assms(4) answer(1) by (cases "answer_text p") auto
    then show ?thesis using answer(4) Some by (auto simp: answer_request_def pop_wait_now server_of_def split_beta)
  qed
  then show ?thesis using answer assms(3) by (simp add: put_server_def)
qed (use assms(4) in simp_all)

lemma step_stuck:
  assumes "rep_socket owes (env_recv E) (env_send E)" "sys_step E st ev st'" "serving st = Listening" "owes (z_sock st)"
  shows "of_worker ev \<and> serving st' = Listening \<and> owes (z_sock st')"
proof -
  have none: "socket_recv (env_recv E) (z_sock st) \<noteq> (Inr x, s)" for x s
    using assms(1,4) by (auto simp: rep_socket_def socket_recv_def split: prod.splits sum.splits if_splits)
  from assms(2) show ?thesis by cases (use none assms(3,4) in auto)
qed

text \<open>C5: one request without an answer ends the service for every client. From the moment a request was
  no packet, or no answer had come within its second, or the answer could not be written, no request is received
  and no answer given in any continuation of the process, only the worker goes on; and the server's
  next round throws \<open>EFSM\<close> outside its \<open>try\<close>.\<close>

theorem one_unanswered_request_ends_service:
  assumes "rep_socket owes (env_recv E) (env_send E)" "serving st \<noteq> Listening \<longrightarrow> owes (z_sock st)"
    and "runs E st (es1 @ ev # es2) st'" "leaves_owing E ev"
  shows "list_all of_worker es2 \<and>
    zmq_round (env_recv E) (env_send E) arrivals (server_of st') = Inl (Zmq_error EFSM)"
proof -
  obtain st1 st2 where st1: "runs E st es1 st1" and "runs E st1 [ev] st2" and es2: "runs E st2 es2 st'"
    using runs_split [OF assms(3)] runs_split [of E _ "[ev]" es2] by auto blast
  then have step: "sys_step E st1 ev st2"
    using runs_snocE [of E st1 "[]" ev st2] by (auto elim: runs.cases)
  have "serving st1 \<noteq> Listening \<longrightarrow> owes (z_sock st1)"
    using st1 assms(2) by induction (use step_serving_owes [OF assms(1)] in blast)+
  then have "serving st2 = Listening \<and> owes (z_sock st2)" using step_leaves_owing [OF assms(1) step] assms(4) by blast
  with es2 have "list_all of_worker es2 \<and> serving st' = Listening \<and> owes (z_sock st')"
    by induction (use step_stuck [OF assms(1)] in auto)
  then show ?thesis using zmq_round_owes [OF assms(1), of "server_of st'"] by (simp add: server_of_def)
qed

lemma one_unanswered_request_ends_service_witness:
  "let st = (sample_system [] [])\<lparr>z_sock := \<lparr>requests = [''x'', json_text (JObject sample_request)], replies = [], owed = False\<rparr>\<rparr>;
       st' = st\<lparr>z_sock := \<lparr>requests = [json_text (JObject sample_request)], replies = [], owed = True\<rparr>\<rparr> in
     runs sample_env st [Refused] st' \<and>
     zmq_round script_recv script_send [] (server_of st') = Inl (Zmq_error EFSM)"
proof -
  let ?st = "(sample_system [] [])\<lparr>z_sock := \<lparr>requests = [''x'', json_text (JObject sample_request)], replies = [], owed = False\<rparr>\<rparr>"
  let ?st' = "?st\<lparr>z_sock := \<lparr>requests = [json_text (JObject sample_request)], replies = [], owed = True\<rparr>\<rparr>"
  have x: "json_parse ''x'' = Inl (Json_parse_error 101)" by code_simp
  have "sys_step sample_env ?st Refused (put_server (server_of ?st') ?st)"
    by (rule sys_step.refused [where data = "''x''" and s = "z_sock ?st'" and e = "Json_parse_error 101"])
      (simp_all add: x sample_env_def sample_system_def sample_worker_def socket_recv_def script_recv_def parse_request_def
        packet_parse_json_def server_of_def)
  moreover have "put_server (server_of ?st') ?st = ?st'" by (simp add: put_server_def server_of_def sample_system_def)
  ultimately have r: "runs sample_env ?st ([] @ Refused # []) ?st'"
    using runs.step [OF runs.start, of sample_env ?st Refused ?st'] by simp
  have rep: "rep_socket owed (env_recv sample_env) (env_send sample_env)"
    using rep_socket_script by (simp add: sample_env_def)
  have "serving ?st = Listening" by (simp add: sample_system_def)
  then show ?thesis
    using one_unanswered_request_ends_service [OF rep _ r] r by (simp add: Let_def sample_env_def)
qed

end
