(* ===== verification/Registration_Run.thy ===== *)
theory Registration_Run
  imports System
begin

text \<open>
  Runs of the process of \<^verbatim>\<open>program/newbee/main.cpp\<close> from a client's text to the text it
  is answered with: the registration the program is built for, through the server, both queues, the worker
  and the SMSC and back; and the run in which a client gets the answer to something else.
\<close>

lemma registration_packet_type: "msg_type_enum (header (registration_packet c ac v)) = SN_REGINFO"
  by (simp add: registration_packet_def set_msg_len_def request_header_def msg_type_enum_def memcpy_min_def
      zeros_numeral(1))

lemma registration_packet_size: "total_size (registration_packet c ac v) = 110"
  by (simp add: registration_packet_def total_size_def frame_sizes)

section \<open>From text to text\<close>

text \<open>C1: a registration from the client's text to its answer, through the whole process. The text of any
  well-formed object with message type "3" and the ten keys is received; the worker, idle until then,
  takes the registration and puts exactly its 110 bytes on a new connection; when the SMSC's stream
  leads with a result, whatever acknowledgements and link checks precede it, the client is sent a JSON text
  that its parser reads as the type, the code and the description of that result, and no reply is owed
  afterwards. The acknowledgements for the frames read are left in \<open>outq_\<close>.\<close>

theorem registration_through_process:
  assumes "env_no_wait E = nothing_yet" "serving st = Listening" "doing st = Free" "outq (wk st) = []" "inq (wk st) = []"
    and "env_recv E (z_sock st) = (Inr (json_text (JObject m)), s1)" "json_wf (JObject m)"
    and "map_of m ''msg_type'' = Some (JString ''3'')" "map_of m ''action_code'' = Some (JString ac)"
      "\<forall>k \<in> set reginfo_keys. map_of m k = Some (JString (v k))"
    and "connect_until (smsc (wk st)) = Some t" "accepted 110 (tx t) = 110" "sockopt_ok t = []"
      "answer_of (deliverable (rx t)) = (acks, verdict.Answer ans rest)"
    and "body ans = Result \<lparr>result_field = to_string_int (rslt_type_code r) @ zeros k\<rparr>"
      "\<forall>c \<in> set (until_nul (msg_type (header ans))). is_digit c"
    and "\<forall>txt. \<exists>n. fst (env_send E txt s1) = Inr n"
  shows "\<exists>k txt st'. runs E st ([Connect, Stamped (registration_packet (seq (wk st)) ac v), Request (registration_packet (seq (wk st)) ac v),
        Sending (registration_packet (seq (wk st)) ac v), Transmitted] @ replicate k Frame @
        [Exchanged (Some ans), Answer (Some ans)]) st' \<and>
    wire (smsc (wk st')) = wire t @ packet_layout (registration_packet (seq (wk st)) ac v) \<and>
    z_sock st' = snd (env_send E txt s1) \<and> json_parse txt = Inr (answer_object (header ans) r) \<and>
    serving st' = Listening \<and> outq (wk st') = acks \<and> inq (wk st') = []"
proof -
  let ?p = "registration_packet (seq (wk st)) ac v" and ?j = "answer_object (header ans) r"
  let ?st0 = "st\<lparr>wk := (wk st)\<lparr>smsc := t\<rparr>, doing := Connected\<rparr>"
  have s0: "sys_step E st Connect ?st0" using connect_step assms(1,3,11) by blast
  let ?st1 = "?st0\<lparr>z_sock := s1, wk := (wk ?st0)\<lparr>seq := seq (wk st) + 1, outq := [?p]\<rparr>, serving := Awaiting\<rparr>"
  have s1: "runs E ?st0 [Stamped ?p, Request ?p] ?st1"
    using registration_run [of ?st0 E m s1 ac v] assms(2,4,6-10) by simp
  let ?st2 = "?st1\<lparr>wk := (wk ?st1)\<lparr>outq := []\<rparr>, doing := Holding ?p\<rparr>"
  have s2: "sys_step E ?st1 (Sending ?p) ?st2" using sending_step [of ?st1 ?p "[]" E] by simp
  obtain k w3 where w3: "runs E ?st2 (Transmitted # replicate k Frame @ [Exchanged (Some ans)]) (?st2\<lparr>wk := w3, doing := Free\<rparr>)"
      "inq w3 = [ans]" "outq w3 = acks" "wire (smsc w3) = wire t @ packet_layout ?p"
    using exchange_run [of ?st2 ?p acks ans rest E] assms(5,12-14)
    by (auto simp: packet_wf_registration registration_packet_type registration_packet_size)
  let ?st3 = "?st2\<lparr>wk := w3, doing := Free\<rparr>"
  have "json_wf ?j" using assms(16) by (rule answer_object_wf)
  then have ans: "answer_text ans = Inr (json_text ?j)" "json_parse (json_text ?j) = Inr ?j"
    using packet_to_json_result [OF assms(15)] by (simp_all add: answer_text_def json_dump_text json_parse_text)
  obtain n where n: "env_send E (json_text ?j) s1 = (Inr n, snd (env_send E (json_text ?j) s1))"
    using assms(17) by (metis prod.collapse)
  let ?st4 = "?st3\<lparr>z_sock := snd (env_send E (json_text ?j) s1), wk := w3\<lparr>inq := []\<rparr>, serving := Listening\<rparr>"
  have s4: "sys_step E ?st3 (Answer (Some ans)) ?st4"
    using answer_step [where E = E and st = ?st3 and p = ans and ps = "[]"] ans(1) n w3(2) by simp
  have "runs E st ([Connect, Stamped ?p, Request ?p, Sending ?p, Transmitted] @ replicate k Frame @ [Exchanged (Some ans), Answer (Some ans)]) ?st4"
    using runs.step [OF runs_Cons [OF s0 runs_append [OF runs_Cons [OF s2 w3(1)] s1]] s4] by simp
  then show ?thesis
    using ans(2) w3(3,4) by (intro exI [of _ k] exI [of _ "json_text ?j"] exI [of _ ?st4]) simp
qed

definition sample_result :: packet where
  "sample_result = \<lparr>header = sample_header (CHR ''5'') ''4'', body = Result \<lparr>result_field = ''0'' @ zeros 3\<rparr>\<rparr>"

lemma registration_through_process_witness:
  "\<exists>k txt st'. runs sample_env (sample_system [110] (packet_layout sample_result))
       ([Connect, Stamped (registration_packet 7 ''01'' (\<lambda>_. ''x'')), Request (registration_packet 7 ''01'' (\<lambda>_. ''x'')),
        Sending (registration_packet 7 ''01'' (\<lambda>_. ''x'')),
        Transmitted] @ replicate k Frame @ [Exchanged (Some sample_result), Answer (Some sample_result)]) st' \<and>
     replies (z_sock st') = [txt] \<and> json_parse txt = Inr (answer_object (header sample_result) OK)"
proof -
  have a: "answer_of (packet_layout sample_result) = ([new_packet], verdict.Answer sample_result [])"
    using body_at_four [OF sample_header_len, where b = "''0'' @ zeros 3" and s = "[]"]
    by (simp add: sample_result_def packet_layout_def answer_of_layout sample_header_wf sample_header_type)
  have d: "\<forall>c \<in> set (until_nul (msg_type (header sample_result))). is_digit c"
    by (simp add: sample_result_def sample_header_def until_nul_def zeros_numeral(1) is_digit_def)
  let ?st = "sample_system [110] (packet_layout sample_result)"
  let ?p = "registration_packet (seq (wk ?st)) ''01'' (\<lambda>_. ''x'')"
  let ?t = "sample_tcp\<lparr>tx := [110], connect_ok := [], fd := Some 3, open_fds := [3], next_fd := 4,
      rx := [Segment (packet_layout sample_result)]\<rparr>"
  have "\<exists>k txt st'. runs sample_env ?st ([Connect, Stamped ?p, Request ?p, Sending ?p, Transmitted] @ replicate k Frame @
      [Exchanged (Some sample_result), Answer (Some sample_result)]) st' \<and>
    wire (smsc (wk st')) = wire ?t @ packet_layout ?p \<and>
    z_sock st' = snd (env_send sample_env txt \<lparr>requests = [], replies = [], owed = True\<rparr>) \<and>
    json_parse txt = Inr (answer_object (header sample_result) OK) \<and>
    serving st' = Listening \<and> outq (wk st') = [new_packet] \<and> inq (wk st') = []"
    by (rule registration_through_process [OF _ _ _ _ _ _ sample_request_wf sample_request_fields sample_connection,
          where rest = "[]" and k = 3])
      (use a d in \<open>simp_all add: sample_env_def script_recv_def script_send_def sample_system_def sample_worker_def
         sample_tcp_def sample_result_def to_string_int_def to_string_small\<close>)
  then show ?thesis
    by (fastforce simp: sample_env_def script_send_def sample_system_def sample_worker_def)
qed

section \<open>The answer to something else\<close>

text \<open>C7: a client can be given the answer to the link check. An idle worker sends its check and queues
  the acknowledgement in \<open>inq_\<close>; the next registration a client sends is answered at once with it, a
  JSON text that holds nothing but the type of the acknowledgement, while the registration is still
  in \<open>outq_\<close> and only the 24 bytes of the check were sent to the SMSC. Its result will
  be given to the next client.\<close>

theorem link_check_answers_registration:
  assumes "env_no_wait E = nothing_yet" "serving st = Listening" "doing st = Free" "outq (wk st) = []" "inq (wk st) = []"
    and "connect_until (smsc (wk st)) = Some t" "accepted 24 (tx t) = 24" "sockopt_ok t = []"
      "answer_of (deliverable (rx t)) = (acks, verdict.Answer ack rest)"
    and "body ack = Monostate" "\<forall>c \<in> set (until_nul (msg_type (header ack))). is_digit c"
    and "env_recv E (z_sock st) = (Inr (json_text (JObject m)), s1)" "json_wf (JObject m)"
      "map_of m ''msg_type'' = Some (JString ''3'')" "map_of m ''action_code'' = Some (JString ac)"
      "\<forall>k \<in> set reginfo_keys. map_of m k = Some (JString (v k))"
    and "\<forall>txt. \<exists>n. fst (env_send E txt s1) = Inr n"
  shows "\<exists>link k txt st'. runs E st ([Connect, Waited, Link_check link, Transmitted] @ replicate k Frame @
        [Exchanged (Some ack), Stamped (registration_packet (seq (wk st) + 1) ac v),
         Request (registration_packet (seq (wk st) + 1) ac v), Answer (Some ack)]) st' \<and>
    msg_type_enum (header link) = LINK \<and> wire (smsc (wk st')) = wire t @ packet_layout link \<and>
    z_sock st' = snd (env_send E txt s1) \<and>
    json_parse txt = Inr (JObject [(''msg_type'', JString (until_nul (msg_type (header ack))))]) \<and>
    outq (wk st') = acks @ [registration_packet (seq (wk st) + 1) ac v]"
proof -
  obtain link k w2 where s12: "runs E st ([Connect, Waited, Link_check link, Transmitted] @ replicate k Frame @ [Exchanged (Some ack)])
      (st\<lparr>wk := w2, doing := Free\<rparr>)" and
    link: "msg_type_enum (header link) = LINK" and w2: "inq w2 = [ack]" "outq w2 = acks" "seq w2 = seq (wk st) + 1"
      "wire (smsc w2) = wire t @ packet_layout link"
    using idle_exchange [OF assms(1,3-9)] by blast
  let ?st2 = "st\<lparr>wk := w2, doing := Free\<rparr>"
  let ?p = "registration_packet (seq (wk st) + 1) ac v"
  let ?st3 = "?st2\<lparr>z_sock := s1, wk := w2\<lparr>seq := seq (wk st) + 1 + 1, outq := acks @ [?p]\<rparr>, serving := Awaiting\<rparr>"
  have s3: "runs E ?st2 [Stamped ?p, Request ?p] ?st3"
    using registration_run [of ?st2 E m s1 ac v] assms(2,12-16) w2 by simp
  let ?j = "JObject [(''msg_type'', JString (until_nul (msg_type (header ack))))]"
  have "packet_to_json ack = Inr ?j" "json_wf ?j"
    using assms(10,11) obj_assign_last [of "[]" "''msg_type''"]
    by (simp_all add: packet_to_json_def get_msg_type_def obj_sorted_def utf8_valid_digits utf8_valid_ascii)
  then have ans: "answer_text ack = Inr (json_text ?j)" "json_parse (json_text ?j) = Inr ?j"
    by (simp add: answer_text_def json_dump_text del: json_text.simps, intro json_parse_text)
  obtain n where n: "env_send E (json_text ?j) s1 = (Inr n, snd (env_send E (json_text ?j) s1))"
    using assms(17) by (metis prod.collapse)
  let ?st4 = "?st3\<lparr>z_sock := snd (env_send E (json_text ?j) s1), wk := (wk ?st3)\<lparr>inq := []\<rparr>, serving := Listening\<rparr>"
  have s4: "sys_step E ?st3 (Answer (Some ack)) ?st4"
    using answer_step [where E = E and st = ?st3 and p = ack and ps = "[]"] ans(1) n w2(1) by simp
  have "runs E st ([Connect, Waited, Link_check link, Transmitted] @ replicate k Frame @
      [Exchanged (Some ack), Stamped ?p, Request ?p, Answer (Some ack)]) ?st4"
    using runs.step [OF runs_append [OF s3 s12] s4] by simp
  then show ?thesis
    using ans(2) w2 link by (intro exI [of _ link] exI [of _ k] exI [of _ "json_text ?j"] exI [of _ ?st4]) simp
qed

lemma link_check_answers_registration_witness:
  "\<exists>link k txt st'. runs sample_env answered_system
       ([Connect, Waited, Link_check link, Transmitted] @ replicate k Frame @
        [Exchanged (Some link_answer), Stamped (registration_packet 8 ''01'' (\<lambda>_. ''x'')),
         Request (registration_packet 8 ''01'' (\<lambda>_. ''x'')), Answer (Some link_answer)]) st' \<and>
     replies (z_sock st') = [txt] \<and> json_parse txt = Inr (JObject [(''msg_type'', JString ''2'')])"
proof -
  let ?ack = "\<lparr>header = sample_header (CHR ''2'') [], body = Monostate\<rparr>"
  have a: "answer_of (header_layout (sample_header (CHR ''2'') [])) = ([], verdict.Answer ?ack [])"
    using answer_of_layout [OF sample_header_wf, of "[]" "CHR ''2''" "[]"] by (simp add: sample_header_type)
  have u: "until_nul (msg_type (sample_header (CHR ''2'') [])) = ''2''"
    by (simp add: sample_header_def until_nul_def zeros_numeral(1))
  have d: "is_digit (CHR ''2'')" by (simp add: is_digit_def)
  let ?st = "sample_system [24] (header_layout (sample_header (CHR ''2'') []))"
  let ?s1 = "\<lparr>requests = [], replies = [], owed = True\<rparr>"
  have "\<exists>link k txt st'. runs sample_env ?st ([Connect, Waited, Link_check link, Transmitted] @ replicate k Frame @
        [Exchanged (Some ?ack), Stamped (registration_packet (seq (wk ?st) + 1) ''01'' (\<lambda>_. ''x'')),
         Request (registration_packet (seq (wk ?st) + 1) ''01'' (\<lambda>_. ''x'')), Answer (Some ?ack)]) st' \<and>
    msg_type_enum (header link) = LINK \<and>
    wire (smsc (wk st')) = wire (sample_tcp\<lparr>tx := [24], connect_ok := [], fd := Some 3, open_fds := [3], next_fd := 4,
      rx := [Segment (header_layout (sample_header (CHR ''2'') []))]\<rparr>) @ packet_layout link \<and>
    z_sock st' = snd (env_send sample_env txt ?s1) \<and>
    json_parse txt = Inr (JObject [(''msg_type'', JString (until_nul (msg_type (header ?ack))))]) \<and>
    outq (wk st') = [] @ [registration_packet (seq (wk ?st) + 1) ''01'' (\<lambda>_. ''x'')]"
    by (rule link_check_answers_registration [OF _ _ _ _ _ sample_connection, where rest = "[]" and m = sample_request])
      (use a u d sample_request_wf sample_request_fields in
        \<open>simp_all add: sample_env_def script_recv_def script_send_def sample_system_def sample_worker_def sample_tcp_def\<close>)
  then show ?thesis
    using u by (fastforce simp: sample_env_def script_send_def sample_system_def sample_worker_def)
qed

end
