(* ===== verification/Zmq_Monitor.thy ===== *)
theory Zmq_Monitor
  imports Zmq_Server
begin

text \<open>
  The connection counters of \<^verbatim>\<open>include/zserver/zmq_monitor.hpp\<close>, which both the
  server and the client attach to their socket, and the dispatch of
  \<open>monitor_t::process_event\<close> in \<^verbatim>\<open>include/zserver/zmq.hpp\<close> that feeds them.
  The counters are \<open>int\<close>s of 32 bits: a step beyond their range is undefined behaviour.
\<close>

section \<open>The counters\<close>

record plk_monitor =
  connected_total :: int
  handshaked_total :: int
  handshake_failed_no_detail :: int
  connected :: int

definition new_monitor :: plk_monitor where
  "new_monitor = \<lparr>connected_total = 0, handshaked_total = 0, handshake_failed_no_detail = 0, connected = 0\<rparr>"

text \<open>\<open>++\<close> and \<open>--\<close> on an \<open>int\<close>.\<close>

definition int_step :: "int \<Rightarrow> int \<Rightarrow> int result" where
  "int_step d x = (if - (2 ^ 31) \<le> x + d \<and> x + d < 2 ^ 31 then Inr (x + d)
     else Inl (Undefined_behaviour ''signed overflow''))"

definition on_event_connected :: "plk_monitor \<Rightarrow> plk_monitor result" where
  "on_event_connected m = rbind (int_step 1 (connected_total m)) (\<lambda>n. Inr (m\<lparr>connected_total := n\<rparr>))"

definition on_event_handshake_failed_no_detail :: "plk_monitor \<Rightarrow> plk_monitor result" where
  "on_event_handshake_failed_no_detail m =
     rbind (int_step 1 (handshake_failed_no_detail m)) (\<lambda>n. Inr (m\<lparr>handshake_failed_no_detail := n\<rparr>))"

definition on_event_handshake_succeeded :: "plk_monitor \<Rightarrow> plk_monitor result" where
  "on_event_handshake_succeeded m =
     rbind (int_step 1 (connected m)) (\<lambda>n. let m = m\<lparr>connected := n\<rparr> in
     rbind (int_step 1 (handshaked_total m)) (\<lambda>n. Inr (m\<lparr>handshaked_total := n\<rparr>)))"

definition on_event_disconnected :: "plk_monitor \<Rightarrow> plk_monitor result" where
  "on_event_disconnected m =
     (if handshake_failed_no_detail m > 0
      then rbind (int_step (-1) (handshake_failed_no_detail m)) (\<lambda>n. Inr (m\<lparr>handshake_failed_no_detail := n\<rparr>))
      else rbind (int_step (-1) (connected m)) (\<lambda>n. Inr (m\<lparr>connected := n\<rparr>)))"

section \<open>Dispatch\<close>

definition ZMQ_EVENT_CONNECTED :: nat where "ZMQ_EVENT_CONNECTED = 0x0001"
definition ZMQ_EVENT_DISCONNECTED :: nat where "ZMQ_EVENT_DISCONNECTED = 0x0200"
definition ZMQ_EVENT_MONITOR_STOPPED :: nat where "ZMQ_EVENT_MONITOR_STOPPED = 0x0400"
definition ZMQ_EVENT_HANDSHAKE_FAILED_NO_DETAIL :: nat where "ZMQ_EVENT_HANDSHAKE_FAILED_NO_DETAIL = 0x0800"
definition ZMQ_EVENT_HANDSHAKE_SUCCEEDED :: nat where "ZMQ_EVENT_HANDSHAKE_SUCCEEDED = 0x1000"
definition ZMQ_EVENT_HANDSHAKE_FAILED_PROTOCOL :: nat where "ZMQ_EVENT_HANDSHAKE_FAILED_PROTOCOL = 0x2000"

lemmas zmq_event_codes = ZMQ_EVENT_CONNECTED_def ZMQ_EVENT_DISCONNECTED_def ZMQ_EVENT_MONITOR_STOPPED_def
  ZMQ_EVENT_HANDSHAKE_FAILED_NO_DETAIL_def ZMQ_EVENT_HANDSHAKE_SUCCEEDED_def
  ZMQ_EVENT_HANDSHAKE_FAILED_PROTOCOL_def

text \<open>The \<open>switch\<close>: the handlers that the monitor does not override, the one for a failed protocol
  handshake, which only logs, and the one for unknown codes change nothing.\<close>

definition dispatch_event :: "nat \<Rightarrow> plk_monitor \<Rightarrow> plk_monitor result" where
  "dispatch_event code m =
     (if code = ZMQ_EVENT_CONNECTED then on_event_connected m
      else if code = ZMQ_EVENT_DISCONNECTED then on_event_disconnected m
      else if code = ZMQ_EVENT_HANDSHAKE_FAILED_NO_DETAIL then on_event_handshake_failed_no_detail m
      else if code = ZMQ_EVENT_HANDSHAKE_SUCCEEDED then on_event_handshake_succeeded m
      else Inr m)"

definition ETERM :: int where "ETERM = ZMQ_HAUSNUMERO + 53"

text \<open>The event code of the first frame: two bytes, low byte first, before a 32-bit value.\<close>

definition event_code :: "bytes \<Rightarrow> nat result" where
  "event_code data = rbind (read_at data 0 2) (\<lambda>ev. rbind (read_at data 2 4) (\<lambda>val.
     Inr (byte_val (ev ! 0) + 256 * byte_val (ev ! 1))))"

text \<open>\<open>process_event (events)\<close>: whether an event was handled, from the two frames of its message.\<close>

definition process_event :: "'s msg_recv \<Rightarrow> bool \<Rightarrow> 's \<times> plk_monitor \<Rightarrow> (bool \<times> 's \<times> plk_monitor) result" where
  "process_event msg_recv pollin sm =
     (let (s, m) = sm in
      if \<not> pollin then Inr (False, s, m)
      else case msg_recv s of
          (Inl e, s) \<Rightarrow> if e = ETERM then Inr (False, s, m) else Inl (Assertion_failed ''rc != -1'')
        | (Inr data, s) \<Rightarrow> rbind (event_code data) (\<lambda>code.
            case msg_recv s of
              (Inl e, s) \<Rightarrow> if e = ETERM then Inr (False, s, m) else Inl (Assertion_failed ''rc != -1'')
            | (Inr address, s) \<Rightarrow>
                if code = ZMQ_EVENT_MONITOR_STOPPED then Inr (False, s, m)
                else rbind (dispatch_event code m) (\<lambda>m. Inr (True, s, m))))"

text \<open>The counters after a sequence of events.\<close>

fun after_events :: "nat list \<Rightarrow> plk_monitor \<Rightarrow> plk_monitor result" where
  "after_events [] m = Inr m"
| "after_events (c # events) m = rbind (dispatch_event c m) (after_events events)"

section \<open>What the counters mean\<close>

definition count_of :: "nat \<Rightarrow> nat list \<Rightarrow> int" where
  "count_of c events = int (count_list events c)"

lemma count_of_simps [simp]:
  "count_of c [] = 0" "count_of c (d # events) = of_bool (d = c) + count_of c events"
  by (simp_all add: count_of_def)

lemma count_of_bounds: "0 \<le> count_of c events \<and> count_of c events \<le> int (length events)"
  by (simp add: count_of_def count_le_length)

text \<open>What the counters are. With the corrections that disconnections have used up, at most as many as there
  were disconnections, the current count stays between the two totals it comes from.\<close>

definition monitor_inv :: "nat list \<Rightarrow> plk_monitor \<Rightarrow> bool" where
  "monitor_inv events m \<longleftrightarrow>
     connected_total m = count_of ZMQ_EVENT_CONNECTED events \<and>
     handshaked_total m = count_of ZMQ_EVENT_HANDSHAKE_SUCCEEDED events \<and>
     0 \<le> handshake_failed_no_detail m \<and>
     handshake_failed_no_detail m \<le> count_of ZMQ_EVENT_HANDSHAKE_FAILED_NO_DETAIL events \<and>
     connected m = count_of ZMQ_EVENT_HANDSHAKE_SUCCEEDED events +
       count_of ZMQ_EVENT_HANDSHAKE_FAILED_NO_DETAIL events - count_of ZMQ_EVENT_DISCONNECTED events -
       handshake_failed_no_detail m \<and>
     connected m \<le> count_of ZMQ_EVENT_HANDSHAKE_SUCCEEDED events"

definition overflow :: cxx_error where
  "overflow = Undefined_behaviour ''signed overflow''"

lemma int_step_cases:
  obtains "int_step d x = Inr (x + d)" | "int_step d x = Inl overflow" "x + d < - (2 ^ 31) \<or> 2 ^ 31 \<le> x + d"
  unfolding int_step_def overflow_def by (cases "- (2 ^ 31) \<le> x + d \<and> x + d < 2 ^ 31") auto

lemma dispatch_event_inv:
  assumes "monitor_inv seen m"
  shows "case dispatch_event c m of Inr m' \<Rightarrow> monitor_inv (c # seen) m'
    | Inl e \<Rightarrow> e = overflow \<and> 2 ^ 31 \<le> int (length seen) + 1"
proof -
  note inv = assms [unfolded monitor_inv_def]
  note len = count_of_bounds [of ZMQ_EVENT_CONNECTED seen] count_of_bounds [of ZMQ_EVENT_HANDSHAKE_SUCCEEDED seen]
    count_of_bounds [of ZMQ_EVENT_HANDSHAKE_FAILED_NO_DETAIL seen] count_of_bounds [of ZMQ_EVENT_DISCONNECTED seen]
  consider (conn) "c = ZMQ_EVENT_CONNECTED" | (disc) "c = ZMQ_EVENT_DISCONNECTED"
    | (fail) "c = ZMQ_EVENT_HANDSHAKE_FAILED_NO_DETAIL" | (succ) "c = ZMQ_EVENT_HANDSHAKE_SUCCEEDED"
    | (other) "c \<notin> {ZMQ_EVENT_CONNECTED, ZMQ_EVENT_DISCONNECTED, ZMQ_EVENT_HANDSHAKE_FAILED_NO_DETAIL, ZMQ_EVENT_HANDSHAKE_SUCCEEDED}"
    by blast
  then show ?thesis
  proof cases
    case conn
    show ?thesis
      by (cases rule: int_step_cases [of 1 "connected_total m"]; use inv len in
        \<open>auto simp: conn dispatch_event_def on_event_connected_def monitor_inv_def zmq_event_codes\<close>)
  next
    case disc
    show ?thesis
    proof (cases "handshake_failed_no_detail m > 0")
      case True
      then show ?thesis
        by (cases rule: int_step_cases [of "-1" "handshake_failed_no_detail m"]; use inv len in
          \<open>auto simp: disc dispatch_event_def on_event_disconnected_def monitor_inv_def zmq_event_codes\<close>)
    next
      case False
      then show ?thesis
        by (cases rule: int_step_cases [of "-1" "connected m"]; use inv len in
          \<open>auto simp: disc dispatch_event_def on_event_disconnected_def monitor_inv_def zmq_event_codes\<close>)
    qed
  next
    case fail
    show ?thesis
      by (cases rule: int_step_cases [of 1 "handshake_failed_no_detail m"]; use inv len in
        \<open>auto simp: fail dispatch_event_def on_event_handshake_failed_no_detail_def monitor_inv_def zmq_event_codes\<close>)
  next
    case succ
    show ?thesis
      by (cases rule: int_step_cases [of 1 "connected m"]; cases rule: int_step_cases [of 1 "handshaked_total m"]; use inv len in
        \<open>auto simp: succ dispatch_event_def on_event_handshake_succeeded_def monitor_inv_def zmq_event_codes Let_def\<close>)
  next
    case other
    then show ?thesis using inv by (simp add: dispatch_event_def monitor_inv_def)
  qed
qed

lemma after_events_inv:
  assumes "monitor_inv seen m"
  shows "case after_events events m of Inr m' \<Rightarrow> monitor_inv (rev events @ seen) m'
    | Inl e \<Rightarrow> e = overflow \<and> 2 ^ 31 \<le> int (length seen + length events)"
  using assms
proof (induction events arbitrary: seen m)
  case (Cons c events)
  note step = dispatch_event_inv [OF Cons.prems, of c]
  show ?case
  proof (cases "dispatch_event c m")
    case (Inr m1)
    then show ?thesis using step Cons.IH [of "c # seen" m1] by (simp split: sum.splits)
  qed (use step in simp)
qed simp

lemma monitor_inv_new: "monitor_inv [] new_monitor"
  by (simp add: monitor_inv_def new_monitor_def)

lemma after_connections:
  "connected_total m + int n \<le> 2 ^ 31 - 1 \<Longrightarrow> 0 \<le> connected_total m \<Longrightarrow>
   after_events (replicate n ZMQ_EVENT_CONNECTED @ events) m = after_events events (m\<lparr>connected_total := connected_total m + int n\<rparr>)"
proof (induction n arbitrary: m)
  case (Suc n)
  have "dispatch_event ZMQ_EVENT_CONNECTED m = Inr (m\<lparr>connected_total := connected_total m + 1\<rparr>)"
    using Suc.prems by (simp add: dispatch_event_def on_event_connected_def int_step_def)
  then show ?case using Suc.IH [of "m\<lparr>connected_total := connected_total m + 1\<rparr>"] Suc.prems by (simp add: ac_simps)
qed simp

text \<open>C29: the connection counters after a sequence of events. As long as no counter leaves the range of
  \<open>int\<close>, which takes at least 2^31 events, both totals are exact; the current count and the pending
  corrections together are the successful and the detail-less failed handshakes less the disconnections, the
  corrections are never negative and never more than the failed handshakes. So the current count is exact
  whenever no correction is pending, and at most the number of successful handshakes always. It is not
  protected against every order of events: a protocol failure followed by its disconnection, which no
  correction covers, takes the count of a fresh monitor to -1. The event that brings a total to 2^31 is
  undefined behaviour.\<close>

theorem monitor_counts:
  "(case after_events events new_monitor of
      Inr m \<Rightarrow>
        connected_total m = count_of ZMQ_EVENT_CONNECTED events \<and>
        handshaked_total m = count_of ZMQ_EVENT_HANDSHAKE_SUCCEEDED events \<and>
        0 \<le> handshake_failed_no_detail m \<and>
        handshake_failed_no_detail m \<le> count_of ZMQ_EVENT_HANDSHAKE_FAILED_NO_DETAIL events \<and>
        connected m = count_of ZMQ_EVENT_HANDSHAKE_SUCCEEDED events +
          count_of ZMQ_EVENT_HANDSHAKE_FAILED_NO_DETAIL events - count_of ZMQ_EVENT_DISCONNECTED events -
          handshake_failed_no_detail m \<and>
        connected m \<le> count_of ZMQ_EVENT_HANDSHAKE_SUCCEEDED events
    | Inl e \<Rightarrow> e = Undefined_behaviour ''signed overflow'' \<and> 2 ^ 31 \<le> int (length events)) \<and>
   (\<exists>m. after_events [ZMQ_EVENT_HANDSHAKE_FAILED_PROTOCOL, ZMQ_EVENT_DISCONNECTED] new_monitor = Inr m \<and> connected m = -1) \<and>
   after_events (replicate (2 ^ 31) ZMQ_EVENT_CONNECTED) new_monitor = Inl (Undefined_behaviour ''signed overflow'')"
proof (intro conjI)
  have rev: "count_of c (rev events) = count_of c events" for c by (simp add: count_of_def)
  show "case after_events events new_monitor of
      Inr m \<Rightarrow>
        connected_total m = count_of ZMQ_EVENT_CONNECTED events \<and>
        handshaked_total m = count_of ZMQ_EVENT_HANDSHAKE_SUCCEEDED events \<and>
        0 \<le> handshake_failed_no_detail m \<and>
        handshake_failed_no_detail m \<le> count_of ZMQ_EVENT_HANDSHAKE_FAILED_NO_DETAIL events \<and>
        connected m = count_of ZMQ_EVENT_HANDSHAKE_SUCCEEDED events +
          count_of ZMQ_EVENT_HANDSHAKE_FAILED_NO_DETAIL events - count_of ZMQ_EVENT_DISCONNECTED events -
          handshake_failed_no_detail m \<and>
        connected m \<le> count_of ZMQ_EVENT_HANDSHAKE_SUCCEEDED events
    | Inl e \<Rightarrow> e = Undefined_behaviour ''signed overflow'' \<and> 2 ^ 31 \<le> int (length events)"
    using after_events_inv [OF monitor_inv_new, of events]
    by (cases "after_events events new_monitor") (simp_all add: monitor_inv_def overflow_def rev)
  show "\<exists>m. after_events [ZMQ_EVENT_HANDSHAKE_FAILED_PROTOCOL, ZMQ_EVENT_DISCONNECTED] new_monitor = Inr m \<and> connected m = -1"
    by (simp add: dispatch_event_def on_event_disconnected_def int_step_def new_monitor_def zmq_event_codes)
  have n: "(2 :: nat) ^ 31 = 2147483647 + 1" by simp
  have "replicate (2 ^ 31) ZMQ_EVENT_CONNECTED = replicate 2147483647 ZMQ_EVENT_CONNECTED @ [ZMQ_EVENT_CONNECTED]"
    unfolding n replicate_add by simp
  moreover have "dispatch_event ZMQ_EVENT_CONNECTED (new_monitor\<lparr>connected_total := 2147483647\<rparr>) = Inl (Undefined_behaviour ''signed overflow'')"
    by (simp add: dispatch_event_def on_event_connected_def int_step_def)
  ultimately show "after_events (replicate (2 ^ 31) ZMQ_EVENT_CONNECTED) new_monitor = Inl (Undefined_behaviour ''signed overflow'')"
    using after_connections [of new_monitor 2147483647 "[ZMQ_EVENT_CONNECTED]"]
    by (simp add: new_monitor_def)
qed

end
