(* ===== verification/Rapidjson_Itoa.thy ===== *)
theory Rapidjson_Itoa
  imports Cxx_Strings
begin

text \<open>
  \<^verbatim>\<open>include/rapidjson/internal/itoa.h\<close>: integers to decimal text, two digits at a time
  through a table, with a case for each size. The functions write through a pointer and return it
  advanced; here they return the bytes they wrote. Arithmetic is on 32- and 64-bit words, as in
  the code. All of them compute the plain decimal text.
\<close>

section \<open>The table\<close>

definition cDigitsLut :: bytes where
  "cDigitsLut =
     ''00010203040506070809'' @
     ''10111213141516171819'' @
     ''20212223242526272829'' @
     ''30313233343536373839'' @
     ''40414243444546474849'' @
     ''50515253545556575859'' @
     ''60616263646566676869'' @
     ''70717273747576777879'' @
     ''80818283848586878889'' @
     ''90919293949596979899''"

definition lut :: "32 word \<Rightarrow> byte" where
  "lut d = cDigitsLut ! unat d"

text \<open>A statement \<open>if (c) *buffer++ = cDigitsLut[d]\<close>.\<close>

definition put_if :: "bool \<Rightarrow> 32 word \<Rightarrow> bytes" where
  "put_if c d = (if c then [lut d] else [])"

unbundle bit_operations_syntax

section \<open>The conversions\<close>

definition u32toa :: "32 word \<Rightarrow> bytes" where
  "u32toa value =
     (if value < 10000 then
        let d1 = push_bit 1 (value div 100); d2 = push_bit 1 (value mod 100)
        in put_if (value \<ge> 1000) d1 @ put_if (value \<ge> 100) (d1 + 1) @ put_if (value \<ge> 10) d2 @ [lut (d2 + 1)]
      else if value < 100000000 then
        let b = value div 10000; c = value mod 10000;
            d1 = push_bit 1 (b div 100); d2 = push_bit 1 (b mod 100);
            d3 = push_bit 1 (c div 100); d4 = push_bit 1 (c mod 100)
        in put_if (value \<ge> 10000000) d1 @ put_if (value \<ge> 1000000) (d1 + 1) @
           put_if (value \<ge> 100000) d2 @ [lut (d2 + 1)] @
           [lut d3, lut (d3 + 1), lut d4, lut (d4 + 1)]
      else
        let a = value div 100000000; value = value mod 100000000;
            i = push_bit 1 a;
            b = value div 10000; c = value mod 10000;
            d1 = push_bit 1 (b div 100); d2 = push_bit 1 (b mod 100);
            d3 = push_bit 1 (c div 100); d4 = push_bit 1 (c mod 100)
        in (if a \<ge> 10 then [lut i, lut (i + 1)] else [byte_of (48 + unat a)]) @
           [lut d1, lut (d1 + 1), lut d2, lut (d2 + 1), lut d3, lut (d3 + 1), lut d4, lut (d4 + 1)])"

definition i32toa :: "32 word \<Rightarrow> bytes" where
  "i32toa value = (if value <s 0 then CHR ''-'' # u32toa (NOT value + 1) else u32toa value)"

definition u64toa :: "64 word \<Rightarrow> bytes" where
  "u64toa value =
     (let kTen8 = 100000000; kTen9 = kTen8 * 10; kTen10 = kTen8 * 100; kTen11 = kTen8 * 1000;
          kTen12 = kTen8 * 10000; kTen13 = kTen8 * 100000; kTen14 = kTen8 * 1000000;
          kTen15 = kTen8 * 10000000; kTen16 = kTen8 * kTen8
      in if value < kTen8 then
        let v = ucast value :: 32 word in
        if v < 10000 then
          let d1 = push_bit 1 (v div 100); d2 = push_bit 1 (v mod 100)
          in put_if (v \<ge> 1000) d1 @ put_if (v \<ge> 100) (d1 + 1) @ put_if (v \<ge> 10) d2 @ [lut (d2 + 1)]
        else
          let b = v div 10000; c = v mod 10000;
              d1 = push_bit 1 (b div 100); d2 = push_bit 1 (b mod 100);
              d3 = push_bit 1 (c div 100); d4 = push_bit 1 (c mod 100)
          in put_if (value \<ge> 10000000) d1 @ put_if (value \<ge> 1000000) (d1 + 1) @
             put_if (value \<ge> 100000) d2 @ [lut (d2 + 1)] @
             [lut d3, lut (d3 + 1), lut d4, lut (d4 + 1)]
      else if value < kTen16 then
        let v0 = ucast (value div kTen8) :: 32 word; v1 = ucast (value mod kTen8) :: 32 word;
            b0 = v0 div 10000; c0 = v0 mod 10000;
            d1 = push_bit 1 (b0 div 100); d2 = push_bit 1 (b0 mod 100);
            d3 = push_bit 1 (c0 div 100); d4 = push_bit 1 (c0 mod 100);
            b1 = v1 div 10000; c1 = v1 mod 10000;
            d5 = push_bit 1 (b1 div 100); d6 = push_bit 1 (b1 mod 100);
            d7 = push_bit 1 (c1 div 100); d8 = push_bit 1 (c1 mod 100)
        in put_if (value \<ge> kTen15) d1 @ put_if (value \<ge> kTen14) (d1 + 1) @
           put_if (value \<ge> kTen13) d2 @ put_if (value \<ge> kTen12) (d2 + 1) @
           put_if (value \<ge> kTen11) d3 @ put_if (value \<ge> kTen10) (d3 + 1) @
           put_if (value \<ge> kTen9) d4 @ [lut (d4 + 1)] @
           [lut d5, lut (d5 + 1), lut d6, lut (d6 + 1), lut d7, lut (d7 + 1), lut d8, lut (d8 + 1)]
      else
        let a = ucast (value div kTen16) :: 32 word; value = value mod kTen16;
            top = (if a < 10 then [byte_of (48 + unat a)]
                   else if a < 100 then let i = push_bit 1 a in [lut i, lut (i + 1)]
                   else if a < 1000 then
                     let i = push_bit 1 (a mod 100) in [byte_of (48 + unat (a div 100)), lut i, lut (i + 1)]
                   else
                     let i = push_bit 1 (a div 100); j = push_bit 1 (a mod 100)
                     in [lut i, lut (i + 1), lut j, lut (j + 1)]);
            v0 = ucast (value div kTen8) :: 32 word; v1 = ucast (value mod kTen8) :: 32 word;
            b0 = v0 div 10000; c0 = v0 mod 10000;
            d1 = push_bit 1 (b0 div 100); d2 = push_bit 1 (b0 mod 100);
            d3 = push_bit 1 (c0 div 100); d4 = push_bit 1 (c0 mod 100);
            b1 = v1 div 10000; c1 = v1 mod 10000;
            d5 = push_bit 1 (b1 div 100); d6 = push_bit 1 (b1 mod 100);
            d7 = push_bit 1 (c1 div 100); d8 = push_bit 1 (c1 mod 100)
        in top @
           [lut d1, lut (d1 + 1), lut d2, lut (d2 + 1), lut d3, lut (d3 + 1), lut d4, lut (d4 + 1),
            lut d5, lut (d5 + 1), lut d6, lut (d6 + 1), lut d7, lut (d7 + 1), lut d8, lut (d8 + 1)])"

definition i64toa :: "64 word \<Rightarrow> bytes" where
  "i64toa value = (if value <s 0 then CHR ''-'' # u64toa (NOT value + 1) else u64toa value)"

section \<open>Digits of the table\<close>

text \<open>The two digits at an even index of the table.\<close>

lemma cDigitsLut_digits:
  assumes "n < 100"
  shows "cDigitsLut ! (2 * n) = digit (n div 10) \<and> cDigitsLut ! (2 * n + 1) = digit (n mod 10)"
proof -
  have "list_all (\<lambda>n. cDigitsLut ! (2 * n) = digit (n div 10) \<and> cDigitsLut ! (2 * n + 1) = digit (n mod 10)) [0..<100]"
    by code_simp
  then show ?thesis using assms by (simp add: list_all_iff)
qed

lemma lut_digits:
  assumes "unat d < 100"
  shows "lut (push_bit 1 d) = digit (unat d div 10)" "lut (push_bit 1 d + 1) = digit (unat d mod 10)"
proof -
  have p: "unat (push_bit 1 d) = 2 * unat d"
    using assms unat_mult_lem [of 2 d] by (simp add: mult.commute)
  then have "unat (push_bit 1 d + 1) = 2 * unat d + 1"
    using assms unat_add_lem [of "push_bit 1 d" 1] by simp
  with p show "lut (push_bit 1 d) = digit (unat d div 10)" "lut (push_bit 1 d + 1) = digit (unat d mod 10)"
    using cDigitsLut_digits [OF assms] unfolding lut_def by metis+
qed

section \<open>Decimal text in pieces\<close>

fun pad_digits :: "nat \<Rightarrow> nat \<Rightarrow> bytes" where
  "pad_digits 0 n = []"
| "pad_digits (Suc k) n = pad_digits k (n div 10) @ [digit (n mod 10)]"

lemma pad_digits_add: "pad_digits (j + k) n = pad_digits j (n div 10 ^ k) @ pad_digits k n"
  by (induction k arbitrary: n) (simp_all add: div_mult2_eq)

lemma pad_digits_mod: "pad_digits k (n mod 10 ^ k) = pad_digits k n"
proof (induction k arbitrary: n)
  case (Suc k)
  have "n mod 10 ^ Suc k div 10 = n div 10 mod 10 ^ k" "n mod 10 ^ Suc k mod 10 = n mod 10"
    using mod_mult2_eq [of n 10 "10 ^ k"] by (simp_all add: mod_mod_cancel)
  then show ?case using Suc.IH [of "n div 10"] by (simp del: power_Suc)
qed simp

lemma to_string_pad:
  "10 ^ k \<le> n \<Longrightarrow> to_string_nat n = to_string_nat (n div 10 ^ k) @ pad_digits k n"
proof (induction k arbitrary: n)
  case (Suc k)
  have "(10::nat) \<le> 10 ^ Suc k" by simp
  then have "10 \<le> n" using Suc.prems by (rule order_trans)
  moreover have "10 ^ k \<le> n div 10" using Suc.prems by (simp add: less_eq_div_iff_mult_less_eq mult.commute)
  ultimately have "to_string_nat n = to_string_nat (n div 10) @ [digit (n mod 10)]" "10 ^ k \<le> n div 10"
    by (subst to_string_nat.simps, simp_all)
  then show ?case
    using Suc.IH [of "n div 10"] by (simp add: div_mult2_eq)
qed simp

text \<open>A number below \<open>10 ^ 4\<close> or \<open>10 ^ 8\<close> with its leading zeros left out one by one.\<close>

definition digit_if :: "bool \<Rightarrow> nat \<Rightarrow> bytes" where
  "digit_if c d = (if c then [digit d] else [])"

lemma mod_100_div_10: "(n::nat) mod 100 div 10 = n div 10 mod 10" "(n::nat) mod 100 mod 10 = n mod 10"
  using mod_mult2_eq [of n 10 10] by (simp_all add: mod_mod_cancel)

lemma pad_digits_4:
  "pad_digits 4 n = [digit (n div 100 div 10 mod 10), digit (n div 100 mod 10), digit (n mod 100 div 10), digit (n mod 100 mod 10)]"
proof -
  have four: "(4::nat) = Suc (Suc (Suc (Suc 0)))" by simp
  show ?thesis unfolding four pad_digits.simps by (simp add: mod_100_div_10 flip: div_mult2_eq)
qed

lemma to_string_below_4:
  assumes "n < 10000"
  shows "to_string_nat n = digit_if (1000 \<le> n) (n div 100 div 10) @ digit_if (100 \<le> n) (n div 100 mod 10) @
    digit_if (10 \<le> n) (n mod 100 div 10) @ [digit (n mod 100 mod 10)]"
proof -
  have rec: "to_string_nat m = (if m < 10 then [] else to_string_nat (m div 10)) @ [digit (m mod 10)]" for m
    by (subst to_string_nat.simps) auto
  show ?thesis
    using assms by (simp add: rec [of n] rec [of "n div 10"] rec [of "n div 100"] rec [of "n div 1000"] digit_if_def
        mod_100_div_10 div_less_iff_less_mult flip: div_mult2_eq)
qed

lemma to_string_below_8:
  assumes "n < 100000000"
  shows "to_string_nat n =
    digit_if (10000000 \<le> n) (n div 10000 div 100 div 10) @ digit_if (1000000 \<le> n) (n div 10000 div 100 mod 10) @
    digit_if (100000 \<le> n) (n div 10000 mod 100 div 10) @ digit_if (10000 \<le> n) (n div 10000 mod 100 mod 10) @
    digit_if (1000 \<le> n) (n mod 10000 div 100 div 10) @ digit_if (100 \<le> n) (n mod 10000 div 100 mod 10) @
    digit_if (10 \<le> n) (n mod 10000 mod 100 div 10) @ [digit (n mod 10000 mod 100 mod 10)]"
proof (cases "n < 10000")
  case True
  then show ?thesis by (simp add: to_string_below_4 [OF True] digit_if_def)
next
  case False
  have "to_string_nat n = to_string_nat (n div 10000) @ pad_digits 4 n"
    using to_string_pad [of 4 n] False by simp
  also have "pad_digits 4 n = pad_digits 4 (n mod 10000)" using pad_digits_mod [of 4 n] by simp
  also have "\<dots> = [digit (n mod 10000 div 100 div 10), digit (n mod 10000 div 100 mod 10),
      digit (n mod 10000 mod 100 div 10), digit (n mod 10000 mod 100 mod 10)]"
    unfolding pad_digits_4 by (simp add: div_less_iff_less_mult flip: div_mult2_eq)
  finally show ?thesis
    using False assms to_string_below_4 [of "n div 10000"]
    by (simp add: digit_if_def less_eq_div_iff_mult_less_eq div_less_iff_less_mult)
qed

section \<open>Four digits of the table at a time\<close>

lemma lut_4:
  assumes "unat b < 10000"
  shows "[lut (push_bit 1 (b div 100)), lut (push_bit 1 (b div 100) + 1), lut (push_bit 1 (b mod 100)),
    lut (push_bit 1 (b mod 100) + 1)] = pad_digits 4 (unat b)"
proof -
  have nat: "unat (b div 100) = unat b div 100" "unat (b mod 100) = unat b mod 100"
    by (simp_all add: unat_div unat_mod)
  then have "unat (b div 100) < 100" "unat (b mod 100) < 100" "unat b div 100 div 10 < 10"
    using assms by (simp_all add: div_less_iff_less_mult)
  then show ?thesis
    using lut_digits [of "b div 100"] lut_digits [of "b mod 100"] nat unfolding pad_digits_4 by simp
qed

lemma lut_put_if:
  assumes "unat b < 10000"
  shows "put_if c (push_bit 1 (b div 100)) = digit_if c (unat b div 100 div 10)"
    "put_if c (push_bit 1 (b div 100) + 1) = digit_if c (unat b div 100 mod 10)"
    "put_if c (push_bit 1 (b mod 100)) = digit_if c (unat b mod 100 div 10)"
    "put_if c (push_bit 1 (b mod 100) + 1) = digit_if c (unat b mod 100 mod 10)"
    "[lut (push_bit 1 (b mod 100) + 1)] = [digit (unat b mod 100 mod 10)]"
proof -
  have "unat b div 100 div 10 mod 10 = unat b div 100 div 10"
    using assms by (simp add: div_less_iff_less_mult)
  then show "put_if c (push_bit 1 (b div 100)) = digit_if c (unat b div 100 div 10)"
    "put_if c (push_bit 1 (b div 100) + 1) = digit_if c (unat b div 100 mod 10)"
    "put_if c (push_bit 1 (b mod 100)) = digit_if c (unat b mod 100 div 10)"
    "put_if c (push_bit 1 (b mod 100) + 1) = digit_if c (unat b mod 100 mod 10)"
    "[lut (push_bit 1 (b mod 100) + 1)] = [digit (unat b mod 100 mod 10)]"
    using lut_4 [OF assms] unfolding pad_digits_4 put_if_def digit_if_def by simp_all
qed

lemma word_compare_nat:
  "(x < y) = (unat x < unat y)" "(x \<le> y) = (unat x \<le> unat y)"
  by (simp_all add: word_less_nat_alt word_le_nat_alt)

lemma u32toa_below_10000:
  assumes "unat v < 10000"
  shows "put_if (v \<ge> 1000) (push_bit 1 (v div 100)) @ put_if (v \<ge> 100) (push_bit 1 (v div 100) + 1) @
    put_if (v \<ge> 10) (push_bit 1 (v mod 100)) @ [lut (push_bit 1 (v mod 100) + 1)] = to_string_nat (unat v)"
  unfolding lut_put_if [OF assms] to_string_below_4 [OF assms] by (simp add: word_compare_nat)

lemma nat_parts:
  "unat (v div 10000) = unat v div 10000" "unat (v mod 10000) = unat v mod 10000"
  "unat v < 100000000 \<Longrightarrow> unat (v div 10000) < 10000" "unat (v mod 10000) < 10000"
  for v :: "32 word"
  by (simp_all add: unat_div unat_mod div_less_iff_less_mult)

lemma lead_8:
  fixes v :: "32 word"
  assumes "unat v < 100000000"
    and "c7 = (10000000 \<le> unat v)" "c6 = (1000000 \<le> unat v)" "c5 = (100000 \<le> unat v)"
      "c4 = (10000 \<le> unat v)" "c3 = (1000 \<le> unat v)" "c2 = (100 \<le> unat v)" "c1 = (10 \<le> unat v)"
  shows "put_if c7 (push_bit 1 (v div 10000 div 100)) @ put_if c6 (push_bit 1 (v div 10000 div 100) + 1) @
    put_if c5 (push_bit 1 (v div 10000 mod 100)) @ put_if c4 (push_bit 1 (v div 10000 mod 100) + 1) @
    put_if c3 (push_bit 1 (v mod 10000 div 100)) @ put_if c2 (push_bit 1 (v mod 10000 div 100) + 1) @
    put_if c1 (push_bit 1 (v mod 10000 mod 100)) @ [lut (push_bit 1 (v mod 10000 mod 100) + 1)] =
    to_string_nat (unat v)"
  unfolding lut_put_if [OF nat_parts(3) [OF assms(1)]] lut_put_if [OF nat_parts(4)] nat_parts(1,2) assms(2-)
  by (rule to_string_below_8 [OF assms(1), symmetric])

lemma lut_8:
  assumes "unat v < 100000000"
  shows "[lut (push_bit 1 (v div 10000 div 100)), lut (push_bit 1 (v div 10000 div 100) + 1),
     lut (push_bit 1 (v div 10000 mod 100)), lut (push_bit 1 (v div 10000 mod 100) + 1),
     lut (push_bit 1 (v mod 10000 div 100)), lut (push_bit 1 (v mod 10000 div 100) + 1),
     lut (push_bit 1 (v mod 10000 mod 100)), lut (push_bit 1 (v mod 10000 mod 100) + 1)] =
    pad_digits 8 (unat v)"
proof -
  have "pad_digits 8 (unat v) = pad_digits 4 (unat (v div 10000)) @ pad_digits 4 (unat (v mod 10000))"
    using pad_digits_add [of 4 4 "unat v"] pad_digits_mod [of 4 "unat v"] by (simp add: nat_parts)
  then show ?thesis
    unfolding lut_4 [OF nat_parts(3) [OF assms], symmetric] lut_4 [OF nat_parts(4), symmetric] by simp
qed

lemma byte_of_digit: "byte_of (48 + d) = digit d"
  by (simp add: digit_def)

lemma to_string_100: "d < 100 \<Longrightarrow> 10 \<le> d \<Longrightarrow> to_string_nat d = [digit (d div 10), digit (d mod 10)]"
  by (simp add: to_string_nat.simps [of d] to_string_small)

lemma unat_bound: "unat v < 2 ^ LENGTH('a)" for v :: "'a::len word"
  by (rule unsigned_less)

lemma u32toa_eq: "u32toa v = to_string_nat (unat v)"
proof -
  consider "v < 10000" | "\<not> v < 10000" "v < 100000000" | "\<not> v < 100000000"
    by blast
  then show ?thesis
  proof cases
    case 1
    then show ?thesis
      using u32toa_below_10000 [of v] by (simp add: u32toa_def Let_def word_compare_nat)
  next
    case 2
    have "put_if (v \<ge> 10000000) (push_bit 1 (v div 10000 div 100)) @
        put_if (v \<ge> 1000000) (push_bit 1 (v div 10000 div 100) + 1) @
        put_if (v \<ge> 100000) (push_bit 1 (v div 10000 mod 100)) @
        put_if True (push_bit 1 (v div 10000 mod 100) + 1) @
        put_if True (push_bit 1 (v mod 10000 div 100)) @
        put_if True (push_bit 1 (v mod 10000 div 100) + 1) @
        put_if True (push_bit 1 (v mod 10000 mod 100)) @
        [lut (push_bit 1 (v mod 10000 mod 100) + 1)] = to_string_nat (unat v)"
      using 2 by (intro lead_8) (simp_all add: word_compare_nat)
    then show ?thesis using 2 by (simp add: u32toa_def Let_def put_if_def)
  next
    case 3
    let ?a = "v div 100000000" and ?r = "v mod 100000000"
    have a: "unat ?a = unat v div 100000000" "unat ?a < 100" "?a \<noteq> 0"
      using 3 unat_bound [of v] by (simp_all add: unat_div div_less_iff_less_mult word_compare_nat word_unat_eq_iff)
    have r: "unat ?r = unat v mod 100000000" by (simp add: unat_mod)
    have top: "(if ?a \<ge> 10 then [lut (push_bit 1 ?a), lut (push_bit 1 ?a + 1)] else [byte_of (48 + unat ?a)]) =
        to_string_nat (unat ?a)"
      using a(2) lut_digits [OF a(2)] to_string_100 [OF a(2)]
      by (simp add: word_compare_nat byte_of_digit to_string_small)
    have "to_string_nat (unat v) = to_string_nat (unat ?a) @ pad_digits 8 (unat ?r)"
      using 3 to_string_pad [of 8 "unat v"] pad_digits_mod [of 8 "unat v"]
      by (simp add: a(1) r word_compare_nat)
    also have "\<dots> = (if ?a \<ge> 10 then [lut (push_bit 1 ?a), lut (push_bit 1 ?a + 1)] else [byte_of (48 + unat ?a)]) @
      [lut (push_bit 1 (?r div 10000 div 100)), lut (push_bit 1 (?r div 10000 div 100) + 1),
       lut (push_bit 1 (?r div 10000 mod 100)), lut (push_bit 1 (?r div 10000 mod 100) + 1),
       lut (push_bit 1 (?r mod 10000 div 100)), lut (push_bit 1 (?r mod 10000 div 100) + 1),
       lut (push_bit 1 (?r mod 10000 mod 100)), lut (push_bit 1 (?r mod 10000 mod 100) + 1)]"
      using r by (simp only: top lut_8 mod_less_divisor zero_less_numeral)
    also have "\<dots> = u32toa v"
      using 3 by (simp add: u32toa_def Let_def word_compare_nat)
    finally show ?thesis ..
  qed
qed

lemma negated_word:
  fixes v :: "'a::len word"
  assumes "v <s 0"
  shows "unat (NOT v + 1) = nat (- sint v)"
proof -
  have "NOT v + 1 = - v" by (simp add: minus_eq_not_plus_1)
  also have "- v = word_of_int (- sint v)" by simp
  finally have "uint (NOT v + 1) = (- sint v) mod 2 ^ LENGTH('a)"
    by (simp only: uint_word_of_int)
  moreover have "0 < - sint v" "- sint v < 2 ^ LENGTH('a)"
    using assms order.strict_trans1 [OF _ power_strict_increasing [of "LENGTH('a) - 1" "LENGTH('a)" "2::int"]]
      sint_ge [of v] by (simp_all add: word_sless_alt)
  ultimately show ?thesis by (simp add: unat_eq_nat_uint)
qed

lemma unnegated_word:
  fixes v :: "'a::len word"
  assumes "\<not> v <s 0"
  shows "unat v = nat (sint v)"
proof -
  have "uint v = uint (word_of_int (sint v) :: 'a word)" by simp
  also have "\<dots> = sint v mod 2 ^ LENGTH('a)" by (simp only: uint_word_of_int)
  finally have "uint v = sint v mod 2 ^ LENGTH('a)" .
  moreover have "sint v < 2 ^ LENGTH('a)"
    using sint_lt [of v] power_increasing [of "LENGTH('a) - 1" "LENGTH('a)" "2::int"] by linarith
  ultimately show ?thesis using assms by (simp add: word_sless_alt unat_eq_nat_uint)
qed

lemma i32toa_eq: "i32toa v = to_string_int (sint v)"
proof (cases "v <s 0")
  case True
  then have "unat (NOT v + 1) = nat (- sint v)" "sint v < 0"
    using True negated_word [OF True] by (simp_all add: word_sless_alt)
  then show ?thesis using True by (simp add: i32toa_def u32toa_eq to_string_int_def)
next
  case False
  then have "unat v = nat (sint v)" "\<not> sint v < 0"
    using unnegated_word [OF False] by (simp_all add: word_sless_alt)
  then show ?thesis using False by (simp add: i32toa_def u32toa_eq to_string_int_def)
qed

section \<open>Sixty-four bits\<close>

lemma unat_ucast_32: "unat v < 4294967296 \<Longrightarrow> unat (ucast v :: 32 word) = unat v" for v :: "64 word"
  by (simp add: unsigned_ucast_eq take_bit_nat_eq_self)

lemma parts_64:
  fixes v :: "64 word"
  shows "unat v < 10000000000000000 \<Longrightarrow> unat (ucast (v div 100000000) :: 32 word) = unat v div 100000000"
    "unat (ucast (v mod 100000000) :: 32 word) = unat v mod 100000000"
    "unat (ucast (v div 10000000000000000) :: 32 word) = unat v div 10000000000000000"
proof -
  show "unat v < 10000000000000000 \<Longrightarrow> unat (ucast (v div 100000000) :: 32 word) = unat v div 100000000"
    by (subst unat_ucast_32) (simp_all add: unat_div div_less_iff_less_mult)
  show "unat (ucast (v mod 100000000) :: 32 word) = unat v mod 100000000"
    by (subst unat_ucast_32) (simp_all add: unat_mod less_trans [OF mod_less_divisor])
  show "unat (ucast (v div 10000000000000000) :: 32 word) = unat v div 10000000000000000"
    using unat_bound [of v] by (subst unat_ucast_32) (simp_all add: unat_div div_less_iff_less_mult)
qed

text \<open>The four cases of the sixty-four bit conversion.\<close>

lemma u64toa_small: "unat v < 100000000 \<Longrightarrow> u64toa v = to_string_nat (unat v)"
proof -
  assume v: "unat v < 100000000"
  let ?v = "ucast v :: 32 word"
  have u: "unat ?v = unat v" using v by (intro unat_ucast_32) simp
  have "u64toa v = u32toa ?v"
    using v u by (simp add: u64toa_def u32toa_def Let_def word_compare_nat)
  then show ?thesis using u by (simp add: u32toa_eq)
qed

lemma u64toa_middle:
  assumes "100000000 \<le> unat v" "unat v < 10000000000000000"
  shows "u64toa v = to_string_nat (unat v)"
proof -
  let ?v0 = "ucast (v div 100000000) :: 32 word" and ?v1 = "ucast (v mod 100000000) :: 32 word"
  have v0: "unat ?v0 = unat v div 100000000" and v1: "unat ?v1 = unat v mod 100000000"
    using parts_64 assms(2) by simp_all
  have "u64toa v =
     (put_if (v \<ge> 1000000000000000) (push_bit 1 (?v0 div 10000 div 100)) @
      put_if (v \<ge> 100000000000000) (push_bit 1 (?v0 div 10000 div 100) + 1) @
      put_if (v \<ge> 10000000000000) (push_bit 1 (?v0 div 10000 mod 100)) @
      put_if (v \<ge> 1000000000000) (push_bit 1 (?v0 div 10000 mod 100) + 1) @
      put_if (v \<ge> 100000000000) (push_bit 1 (?v0 mod 10000 div 100)) @
      put_if (v \<ge> 10000000000) (push_bit 1 (?v0 mod 10000 div 100) + 1) @
      put_if (v \<ge> 1000000000) (push_bit 1 (?v0 mod 10000 mod 100)) @
      [lut (push_bit 1 (?v0 mod 10000 mod 100) + 1)]) @
     [lut (push_bit 1 (?v1 div 10000 div 100)), lut (push_bit 1 (?v1 div 10000 div 100) + 1),
      lut (push_bit 1 (?v1 div 10000 mod 100)), lut (push_bit 1 (?v1 div 10000 mod 100) + 1),
      lut (push_bit 1 (?v1 mod 10000 div 100)), lut (push_bit 1 (?v1 mod 10000 div 100) + 1),
      lut (push_bit 1 (?v1 mod 10000 mod 100)), lut (push_bit 1 (?v1 mod 10000 mod 100) + 1)]"
    using assms by (simp add: u64toa_def Let_def word_compare_nat)
  also have "\<dots> = to_string_nat (unat ?v0) @ pad_digits 8 (unat ?v1)"
    by (subst lead_8, simp_all only: lut_8 v0 v1 mod_less_divisor zero_less_numeral)
      (use assms in \<open>simp_all add: word_compare_nat less_eq_div_iff_mult_less_eq div_less_iff_less_mult\<close>)
  also have "\<dots> = to_string_nat (unat v)"
    using to_string_pad [of 8 "unat v"] pad_digits_mod [of 8 "unat v"] assms(1) by (simp add: v0 v1)
  finally show ?thesis .
qed

text \<open>One to four leading digits.\<close>

definition top_digits :: "32 word \<Rightarrow> bytes" where
  "top_digits a = (if a < 10 then [byte_of (48 + unat a)]
     else if a < 100 then let i = push_bit 1 a in [lut i, lut (i + 1)]
     else if a < 1000 then
       let i = push_bit 1 (a mod 100) in [byte_of (48 + unat (a div 100)), lut i, lut (i + 1)]
     else let i = push_bit 1 (a div 100); j = push_bit 1 (a mod 100)
       in [lut i, lut (i + 1), lut j, lut (j + 1)])"

lemma top_digits_eq:
  assumes "unat a < 10000" shows "top_digits a = to_string_nat (unat a)"
proof -
  have nat: "unat (a div 100) = unat a div 100" "unat (a mod 100) = unat a mod 100"
    by (simp_all add: unat_div unat_mod)
  note table = lut_digits [of "a mod 100", unfolded nat] lut_4 [OF assms, unfolded pad_digits_4]
  consider "unat a < 10" | "10 \<le> unat a" "unat a < 100" | "100 \<le> unat a" "unat a < 1000" | "1000 \<le> unat a"
    by linarith
  then show ?thesis
  proof cases
    case 1
    then show ?thesis by (simp add: top_digits_def word_compare_nat byte_of_digit to_string_small)
  next
    case 2
    then show ?thesis
      using lut_digits [of a] by (simp add: top_digits_def word_compare_nat to_string_100 Let_def)
  next
    case 3
    then show ?thesis
      using table by (simp add: top_digits_def word_compare_nat to_string_below_4 digit_if_def nat byte_of_digit Let_def)
  next
    case 4
    then have "unat a div 100 div 10 mod 10 = unat a div 100 div 10"
      using assms by (simp add: div_less_iff_less_mult)
    with 4 show ?thesis
      using table assms
      by (simp add: top_digits_def word_compare_nat to_string_below_4 digit_if_def Let_def)
  qed
qed

lemma u64toa_large:
  assumes "10000000000000000 \<le> unat v"
  shows "u64toa v = to_string_nat (unat v)"
proof -
  let ?a = "ucast (v div 10000000000000000) :: 32 word" and ?r = "v mod 10000000000000000"
  let ?v0 = "ucast (?r div 100000000) :: 32 word" and ?v1 = "ucast (?r mod 100000000) :: 32 word"
  have a: "unat ?a = unat v div 10000000000000000" "unat ?a < 10000"
    using parts_64(3) [of v] unat_bound [of v] by (simp_all add: div_less_iff_less_mult)
  have r: "unat ?r = unat v mod 10000000000000000" by (simp add: unat_mod)
  then have v0: "unat ?v0 = unat ?r div 100000000" and v1: "unat ?v1 = unat ?r mod 100000000"
    using parts_64(1,2) [of ?r] by simp_all
  have v0': "unat ?v0 < 100000000" using v0 r by (simp add: div_less_iff_less_mult)
  have v1': "unat ?v1 < 100000000" using v1 by simp
  have "u64toa v = top_digits ?a @
     [lut (push_bit 1 (?v0 div 10000 div 100)), lut (push_bit 1 (?v0 div 10000 div 100) + 1),
      lut (push_bit 1 (?v0 div 10000 mod 100)), lut (push_bit 1 (?v0 div 10000 mod 100) + 1),
      lut (push_bit 1 (?v0 mod 10000 div 100)), lut (push_bit 1 (?v0 mod 10000 div 100) + 1),
      lut (push_bit 1 (?v0 mod 10000 mod 100)), lut (push_bit 1 (?v0 mod 10000 mod 100) + 1)] @
     [lut (push_bit 1 (?v1 div 10000 div 100)), lut (push_bit 1 (?v1 div 10000 div 100) + 1),
      lut (push_bit 1 (?v1 div 10000 mod 100)), lut (push_bit 1 (?v1 div 10000 mod 100) + 1),
      lut (push_bit 1 (?v1 mod 10000 div 100)), lut (push_bit 1 (?v1 mod 10000 div 100) + 1),
      lut (push_bit 1 (?v1 mod 10000 mod 100)), lut (push_bit 1 (?v1 mod 10000 mod 100) + 1)]"
    using assms by (simp add: u64toa_def top_digits_def Let_def word_compare_nat)
  also have "\<dots> = to_string_nat (unat ?a) @ pad_digits 8 (unat ?v0) @ pad_digits 8 (unat ?v1)"
    unfolding top_digits_eq [OF a(2)] lut_8 [OF v0'] lut_8 [OF v1'] ..
  also have "pad_digits 8 (unat ?v0) @ pad_digits 8 (unat ?v1) = pad_digits 16 (unat v)"
    using pad_digits_add [of 8 8 "unat ?r"] pad_digits_mod [of 8 "unat ?r"] pad_digits_mod [of 16 "unat v"]
    by (simp add: v0 v1 r)
  also have "to_string_nat (unat ?a) @ \<dots> = to_string_nat (unat v)"
    using to_string_pad [of 16 "unat v"] assms by (simp add: a(1))
  finally show ?thesis .
qed

lemma u64toa_eq: "u64toa v = to_string_nat (unat v)"
  using u64toa_small u64toa_middle u64toa_large by (metis linorder_not_less)

lemma i64toa_eq: "i64toa v = to_string_int (sint v)"
proof (cases "v <s 0")
  case True
  then have "unat (NOT v + 1) = nat (- sint v)" "sint v < 0"
    using True negated_word [OF True] by (simp_all add: word_sless_alt)
  then show ?thesis using True by (simp add: i64toa_def u64toa_eq to_string_int_def)
next
  case False
  then have "unat v = nat (sint v)" "\<not> sint v < 0"
    using unnegated_word [OF False] by (simp_all add: word_sless_alt)
  then show ?thesis using False by (simp add: i64toa_def u64toa_eq to_string_int_def)
qed

text \<open>C36: integers to text. The four conversions, each with its table of digit pairs, its cases by
  size and its arithmetic on words of 32 or 64 bits, compute exactly the decimal text, with a sign
  for negative numbers, also for the smallest negative number, whose negation wraps around; and the
  text fits the buffers of 10, 11, 20 and 21 bytes that the writer calls them with.\<close>

theorem itoa_decimal:
  "u32toa u = to_string_nat (unat u) \<and> length (u32toa u) \<le> 10 \<and>
   i32toa i = to_string_int (sint i) \<and> length (i32toa i) \<le> 11 \<and>
   u64toa v = to_string_nat (unat v) \<and> length (u64toa v) \<le> 20 \<and>
   i64toa w = to_string_int (sint w) \<and> length (i64toa w) \<le> 21"
proof -
  have len: "length (to_string_int k) \<le> Suc d" if "\<bar>k\<bar> < 10 ^ d" "0 < d" for k :: int and d
    using that length_to_string_nat_le [of "nat \<bar>k\<bar>" d]
    by (auto simp: to_string_int_def nat_less_iff intro: le_SucI split: if_splits)
  have "length (to_string_nat (unat u)) \<le> 10" "length (to_string_nat (unat v)) \<le> 20"
    using unat_bound [of u] unat_bound [of v] by (auto intro!: length_to_string_nat_le)
  moreover have "length (to_string_int (sint i)) \<le> Suc 10" "length (to_string_int (sint w)) \<le> Suc 20"
    using sint_ge [of i] sint_lt [of i] sint_ge [of w] sint_lt [of w] by (intro len; simp add: abs_less_iff)+
  ultimately show ?thesis by (simp add: u32toa_eq i32toa_eq u64toa_eq i64toa_eq)
qed

end
