(* ===== verification/Rapidjson_Writer.thy ===== *)
theory Rapidjson_Writer
  imports Json_Roundtrip Rapidjson_Itoa
begin

text \<open>
  \<^verbatim>\<open>include/rapidjson/prettywriter.h\<close> and the parts of \<^verbatim>\<open>writer.h\<close> it calls, for
  \<open>PrettyWriter<StringBuffer>\<close> with the default flags: the writer the client builds its
  requests with. The stack of levels is a list with its top first; the buffer is the text
  written so far. \<open>RAPIDJSON_ASSERT\<close> is \<open>assert\<close>. At the end, whatever document is
  written, the parser of the server reads it back.
\<close>

section \<open>The state\<close>

datatype rj_type = kNullType | kFalseType | kTrueType | kObjectType | kArrayType | kStringType | kNumberType

record writer_level =
  valueCount :: nat
  inArray :: bool

record pretty_writer =
  os :: bytes
  level_stack :: "writer_level list"
  hasRoot :: bool
  indentChar :: byte
  indentCharCount :: nat
  singleLineArray :: bool

definition new_pretty_writer :: pretty_writer where
  "new_pretty_writer = \<lparr>os = [], level_stack = [], hasRoot = False, indentChar = CHR '' '',
     indentCharCount = 4, singleLineArray = False\<rparr>"

definition put :: "bytes \<Rightarrow> pretty_writer \<Rightarrow> pretty_writer" where
  "put bs w = w\<lparr>os := os w @ bs\<rparr>"

definition WriteIndent :: "pretty_writer \<Rightarrow> pretty_writer" where
  "WriteIndent w = put (replicate (length (level_stack w) * indentCharCount w) (indentChar w)) w"

section \<open>Strings\<close>

text \<open>The table \<open>escape\<close>, row by row; \<open>NUL\<close> is its 0.\<close>

definition Z16 :: bytes where "Z16 = replicate 16 NUL"

definition escape_table :: bytes where
  "escape_table =
     ''uuuuuuuubtnufruu'' @
     ''uuuuuuuuuuuuuuuu'' @
     [NUL, NUL, CHR 0x22] @ replicate 13 NUL @
     Z16 @ Z16 @
     replicate 12 NUL @ [CHR 0x5C, NUL, NUL, NUL] @
     Z16 @ Z16 @ Z16 @ Z16 @ Z16 @ Z16 @ Z16 @ Z16 @ Z16 @ Z16"

definition hexDigits :: "nat \<Rightarrow> byte" where
  "hexDigits n = ''0123456789ABCDEF'' ! n"

text \<open>What the loop of \<open>WriteString\<close> writes for one byte; bytes above ASCII are copied unchecked.\<close>

definition write_char :: "byte \<Rightarrow> bytes" where
  "write_char c =
     (let e = escape_table ! byte_val c in
      if e \<noteq> NUL then
        [CHR 0x5C, e] @
        (if e = CHR ''u''
         then [CHR ''0'', CHR ''0'', hexDigits (byte_val c div 16), hexDigits (byte_val c mod 16)] else [])
      else [c])"

definition WriteString :: "bytes \<Rightarrow> pretty_writer \<Rightarrow> pretty_writer" where
  "WriteString str w = put (CHR 0x22 # concat (map write_char str) @ [CHR 0x22]) w"

section \<open>The handler\<close>

definition PrettyPrefix :: "rj_type \<Rightarrow> pretty_writer \<Rightarrow> pretty_writer result" where
  "PrettyPrefix type w = (case level_stack w of
       [] \<Rightarrow> if hasRoot w then Inl (Assertion_failed ''!hasRoot_'') else Inr (w\<lparr>hasRoot := True\<rparr>)
     | level # below \<Rightarrow>
        let n = valueCount level;
            w = (if inArray level then
                   let w = (if n > 0 then put (if singleLineArray w then '', '' else '','') w else w)
                   in if singleLineArray w then w else WriteIndent (put [CHR 0x0A] w)
                 else
                   let w = put (if n > 0 then if even n then [CHR '','', CHR 0x0A] else '': '' else [CHR 0x0A]) w
                   in if even n then WriteIndent w else w)
        in if \<not> inArray level \<and> even n \<and> type \<noteq> kStringType
           then Inl (Assertion_failed ''type == kStringType'')
           else Inr (w\<lparr>level_stack := level\<lparr>valueCount := n + 1\<rparr> # below\<rparr>))"

text \<open>\<open>Null\<close>, \<open>Bool\<close>, the integers, \<open>String\<close> and \<open>Key\<close>, the strings given with
  their length; the overloads for a C string pass the bytes before its NUL.\<close>

definition pw_Null :: "pretty_writer \<Rightarrow> pretty_writer result" where
  "pw_Null w = rbind (PrettyPrefix kNullType w) (\<lambda>w. Inr (put ''null'' w))"

definition pw_Bool :: "bool \<Rightarrow> pretty_writer \<Rightarrow> pretty_writer result" where
  "pw_Bool b w = rbind (PrettyPrefix (if b then kTrueType else kFalseType) w)
     (\<lambda>w. Inr (put (if b then ''true'' else ''false'') w))"

definition pw_Int :: "32 word \<Rightarrow> pretty_writer \<Rightarrow> pretty_writer result" where
  "pw_Int i w = rbind (PrettyPrefix kNumberType w) (\<lambda>w. Inr (put (i32toa i) w))"

definition pw_Uint :: "32 word \<Rightarrow> pretty_writer \<Rightarrow> pretty_writer result" where
  "pw_Uint u w = rbind (PrettyPrefix kNumberType w) (\<lambda>w. Inr (put (u32toa u) w))"

definition pw_Int64 :: "64 word \<Rightarrow> pretty_writer \<Rightarrow> pretty_writer result" where
  "pw_Int64 i64 w = rbind (PrettyPrefix kNumberType w) (\<lambda>w. Inr (put (i64toa i64) w))"

definition pw_Uint64 :: "64 word \<Rightarrow> pretty_writer \<Rightarrow> pretty_writer result" where
  "pw_Uint64 u64 w = rbind (PrettyPrefix kNumberType w) (\<lambda>w. Inr (put (u64toa u64) w))"

definition pw_String :: "bytes \<Rightarrow> pretty_writer \<Rightarrow> pretty_writer result" where
  "pw_String str w = rbind (PrettyPrefix kStringType w) (\<lambda>w. Inr (WriteString str w))"

definition pw_Key :: "bytes \<Rightarrow> pretty_writer \<Rightarrow> pretty_writer result" where
  "pw_Key str w = pw_String str w"

definition push_level :: "bool \<Rightarrow> pretty_writer \<Rightarrow> pretty_writer" where
  "push_level in_array w = w\<lparr>level_stack := \<lparr>valueCount = 0, inArray = in_array\<rparr> # level_stack w\<rparr>"

definition StartObject :: "pretty_writer \<Rightarrow> pretty_writer result" where
  "StartObject w = rbind (PrettyPrefix kObjectType w) (\<lambda>w. Inr (put [CHR 0x7B] (push_level False w)))"

definition StartArray :: "pretty_writer \<Rightarrow> pretty_writer result" where
  "StartArray w = rbind (PrettyPrefix kArrayType w) (\<lambda>w. Inr (put [CHR 0x5B] (push_level True w)))"

definition EndObject :: "pretty_writer \<Rightarrow> pretty_writer result" where
  "EndObject w = (case level_stack w of
       [] \<Rightarrow> Inl (Assertion_failed ''level_stack_.GetSize() >= sizeof(Level)'')
     | level # below \<Rightarrow>
        if inArray level then Inl (Assertion_failed ''!inArray'')
        else if odd (valueCount level) then Inl (Assertion_failed ''0 == valueCount % 2'')
        else let w = w\<lparr>level_stack := below\<rparr>;
                 w = (if valueCount level = 0 then w else WriteIndent (put [CHR 0x0A] w))
             in Inr (put [CHR 0x7D] w))"

definition EndArray :: "pretty_writer \<Rightarrow> pretty_writer result" where
  "EndArray w = (case level_stack w of
       [] \<Rightarrow> Inl (Assertion_failed ''level_stack_.GetSize() >= sizeof(Level)'')
     | level # below \<Rightarrow>
        if \<not> inArray level then Inl (Assertion_failed ''inArray'')
        else let w = w\<lparr>level_stack := below\<rparr>;
                 w = (if valueCount level = 0 \<or> singleLineArray w then w else WriteIndent (put [CHR 0x0A] w))
             in Inr (put [CHR 0x5D] w))"

section \<open>The escaping is readable\<close>

lemma escape_table_entry:
  assumes "n < 256"
  shows "escape_table ! n = (if n = 8 then CHR ''b'' else if n = 9 then CHR ''t'' else if n = 10 then CHR ''n''
    else if n = 12 then CHR ''f'' else if n = 13 then CHR ''r'' else if n = 0x22 then CHR 0x22
    else if n = 0x5C then CHR 0x5C else if n < 32 then CHR ''u'' else NUL)"
proof -
  have "list_all (\<lambda>n. escape_table ! n = (if n = 8 then CHR ''b'' else if n = 9 then CHR ''t'' else if n = 10 then CHR ''n''
    else if n = 12 then CHR ''f'' else if n = 13 then CHR ''r'' else if n = 0x22 then CHR 0x22
    else if n = 0x5C then CHR 0x5C else if n < 32 then CHR ''u'' else NUL)) [0..<256]"
    by code_simp
  then show ?thesis using assms by (simp add: list_all_iff)
qed

lemma hex_digits_upper: "hex_digits hexDigits"
proof -
  have "list_all (\<lambda>n. byte_val (hexDigits n) = (if n < 10 then 48 + n else 55 + n)) [0..<16]" by code_simp
  then show ?thesis by (simp add: hex_digits_def list_all_iff)
qed

text \<open>A byte is written as the other serializer writes it, or as an escape in capital digits.\<close>

lemma write_char_cases:
  obtains "write_char c = escape_byte c" |
    "byte_val c < 32" "write_char c = CHR 0x5C # CHR ''u'' # map hexDigits (nibbles (byte_val c))"
proof -
  have table: "escape_table ! byte_val c \<noteq> NUL \<longleftrightarrow> byte_val c < 32 \<or> byte_val c = 0x22 \<or> byte_val c = 0x5C"
    by (auto simp: escape_table_entry)
  have "hexDigits 0 = CHR ''0''" by (simp add: hexDigits_def)
  then have "write_char c = escape_byte c \<or>
      byte_val c < 32 \<and> write_char c = CHR 0x5C # CHR ''u'' # map hexDigits (nibbles (byte_val c))"
    by (auto simp: write_char_def escape_table_entry escape_byte_def nibbles_def Let_def)
  then show thesis using that by blast
qed

lemma readable_write_char: "readable_escape write_char"
  unfolding readable_escape_def
proof (intro conjI allI impI)
  fix c :: byte
  assume "0x80 \<le> byte_val c"
  then show "write_char c = [c]" by (cases c rule: write_char_cases) (simp_all add: escape_byte_high)
next
  fix c lx rest
  assume c: "byte_val c \<le> 0x7F" "reads lx (write_char c @ rest)"
  then show "\<exists>lx'. scan_string_step lx = (None, lx') \<and> reads lx' rest \<and> token_buffer lx' = token_buffer lx @ [c]"
    using scan_string_step_ascii [of lx c rest] scan_string_step_hex [OF hex_digits_upper, of lx "byte_val c" rest]
    by (cases c rule: write_char_cases) auto
qed

section \<open>Writing a document\<close>

text \<open>The events of a document, in order.\<close>

fun write_json :: "json \<Rightarrow> pretty_writer \<Rightarrow> pretty_writer result"
  and write_members :: "(bytes \<times> json) list \<Rightarrow> pretty_writer \<Rightarrow> pretty_writer result"
  and write_elements :: "json list \<Rightarrow> pretty_writer \<Rightarrow> pretty_writer result" where
  "write_json JNull w = pw_Null w"
| "write_json (JBool b) w = pw_Bool b w"
| "write_json (JInteger i) w = pw_Int64 (word_of_int i) w"
| "write_json (JUnsigned n) w = pw_Uint64 (of_nat n) w"
| "write_json (JFloat t) w = Inl (Invalid_argument ''floating point'')"
| "write_json (JString s) w = pw_String s w"
| "write_json (JArray vs) w = rbind (StartArray w) (\<lambda>w. rbind (write_elements vs w) EndArray)"
| "write_json (JObject m) w = rbind (StartObject w) (\<lambda>w. rbind (write_members m w) EndObject)"
| "write_members [] w = Inr w"
| "write_members ((k, v) # m) w = rbind (pw_Key k w) (\<lambda>w. rbind (write_json v w) (write_members m))"
| "write_elements [] w = Inr w"
| "write_elements (v # vs) w = rbind (write_json v w) (write_elements vs)"

text \<open>What can be written: the strings are not looked at.\<close>

fun writable :: "json \<Rightarrow> bool" where
  "writable (JInteger i) = (- (2 ^ 63) \<le> i \<and> i < 2 ^ 63)"
| "writable (JUnsigned n) = (n < 2 ^ 64)"
| "writable (JFloat t) = False"
| "writable (JArray vs) = (\<forall>v \<in> set vs. writable v)"
| "writable (JObject m) = (\<forall>(k, v) \<in> set m. writable v)"
| "writable _ = True"

definition newline_indent :: "nat \<Rightarrow> bytes" where
  "newline_indent n = CHR 0x0A # replicate (n * 4) (CHR '' '')"

definition pretty_layout :: layout where
  "pretty_layout = \<lparr>esc = write_char, item_ws = newline_indent, colon_ws = '' '', close_ws = newline_indent\<rparr>"

lemma pretty_layout_simps [simp]:
  "esc pretty_layout = write_char" "item_ws pretty_layout = newline_indent"
  "colon_ws pretty_layout = '' ''" "close_ws pretty_layout = newline_indent"
  by (simp_all add: pretty_layout_def)

interpretation pretty: json_layout pretty_layout
  by unfold_locales (auto simp: readable_write_char newline_indent_def is_json_ws_def list_all_iff)

text \<open>A writer with the default format.\<close>

definition default_format :: "pretty_writer \<Rightarrow> bool" where
  "default_format w \<longleftrightarrow> indentChar w = CHR '' '' \<and> indentCharCount w = 4 \<and> \<not> singleLineArray w"

lemma put_simps [simp]:
  "put as (put bs w) = put (bs @ as) w" "level_stack (put bs w) = level_stack w" "os (put bs w) = os w @ bs"
  "default_format (put bs w) = default_format w" "put [] w = w" "hasRoot (put bs w) = hasRoot w"
  "singleLineArray (put bs w) = singleLineArray w"
  "level_stack_update f (put bs w) = put bs (level_stack_update f w)"
  by (simp_all add: put_def default_format_def)

lemma default_format_stack [simp]:
  "default_format (w\<lparr>level_stack := s\<rparr>) = default_format w" "default_format (w\<lparr>hasRoot := b\<rparr>) = default_format w"
  by (simp_all add: default_format_def)

lemma default_formatD: "default_format w \<Longrightarrow> \<not> singleLineArray w"
  by (simp add: default_format_def)

lemma WriteIndent_default:
  "default_format w \<Longrightarrow> WriteIndent w = put (replicate (length (level_stack w) * 4) (CHR '' '')) w"
  by (simp add: WriteIndent_def default_format_def)

text \<open>What the prefix of a value does: nothing at the root, the separators inside.\<close>

definition prefixed :: "pretty_writer \<Rightarrow> pretty_writer \<Rightarrow> bool" where
  "prefixed w w1 \<longleftrightarrow> (\<forall>type. PrettyPrefix type w = Inr w1) \<and> default_format w1"

lemma WriteString_quote: "WriteString s w = put (CHR 0x22 # quote_with write_char s @ [CHR 0x22]) w"
  by (simp add: WriteString_def quote_with_def)

lemma i64toa_word_of_int:
  "- (2 ^ 63) \<le> i \<Longrightarrow> i < 2 ^ 63 \<Longrightarrow> i64toa (word_of_int i) = to_string_int i"
  by (simp add: i64toa_eq signed_of_int signed_take_bit_int_eq_self)

lemma u64toa_of_nat: "n < 2 ^ 64 \<Longrightarrow> u64toa (of_nat n) = to_string_nat n"
  by (simp add: u64toa_eq unsigned_of_nat take_bit_nat_eq_self)

text \<open>The prefixes and the ends, one by one.\<close>

lemma prefixed_member:
  assumes "default_format w" "level_stack w = \<lparr>valueCount = c, inArray = False\<rparr> # below"
  shows "even c \<Longrightarrow> PrettyPrefix kStringType w =
      Inr (put ((if 0 < c then '','' else []) @ newline_indent (length (level_stack w)))
        (w\<lparr>level_stack := \<lparr>valueCount = c + 1, inArray = False\<rparr> # below\<rparr>))"
    and "odd c \<Longrightarrow> prefixed w (put '': '' (w\<lparr>level_stack := \<lparr>valueCount = c + 1, inArray = False\<rparr> # below\<rparr>))"
  using assms
  by (auto simp: PrettyPrefix_def prefixed_def WriteIndent_default newline_indent_def Let_def elim: oddE)

lemma prefixed_element:
  assumes "default_format w" "level_stack w = \<lparr>valueCount = c, inArray = True\<rparr> # below"
  shows "prefixed w (put ((if 0 < c then '','' else []) @ newline_indent (length (level_stack w)))
        (w\<lparr>level_stack := \<lparr>valueCount = c + 1, inArray = True\<rparr> # below\<rparr>))"
  using assms default_formatD [OF assms(1)]
  by (auto simp: PrettyPrefix_def prefixed_def WriteIndent_default newline_indent_def Let_def)

text \<open>The containers: what their brackets enclose, once the elements or members are known to be written.\<close>

lemma write_array_text:
  assumes "prefixed w w1"
    and "write_elements vs (put [CHR 0x5B] (push_level True w1)) =
      Inr (put (if vs = [] then [] else lay_elements pretty_layout (Suc (length (level_stack w1))) vs)
        ((put [CHR 0x5B] (push_level True w1))\<lparr>level_stack :=
          \<lparr>valueCount = length vs, inArray = True\<rparr> # level_stack w1\<rparr>))"
  shows "write_json (JArray vs) w = Inr (put (lay_text pretty_layout (length (level_stack w1)) (JArray vs)) w1)"
proof -
  have w1: "PrettyPrefix type w = Inr w1" "default_format w1" for type
    using assms(1) by (simp_all add: prefixed_def)
  then show ?thesis using assms(2) default_formatD [OF w1(2)]
    by (auto simp: StartArray_def EndArray_def push_level_def WriteIndent_default newline_indent_def Let_def)
qed

lemma write_object_text:
  assumes "prefixed w w1"
    and "write_members m (put [CHR 0x7B] (push_level False w1)) =
      Inr (put (if m = [] then [] else lay_members pretty_layout (Suc (length (level_stack w1))) m)
        ((put [CHR 0x7B] (push_level False w1))\<lparr>level_stack :=
          \<lparr>valueCount = 2 * length m, inArray = False\<rparr> # level_stack w1\<rparr>))"
  shows "write_json (JObject m) w = Inr (put (lay_text pretty_layout (length (level_stack w1)) (JObject m)) w1)"
proof -
  have w1: "PrettyPrefix type w = Inr w1" "default_format w1" for type
    using assms(1) by (simp_all add: prefixed_def)
  then show ?thesis using assms(2)
    by (auto simp: StartObject_def EndObject_def push_level_def WriteIndent_default newline_indent_def Let_def)
qed

lemma started_array: "PrettyPrefix kArrayType w = Inr w1 \<Longrightarrow> StartArray w = Inr (put [CHR 0x5B] (push_level True w1))"
  by (simp add: StartArray_def)

lemma started_object: "PrettyPrefix kObjectType w = Inr w1 \<Longrightarrow> StartObject w = Inr (put [CHR 0x7B] (push_level False w1))"
  by (simp add: StartObject_def)

lemma write_json_text:
  "writable j \<Longrightarrow> prefixed w w1 \<Longrightarrow>
     write_json j w = Inr (put (lay_text pretty_layout (length (level_stack w1)) j) w1)"
  "\<forall>(k, v) \<in> set m. writable v \<Longrightarrow> default_format w \<Longrightarrow>
   level_stack w = \<lparr>valueCount = c, inArray = False\<rparr> # below \<Longrightarrow> even c \<Longrightarrow>
     write_members m w = Inr (put (if m = [] then [] else
         (if 0 < c then '','' else []) @ lay_members pretty_layout (length (level_stack w)) m)
       (w\<lparr>level_stack := \<lparr>valueCount = c + 2 * length m, inArray = False\<rparr> # below\<rparr>))"
  "\<forall>v \<in> set vs. writable v \<Longrightarrow> default_format w \<Longrightarrow>
   level_stack w = \<lparr>valueCount = c, inArray = True\<rparr> # below \<Longrightarrow>
     write_elements vs w = Inr (put (if vs = [] then [] else
         (if 0 < c then '','' else []) @ lay_elements pretty_layout (length (level_stack w)) vs)
       (w\<lparr>level_stack := \<lparr>valueCount = c + length vs, inArray = True\<rparr> # below\<rparr>))"
proof (induction j w and m w and vs w arbitrary: w1 and c below and c below
    rule: write_json_write_members_write_elements.induct)
  case (7 vs w)
  then have "StartArray w = Inr (put [CHR 0x5B] (push_level True w1))"
    by (intro started_array) (simp add: prefixed_def)
  from "7.IH" [OF this, of 0 "level_stack w1"] "7.prems" show ?case
    by (intro write_array_text) (simp_all add: prefixed_def push_level_def)
next
  case (8 m w)
  then have "StartObject w = Inr (put [CHR 0x7B] (push_level False w1))"
    by (intro started_object) (simp add: prefixed_def)
  from "8.IH" [OF this, of 0 "level_stack w1"] "8.prems" show ?case
    by (intro write_object_text) (fastforce simp: prefixed_def push_level_def)+
next
  case (10 k v m w)
  let ?w1 = "put ((if 0 < c then '','' else []) @ newline_indent (length (level_stack w)) @
      CHR 0x22 # quote_with write_char k @ [CHR 0x22]) (w\<lparr>level_stack := \<lparr>valueCount = c + 1, inArray = False\<rparr> # below\<rparr>)"
  let ?w2 = "put '': '' (?w1\<lparr>level_stack := \<lparr>valueCount = c + 1 + 1, inArray = False\<rparr> # below\<rparr>)"
  have key: "pw_Key k w = Inr ?w1"
    using prefixed_member(1) [OF "10.prems"(2-4)] by (simp add: pw_Key_def pw_String_def WriteString_quote)
  have "prefixed ?w1 ?w2"
    using "10.prems" by (intro prefixed_member(2)) simp_all
  then have val: "write_json v ?w1 = Inr (put (lay_text pretty_layout (length (level_stack ?w2)) v) ?w2)"
    using "10.prems"(1) by (intro "10.IH"(1) [OF key]) simp_all
  then show ?case
    using key "10.IH"(2) [OF key val, of "c + 2" below] "10.prems" by simp
next
  case (12 v vs w)
  let ?w1 = "put ((if 0 < c then '','' else []) @ newline_indent (length (level_stack w)))
        (w\<lparr>level_stack := \<lparr>valueCount = c + 1, inArray = True\<rparr> # below\<rparr>)"
  have val: "write_json v w = Inr (put (lay_text pretty_layout (length (level_stack ?w1)) v) ?w1)"
    using "12.IH"(1) [OF _ prefixed_element [OF "12.prems"(2,3)]] "12.prems"(1) by simp
  then show ?case
    using "12.IH"(2) [OF val, of "c + 1" below] "12.prems" by simp
qed (simp_all add: prefixed_def pw_Null_def pw_Bool_def pw_Int64_def pw_Uint64_def pw_String_def i64toa_word_of_int
    u64toa_of_nat WriteString_quote)

lemma prefixed_new: "prefixed new_pretty_writer (new_pretty_writer\<lparr>hasRoot := True\<rparr>)"
  by (simp add: prefixed_def PrettyPrefix_def new_pretty_writer_def default_format_def)

lemma write_json_new:
  "writable j \<Longrightarrow> write_json j new_pretty_writer =
     Inr (new_pretty_writer\<lparr>os := lay_text pretty_layout 0 j, hasRoot := True\<rparr>)"
  using write_json_text(1) [OF _ prefixed_new] by (simp add: put_def new_pretty_writer_def)

text \<open>C35: one library's writer against the other's parser. Whatever document without floating point
  numbers \<open>PrettyWriter\<close> writes, no assertion of the writer fails, and nlohmann's parser accepts the
  text: indentation, spaces, capital hexadecimal escapes and all. What it gives is the document with
  the members of its objects inserted one by one: in order of the keys, and with the last value of a
  repeated key; a document that is in this form already comes back as it is.\<close>

theorem pretty_text_parses_back:
  assumes "json_ok j" "writable j"
  shows "\<exists>w. write_json j new_pretty_writer = Inr w \<and> level_stack w = [] \<and>
    json_parse (os w) = Inr (parsed j) \<and> (json_wf j \<longrightarrow> parsed j = j)"
  using write_json_new [OF assms(2)] pretty.json_parse_lay_text [OF assms(1)] json_wf_parsed
  by (simp add: new_pretty_writer_def)

lemma pretty_text_parses_back_witness:
  "\<exists>w. write_json (JObject [(''b'', JInteger (-7)), (''a'', JArray [JNull, JString [CHR 0x01]])]) new_pretty_writer = Inr w \<and>
     json_parse (os w) = Inr (JObject [(''a'', JArray [JNull, JString [CHR 0x01]]), (''b'', JInteger (-7))])"
proof -
  have "json_ok (JObject [(''b'', JInteger (-7)), (''a'', JArray [JNull, JString [CHR 0x01]])])"
    by (simp add: utf8_valid_def utf8_ranges_def)
  from pretty_text_parses_back [OF this] show ?thesis
    by (auto simp: obj_assign_def less_char_def)
qed

end
