(* ===== verification/Json_Rejects.thy ===== *)
theory Json_Rejects
  imports Rapidjson_Writer
begin

text \<open>
  What the parser does with a string that is no UTF-8 text. The scanner checks every byte
  against the ranges its predecessors allow, so the first byte that does not fit, or the closing
  quote in the middle of a character, is a parse error, wherever it stands in an object and
  whatever comes behind it.
\<close>

section \<open>The scanner\<close>

text \<open>An escaping that keeps ASCII and other bytes apart.\<close>

definition ascii_escape :: "(byte \<Rightarrow> bytes) \<Rightarrow> bool" where
  "ascii_escape escaping \<longleftrightarrow> (\<forall>c. byte_val c \<le> 0x7F \<longrightarrow> (\<exists>d ds. escaping c = d # ds \<and> byte_val d \<le> 0x7F))"

lemma ascii_escape_byte: "ascii_escape escape_byte"
  by (simp add: ascii_escape_def escape_byte_def u_escape_def Let_def)

lemma ascii_write_char: "ascii_escape write_char"
  unfolding ascii_escape_def
proof (intro allI impI)
  fix c :: byte
  assume "byte_val c \<le> 0x7F"
  then have "\<exists>d ds. escape_byte c = d # ds \<and> byte_val d \<le> 0x7F" using ascii_escape_byte by (simp add: ascii_escape_def)
  then show "\<exists>d ds. write_char c = d # ds \<and> byte_val d \<le> 0x7F"
    by (cases c rule: write_char_cases) auto
qed

text \<open>The bytes of a character that does not go on as it must.\<close>

lemma escaped_reads:
  assumes "readable_escape escaping" "ascii_escape escaping" "reads lx (quote_with escaping s @ CHR 0x22 # rest)"
  obtains (low) d ds where "reads lx (d # ds)" "byte_val d \<le> 0x7F"
    | (high) b bs where "s = b # bs" "\<not> byte_val b \<le> 0x7F" "reads lx (b # quote_with escaping bs @ CHR 0x22 # rest)"
proof (cases s)
  case Nil
  then show thesis using assms(3) by (intro low [of "CHR 0x22" rest]) simp_all
next
  case (Cons b bs)
  show thesis
  proof (cases "byte_val b \<le> 0x7F")
    case True
    then obtain d ds where "escaping b = d # ds" "byte_val d \<le> 0x7F" using assms(2) by (auto simp: ascii_escape_def)
    then show thesis using assms(3) Cons by (intro low [of d "ds @ quote_with escaping bs @ CHR 0x22 # rest"]) simp_all
  next
    case False
    then show thesis using assms(1,3) Cons by (intro high [OF Cons]) (simp_all add: readable_escape_def)
  qed
qed

lemma next_bytes_stop: "reads lx (d # ds) \<Longrightarrow> \<not> in_range r d \<Longrightarrow> \<not> fst (next_bytes_loop (r # rs) lx)"
  by (cases r) (auto simp: in_range_def)

lemma next_bytes_rejects:
  assumes "readable_escape escaping" "ascii_escape escaping" "\<forall>r \<in> set rs. 0x80 \<le> fst r"
    and "\<not> (\<exists>ms s'. s = ms @ s' \<and> list_all2 in_range rs ms)" "reads lx (quote_with escaping s @ CHR 0x22 # rest)"
  shows "\<not> fst (next_bytes_loop rs lx)"
  using assms(3-5)
proof (induction rs arbitrary: s lx)
  case Nil
  then show ?case by simp
next
  case (Cons r rs)
  show ?case
  proof (cases rule: escaped_reads [OF assms(1,2) Cons.prems(3)])
    case (1 d ds)
    then show ?thesis using Cons.prems(1) by (intro next_bytes_stop [OF 1(1)]) (auto simp: in_range_def split_beta)
  next
    case (2 b bs)
    show ?thesis
    proof (cases "in_range r b")
      case True
      have "\<not> (\<exists>ms s'. bs = ms @ s' \<and> list_all2 in_range rs ms)"
        using Cons.prems(2) 2(1) True by (metis append_Cons list_all2_Cons)
      moreover have "reads (lex_add (lex_get lx) b) (quote_with escaping bs @ CHR 0x22 # rest)"
        using 2(3) by (simp add: reads_get)
      ultimately have "\<not> fst (next_bytes_loop rs (lex_add (lex_get lx) b))"
        using Cons.prems(1) by (intro Cons.IH) simp_all
      then show ?thesis using 2(3) by (cases r) (auto simp: in_range_def Let_def)
    qed (rule next_bytes_stop [OF 2(3)])
  qed
qed

text \<open>The string as a whole: a step reads a character of the string, after which what is wrong is still
  ahead, or it is the step that stops.\<close>

lemma utf8_run_append_bad: "list_all2 in_range rs ms \<Longrightarrow> utf8_run rs (ms @ s) = utf8_run [] s"
proof (induction rs ms rule: list_all2_induct)
  case (Cons r rs m ms)
  then show ?case by (cases r) (simp add: in_range_def)
qed simp

lemma scan_string_step_invalid:
  assumes esc: "readable_escape escaping" "ascii_escape escaping" and bad: "\<not> utf8_valid (c # cs)"
    and lx: "reads lx (quote_with escaping (c # cs) @ CHR 0x22 # rest)"
  obtains (stops) "fst (scan_string_loop lx) = parse_error"
    | (reads) l ms s' where "scan_string_step lx = (None, l)" "reads l (quote_with escaping s' @ CHR 0x22 # rest)"
      "cs = ms @ s'" "\<not> utf8_valid s'"
proof (cases "byte_val c \<le> 0x7F")
  case True
  then have "\<not> utf8_valid cs" using bad by (simp add: utf8_valid_def)
  moreover obtain l where "scan_string_step lx = (None, l)" "reads l (quote_with escaping cs @ CHR 0x22 # rest)"
    using lx esc(1) True unfolding readable_escape_def by fastforce
  ultimately show thesis using reads [of l cs "[]"] by simp
next
  case False
  then have high: "c \<noteq> CHR 0x22" "c \<noteq> CHR 0x5C" "0x80 \<le> byte_val c" by auto
  have lx: "reads lx (c # quote_with escaping cs @ CHR 0x22 # rest)"
    using lx esc(1) high by (simp add: readable_escape_def)
  show thesis
  proof (cases "utf8_ranges (byte_val c)")
    case None
    then show thesis
      using lx high by (intro stops) (simp add: scan_string_loop.simps [of lx] scan_string_step_def step_error_def)
  next
    case (Some rs)
    note rs = utf8_ranges_high [OF Some high(3)]
    show thesis
    proof (cases "\<exists>ms s'. cs = ms @ s' \<and> list_all2 in_range rs ms")
      case True
      then obtain ms s' where ms: "cs = ms @ s'" "list_all2 in_range rs ms" by blast
      have "quote_with escaping ms = ms"
        using in_range_high [OF ms(2) rs] esc(1) by (intro quote_with_high) auto
      then have "reads lx (c # ms @ quote_with escaping s' @ CHR 0x22 # rest)" using lx ms(1) by simp
      then obtain l where "scan_string_step lx = (None, l)" "reads l (quote_with escaping s' @ CHR 0x22 # rest)"
        using scan_string_step_multibyte [OF _ high(3) Some ms(2)] by blast
      moreover have "\<not> utf8_valid s'"
        using bad Some high(3) utf8_run_append_bad [OF ms(2), of s'] ms(1) by (simp add: utf8_valid_def)
      ultimately show thesis using reads ms(1) by blast
    next
      case False
      have "\<not> fst (next_bytes_loop rs (lex_add (lex_get lx) c))"
        using next_bytes_rejects [OF esc rs False, of "lex_add (lex_get lx) c" rest] lx by (simp add: reads_get)
      then show thesis
        using lx high Some by (intro stops) (simp add: scan_string_loop.simps [of lx] scan_string_step_def
            next_byte_in_range_def split_beta split: bool.split)
    qed
  qed
qed

lemma scan_string_loop_rejects:
  assumes "readable_escape escaping" "ascii_escape escaping" "\<not> utf8_valid s"
    and "reads lx (quote_with escaping s @ CHR 0x22 # rest)"
  shows "fst (scan_string_loop lx) = parse_error"
  using assms(3,4)
proof (induction s arbitrary: lx rule: length_induct)
  case (1 s)
  obtain c cs where s: "s = c # cs" using "1.prems"(1) by (cases s) (auto simp: utf8_valid_def)
  show ?case
  proof (cases rule: scan_string_step_invalid [OF assms(1,2) "1.prems" [unfolded s]])
    case (2 l ms s')
    then have "fst (scan_string_loop l) = parse_error"
      using s by (intro "1.IH" [rule_format, of s' l]) simp_all
    then show ?thesis using 2(1) by (simp add: scan_string_loop.simps [of lx])
  qed
qed

section \<open>The parser\<close>

lemma scan_string_rejects:
  assumes "readable_escape escaping" "ascii_escape escaping" "\<not> utf8_valid s"
    and "reads lx (CHR 0x22 # quote_with escaping s @ CHR 0x22 # rest)"
  shows "fst (scan lx) = parse_error"
proof -
  obtain l where l: "scan lx = scan_token l" "starts l (CHR 0x22) (quote_with escaping s @ CHR 0x22 # rest)"
    using scan_starts [OF assms(4)] by (auto simp: is_json_ws_def)
  then have "scan_token l = scan_string_loop (lex_reset l)"
    by (simp add: starts_def scan_token_def scan_string_def)
  then show ?thesis
    using scan_string_loop_rejects [OF assms(1-3), of "lex_reset l" rest] l by (simp add: starts_def)
qed

text \<open>Layouts whose escaping also keeps ASCII apart.\<close>

locale ascii_layout = json_layout +
  assumes ascii: "ascii_escape (esc L)"
begin

lemma bad_string_value:
  assumes "before p (CHR 0x22 # quote_with (esc L) s @ CHR 0x22 # rest)" "\<not> utf8_valid s"
  shows "sax_parse_loop (get_token p) = Inl (Json_parse_error 101)"
proof -
  obtain lx where lx: "reads lx (CHR 0x22 # quote_with (esc L) s @ CHR 0x22 # rest)" "scan lx = scan (m_lexer p)"
      "\<not> skip_to_state_evaluation p"
    using assms(1) by (auto simp: before_def)
  then have "last_token (get_token p) = parse_error" "\<not> skip_to_state_evaluation (get_token p)"
    using scan_string_rejects [OF esc ascii assms(2) lx(1)] by (simp_all add: get_token_def split_beta)
  then show ?thesis
    by (simp add: sax_parse_loop.simps [of "get_token p"] sax_parse_step_def parse_value_def sax_parse_error_def)
qed

text \<open>From the value of a member up to a member, behind it, whose value is a bad string.\<close>

lemma bad_member:
  assumes "\<forall>(k', w) \<in> set ((k, v) # m'). utf8_valid k' \<and> json_ok w" "lens r F"
    and "before p (lay_text L n v @ CHR '','' # lay_members L n (m' @ (b, JString s) # m'') @ rest)"
    and "sax p = \<lparr>root = F (JObject (obj_emplace k JNull m)), ref_stack = r # rs, object_element = Some (r @ [Key k])\<rparr>"
    and "states p = False # sts" "utf8_valid b" "\<not> utf8_valid s"
  shows "sax_parse_loop (get_token p) = Inl (Json_parse_error 101)"
  using assms(1-5)
proof (induction m' arbitrary: k v m p)
  case Nil
  let ?text = "CHR 0x22 # quote_with (esc L) s @ CHR 0x22 # (if m'' = [] then [] else CHR '','' # lay_members L n m'') @ rest"
  have "parses L v" "before p (lay_text L n v @ CHR '','' # item_ws L n @
      CHR 0x22 # quote_with (esc L) b @ CHR 0x22 # CHR '':'' # colon_ws L @ ?text)"
    using Nil.prems(1,3) parses_ok by simp_all
  then obtain p2 where "sax_parse_loop (get_token p) = sax_parse_loop (get_token p2)" "before p2 ?text"
    using parse_next_member [OF _ Nil.prems(2) assms(6) _ Nil.prems(4,5)] by blast
  then show ?case using bad_string_value [OF _ assms(7)] by simp
next
  case (Cons a m')
  obtain k2 v2 where a: "a = (k2, v2)" by (cases a)
  let ?text = "lay_text L n v2 @ CHR '','' # lay_members L n (m' @ (b, JString s) # m'') @ rest"
  have "parses L v" "utf8_valid k2" "before p (lay_text L n v @ CHR '','' # item_ws L n @
      CHR 0x22 # quote_with (esc L) k2 @ CHR 0x22 # CHR '':'' # colon_ws L @ ?text)"
    using Cons.prems(1,3) parses_ok a by simp_all
  then obtain p2 where "sax_parse_loop (get_token p) = sax_parse_loop (get_token p2)" "before p2 ?text"
      "states p2 = False # sts" "sax p2 = \<lparr>root = F (JObject (obj_emplace k2 JNull (obj_assign k (parsed v) m))),
         ref_stack = r # rs, object_element = Some (r @ [Key k2])\<rparr>"
    using parse_next_member [OF _ Cons.prems(2) _ _ Cons.prems(4,5)] by blast
  then show ?case using Cons.IH [of k2 v2 p2] Cons.prems(1,2) a by simp
qed

text \<open>An object with such a member, whatever members stand before it.\<close>

lemma json_parse_bad_string:
  assumes "\<forall>(k, v) \<in> set m. utf8_valid k \<and> json_ok v" "utf8_valid b" "\<not> utf8_valid s"
  shows "json_parse (lay_text L n (JObject (m @ (b, JString s) # m'))) = Inl (Json_parse_error 101)"
proof -
  let ?j = "JObject (m @ (b, JString s) # m')"
  define p where "p = \<lparr>m_lexer = new_lexer (lay_text L n ?j), last_token = uninitialized, sax = new_dom,
     states = [], skip_to_state_evaluation = False\<rparr>"
  have p: "before p (lay_text L n ?j)" "hole (sax p) [] (\<lambda>v. v)" "states p = []"
    using reads_new_lexer hole_new_dom by (simp_all add: before_reads p_def)
  let ?tail = "close_ws L n @ [CHR 0x7D]"
  have "sax_parse_loop (get_token p) = Inl (Json_parse_error 101)"
  proof (cases m)
    case Nil
    let ?text = "CHR 0x22 # quote_with (esc L) s @ CHR 0x22 # (if m' = [] then [] else CHR '','' # lay_members L (Suc n) m') @ ?tail"
    have "before p (CHR 0x7B # item_ws L (Suc n) @ CHR 0x22 # quote_with (esc L) b @ CHR 0x22 # CHR '':'' # colon_ws L @ ?text)"
      using p(1) Nil by simp
    then obtain q where "sax_parse_loop (get_token p) = sax_parse_loop (get_token q)" "before q ?text"
      using parse_first_member [OF _ p(2) assms(2)] by blast
    then show ?thesis using bad_string_value [OF _ assms(3)] by simp
  next
    case (Cons a ms)
    obtain k v where a: "a = (k, v)" by (cases a)
    let ?text = "lay_text L (Suc n) v @ CHR '','' # lay_members L (Suc n) (ms @ (b, JString s) # m') @ ?tail"
    have "before p (CHR 0x7B # item_ws L (Suc n) @ CHR 0x22 # quote_with (esc L) k @ CHR 0x22 # CHR '':'' # colon_ws L @ ?text)"
        "utf8_valid k"
      using p(1) assms(1) Cons a by simp_all
    then obtain q where q: "sax_parse_loop (get_token p) = sax_parse_loop (get_token q)" "before q ?text"
        "states q = False # states p" "sax q = \<lparr>root = JObject (obj_emplace k JNull []),
           ref_stack = [] # ref_stack (sax p), object_element = Some ([] @ [Key k])\<rparr>"
      using parse_first_member [OF _ p(2)] by blast
    then show ?thesis
      using bad_member [OF _ hole_lens [OF p(2)] q(2,4,3) assms(2,3)] assms(1) Cons a by auto
  qed
  moreover have "new_parser (lay_text L n ?j) = get_token p" unfolding new_parser_def p_def ..
  ultimately show ?thesis by (simp add: json_parse_def del: lay_text.simps)
qed

end

interpretation compact: ascii_layout compact_layout
  by unfold_locales (simp add: compact_layout_def ascii_escape_byte)

interpretation pretty: ascii_layout pretty_layout
  by unfold_locales (simp add: ascii_write_char)

end
