(* ===== verification/Zmq_Client.thy ===== *)
theory Zmq_Client
  imports Json_Rejects Zmq_Server
begin

text \<open>
  \<^verbatim>\<open>lib/zclient/zmq_client.cpp\<close>: the interactive client. A request is ten lines of input,
  cut into the fixed fields of \<open>nums_msg\<close> (\<^verbatim>\<open>include/zclient/common.hpp\<close>) and written by
  rapidjson's \<open>PrettyWriter\<close>. The lines are the input of the program; the socket is an argument, as
  for the server, except that \<open>recv\<close> has no timeout here and may not return.
\<close>

section \<open>Requests\<close>

definition NUMS_H_MSG_TYPE_LEN :: nat where "NUMS_H_MSG_TYPE_LEN = 3"
definition NUMS_H_ACTION_CODE_LEN :: nat where "NUMS_H_ACTION_CODE_LEN = 2"
definition NUMS_CID_LEN :: nat where "NUMS_CID_LEN = 12"
definition NUMS_TIME_LEN :: nat where "NUMS_TIME_LEN = 11"
definition NUMS_SERVICE_NAME_LEN :: nat where "NUMS_SERVICE_NAME_LEN = 32"
definition NUMS_INFO_RATE_LEN :: nat where "NUMS_INFO_RATE_LEN = 11"
definition NUMS_BODY_COMMON_LEN :: nat where "NUMS_BODY_COMMON_LEN = 2"

lemmas nums_lengths = NUMS_H_MSG_TYPE_LEN_def NUMS_H_ACTION_CODE_LEN_def NUMS_CID_LEN_def NUMS_TIME_LEN_def
  NUMS_SERVICE_NAME_LEN_def NUMS_INFO_RATE_LEN_def NUMS_BODY_COMMON_LEN_def

record nums_msg =
  m_msg_type :: bytes
  m_action_code :: bytes
  m_cid :: bytes
  m_s_time :: bytes
  m_e_time :: bytes
  m_service_name :: bytes
  m_info_rate :: bytes
  m_body_msg_type :: bytes
  m_bill_type :: bytes
  m_bill_limit :: bytes

text \<open>After \<open>memset\<close>.\<close>

definition zero_msg :: nums_msg where
  "zero_msg = \<lparr>m_msg_type = zeros NUMS_H_MSG_TYPE_LEN, m_action_code = zeros NUMS_H_ACTION_CODE_LEN,
     m_cid = zeros NUMS_CID_LEN, m_s_time = zeros NUMS_TIME_LEN, m_e_time = zeros NUMS_TIME_LEN,
     m_service_name = zeros NUMS_SERVICE_NAME_LEN, m_info_rate = zeros NUMS_INFO_RATE_LEN,
     m_body_msg_type = zeros NUMS_BODY_COMMON_LEN, m_bill_type = zeros NUMS_BODY_COMMON_LEN,
     m_bill_limit = zeros NUMS_BODY_COMMON_LEN\<rparr>"

text \<open>\<open>std::getline (std::cin, input)\<close>; at the end of the input (which ends with
  a line break) the text is left empty, and the failure goes unnoticed.\<close>

definition getline_cin :: "bytes list \<Rightarrow> bytes \<times> bytes list" where
  "getline_cin cin = (case cin of [] \<Rightarrow> ([], []) | l # ls \<Rightarrow> (l, ls))"

definition read_fields :: "bytes list \<Rightarrow> nums_msg \<times> bytes list" where
  "read_fields cin =
     (let msg = zero_msg;
          (inp, cin) = getline_cin cin; msg = msg\<lparr>m_msg_type := snprintf_s (m_msg_type msg) inp\<rparr>;
          (inp, cin) = getline_cin cin; msg = msg\<lparr>m_action_code := snprintf_s (m_action_code msg) inp\<rparr>;
          (inp, cin) = getline_cin cin; msg = msg\<lparr>m_cid := snprintf_s (m_cid msg) inp\<rparr>;
          (inp, cin) = getline_cin cin; msg = msg\<lparr>m_s_time := snprintf_s (m_s_time msg) inp\<rparr>;
          (inp, cin) = getline_cin cin; msg = msg\<lparr>m_e_time := snprintf_s (m_e_time msg) inp\<rparr>;
          (inp, cin) = getline_cin cin; msg = msg\<lparr>m_service_name := snprintf_s (m_service_name msg) inp\<rparr>;
          (inp, cin) = getline_cin cin; msg = msg\<lparr>m_info_rate := snprintf_s (m_info_rate msg) inp\<rparr>;
          (inp, cin) = getline_cin cin; msg = msg\<lparr>m_body_msg_type := snprintf_s (m_body_msg_type msg) inp\<rparr>;
          (inp, cin) = getline_cin cin; msg = msg\<lparr>m_bill_type := snprintf_s (m_bill_type msg) inp\<rparr>;
          (inp, cin) = getline_cin cin; msg = msg\<lparr>m_bill_limit := snprintf_s (m_bill_limit msg) inp\<rparr>
      in (msg, cin))"

text \<open>A key and its field, which is written up to its NUL.\<close>

definition write_field :: "bytes \<Rightarrow> bytes \<Rightarrow> pretty_writer \<Rightarrow> pretty_writer result" where
  "write_field name fld w = rbind (pw_Key name w) (pw_String (until_nul fld))"

definition write_msg :: "nums_msg \<Rightarrow> pretty_writer result" where
  "write_msg msg =
     rbind (StartObject new_pretty_writer) (\<lambda>w.
     rbind (write_field ''msg_type'' (m_msg_type msg) w) (\<lambda>w.
     rbind (write_field ''action_code'' (m_action_code msg) w) (\<lambda>w.
     rbind (write_field ''cid'' (m_cid msg) w) (\<lambda>w.
     rbind (write_field ''s_time'' (m_s_time msg) w) (\<lambda>w.
     rbind (write_field ''e_time'' (m_e_time msg) w) (\<lambda>w.
     rbind (write_field ''service_name'' (m_service_name msg) w) (\<lambda>w.
     rbind (write_field ''info_rate'' (m_info_rate msg) w) (\<lambda>w.
     rbind (write_field ''body_msg_type'' (m_body_msg_type msg) w) (\<lambda>w.
     rbind (write_field ''bill_type'' (m_bill_type msg) w) (\<lambda>w.
     rbind (write_field ''bill_limit'' (m_bill_limit msg) w) EndObject))))))))))"

text \<open>\<open>input_msg\<close>: the text in the buffer, and the input that is left.\<close>

definition input_msg :: "bytes list \<Rightarrow> bytes result \<times> bytes list" where
  "input_msg cin = (let (msg, cin) = read_fields cin in (rbind (write_msg msg) (\<lambda>w. Inr (os w)), cin))"

text \<open>A round of \<open>start\<close>: send the request, wait for the reply. Nothing catches what is thrown; \<open>None\<close>
  of the blocking \<open>recv\<close> is that no message ever comes.\<close>

type_synonym 's blocking_recv = "'s \<Rightarrow> ((int + bytes) \<times> 's) option"

definition client_round ::
  "'s blocking_recv \<Rightarrow> 's msg_send \<Rightarrow> bytes list \<Rightarrow> 's \<Rightarrow> (bytes option \<times> bytes list \<times> 's) run" where
  "client_round msg_recv msg_send cin s =
     (let (txt, cin) = input_msg cin in
      run_bind (lift_run txt) (\<lambda>buf.
        let (ret, s) = socket_send msg_send buf s in
        run_bind (lift_run ret) (\<lambda>ret.
          case msg_recv s of
            None \<Rightarrow> Hangs
          | Some r \<Rightarrow> (let (reply, s) = socket_recv (\<lambda>s. r) s in
              run_bind (lift_run reply) (\<lambda>reply. Returns (reply, cin, s))))))"

text \<open>The loop of \<open>start\<close> until the stop request, with the replies it prints; a failed \<open>recv\<close> prints
  an empty one.\<close>

fun client_rounds ::
  "nat \<Rightarrow> 's blocking_recv \<Rightarrow> 's msg_send \<Rightarrow> bytes list \<Rightarrow> 's \<Rightarrow> (bytes list \<times> bytes list \<times> 's) run" where
  "client_rounds 0 msg_recv msg_send cin s = Returns ([], cin, s)"
| "client_rounds (Suc n) msg_recv msg_send cin s =
     run_bind (client_round msg_recv msg_send cin s) (\<lambda>(reply, cin, s).
       run_bind (client_rounds n msg_recv msg_send cin s) (\<lambda>(printed, cin, s).
         Returns ((case reply of None \<Rightarrow> [] | Some r \<Rightarrow> r) # printed, cin, s)))"

section \<open>The text of a request\<close>

definition msg_members :: "nums_msg \<Rightarrow> (bytes \<times> bytes) list" where
  "msg_members msg = [(''msg_type'', until_nul (m_msg_type msg)), (''action_code'', until_nul (m_action_code msg)),
     (''cid'', until_nul (m_cid msg)), (''s_time'', until_nul (m_s_time msg)), (''e_time'', until_nul (m_e_time msg)),
     (''service_name'', until_nul (m_service_name msg)), (''info_rate'', until_nul (m_info_rate msg)),
     (''body_msg_type'', until_nul (m_body_msg_type msg)), (''bill_type'', until_nul (m_bill_type msg)),
     (''bill_limit'', until_nul (m_bill_limit msg))]"

definition msg_object :: "(bytes \<times> bytes) list \<Rightarrow> json" where
  "msg_object ms = JObject (map (\<lambda>(k, v). (k, JString v)) ms)"

lemma write_msg_json: "write_msg msg = write_json (msg_object (msg_members msg)) new_pretty_writer"
  by (simp add: write_msg_def write_field_def msg_object_def msg_members_def rbind_assoc)

lemma writable_msg_object: "writable (msg_object ms)"
  by (auto simp: msg_object_def)

text \<open>The client always writes its request, whatever the lines are.\<close>

lemma input_msg_text:
  "read_fields cin = (msg, rest) \<Longrightarrow>
   input_msg cin = (Inr (lay_text pretty_layout 0 (msg_object (msg_members msg))), rest)"
  by (simp add: input_msg_def write_msg_json write_json_new writable_msg_object)

lemma utf8_valid_keys: "\<forall>(k, v) \<in> set (msg_members msg). utf8_valid k"
  by (simp add: msg_members_def utf8_valid_ascii)

lemma json_parse_msg:
  assumes "\<forall>(k, v) \<in> set (msg_members msg). utf8_valid v"
  shows "json_parse (lay_text pretty_layout 0 (msg_object (msg_members msg))) =
    Inr (JObject (assign_members (map (\<lambda>(k, v). (k, JString v)) (msg_members msg)) []))"
proof -
  have "json_ok (msg_object (msg_members msg))"
    using assms utf8_valid_keys [of msg] by (fastforce simp: msg_object_def)
  moreover have "map (\<lambda>(k, v). (k, parsed v)) (map (\<lambda>(k, v). (k, JString v)) ms) =
      map (\<lambda>(k, v). (k, JString v)) ms" for ms :: "(bytes \<times> bytes) list"
    by (induction ms) auto
  ultimately show ?thesis
    using pretty.json_parse_lay_text [of "msg_object (msg_members msg)" 0]
    by (simp add: msg_object_def del: lay_text.simps map_map)
qed

text \<open>A message is packed when its fields have their sizes and end with a NUL, as \<open>snprintf\<close> leaves them.\<close>

definition packed :: "nat \<Rightarrow> bytes \<Rightarrow> bool" where
  "packed n fld \<longleftrightarrow> (\<exists>s. fld = snprintf_s (zeros n) s)"

lemma packed_copy: "packed n fld \<Longrightarrow> 0 < n \<Longrightarrow> memcpy_min (zeros n) (until_nul fld) = fld"
proof -
  assume "packed n fld" "0 < n"
  then obtain s where fld: "fld = snprintf_s (zeros n) s" by (auto simp: packed_def)
  let ?t = "take (n - 1) (until_nul s)"
  have t: "length ?t < n" using \<open>0 < n\<close> by (simp add: less_le_trans min_less_iff_disj)
  then have pad: "zeros (n - length ?t) = NUL # zeros (n - Suc (length ?t))"
    by (simp add: zeros_def Suc_diff_Suc flip: replicate_Suc del: length_take)
  have "fld = ?t @ NUL # zeros (n - Suc (length ?t))"
    using t by (simp add: fld snprintf_s_def memcpy_min_fits del: length_take)
  moreover have "until_nul fld = ?t" using \<open>0 < n\<close> by (simp add: fld until_nul_snprintf_s)
  moreover have "memcpy_min (zeros n) ?t = ?t @ zeros (n - length ?t)"
    using t by (simp add: memcpy_min_fits del: length_take)
  ultimately show ?thesis using pad by simp
qed

lemma read_fields_packed:
  assumes "read_fields cin = (msg, rest)"
  shows "packed 3 (m_msg_type msg)" "packed 2 (m_action_code msg)" "packed 12 (m_cid msg)" "packed 11 (m_s_time msg)"
    "packed 11 (m_e_time msg)" "packed 32 (m_service_name msg)" "packed 11 (m_info_rate msg)"
    "packed 2 (m_body_msg_type msg)" "packed 2 (m_bill_type msg)" "packed 2 (m_bill_limit msg)"
  using assms by (auto simp: read_fields_def zero_msg_def nums_lengths packed_def Let_def split_beta)

section \<open>Requests at the server\<close>

text \<open>The members of the parsed request.\<close>

lemma map_of_msg:
  fixes msg
  defines "m \<equiv> assign_members (map (\<lambda>(k, v). (k, JString v)) (msg_members msg)) []"
  shows "map_of m ''msg_type'' = Some (JString (until_nul (m_msg_type msg)))"
    and "map_of m ''action_code'' = Some (JString (until_nul (m_action_code msg)))"
    and "k \<in> set reginfo_keys \<Longrightarrow> map_of m k = Some (JString (the (map_of (msg_members msg) k)))"
proof -
  have m: "map_of m k = map_of (rev (map (\<lambda>(k, v). (k, JString v)) (msg_members msg))) k" for k
    by (simp add: m_def map_of_assign_members obj_sorted_def split: option.split)
  show "map_of m ''msg_type'' = Some (JString (until_nul (m_msg_type msg)))"
    and "map_of m ''action_code'' = Some (JString (until_nul (m_action_code msg)))"
    by (simp_all add: m msg_members_def)
  show "k \<in> set reginfo_keys \<Longrightarrow> map_of m k = Some (JString (the (map_of (msg_members msg) k)))"
    by (auto simp: m msg_members_def reginfo_keys_def)
qed

text \<open>C32: a request arrives as it was packed. Whatever the ten lines are, the client writes a request
  for them; if the message type is "3" and the fields, after they have been cut to size, are UTF-8, the
  server makes of the text the registration packet whose fields are byte for byte those of the
  client's \<open>nums_msg\<close>: type, action code, and the eight fields of the body, cut and padded alike.\<close>

theorem client_request_arrives:
  assumes "read_fields cin = (msg, rest)" "until_nul (m_msg_type msg) = ''3''"
    and "\<forall>(k, v) \<in> set (msg_members msg). utf8_valid v"
  shows "\<exists>txt p b. input_msg cin = (Inr txt, rest) \<and> packet_parse_json seq txt = (Inr p, seq + 1) \<and>
    msg_type (header p) = m_msg_type msg \<and> action_code (header p) = m_action_code msg \<and> body p = Reginfo b \<and>
    cid b = m_cid msg \<and> s_time b = m_s_time msg \<and> e_time b = m_e_time msg \<and>
    service_name b = m_service_name msg \<and> info_rate b = m_info_rate msg \<and>
    body_msg_type b = m_body_msg_type msg \<and> bill_type b = m_bill_type msg \<and> bill_limit b = m_bill_limit msg"
proof -
  let ?v = "\<lambda>k. the (map_of (msg_members msg) k)"
  have "packet_parse_json seq (lay_text pretty_layout 0 (msg_object (msg_members msg))) =
      (Inr (registration_packet seq (until_nul (m_action_code msg)) ?v), seq + 1)"
    using map_of_msg [where msg = msg] assms(2) by (intro parse_registration [OF json_parse_msg [OF assms(3)]]) auto
  moreover note packed = read_fields_packed [OF assms(1)]
  have "memcpy_min (zeros 3) ''3'' = m_msg_type msg"
    using packed_copy [OF packed(1)] assms(2) by simp
  ultimately show ?thesis
    using input_msg_text [OF assms(1)] packed [THEN packed_copy]
    by (simp add: registration_packet_def request_header_def set_msg_len_def reginfo_body_of_def msg_members_def)
qed

definition sample_lines :: "bytes list" where
  "sample_lines = [''3'', ''A'', ''#0493'', ''2026010900'', ''2026010924'', ''TEST'', ''100'', ''1'', ''2'', ''3'']"

definition sample_msg :: nums_msg where
  "sample_msg = \<lparr>m_msg_type = ''3'' @ zeros 2, m_action_code = ''A'' @ zeros 1, m_cid = ''#0493'' @ zeros 7,
     m_s_time = ''2026010900'' @ zeros 1, m_e_time = ''2026010924'' @ zeros 1, m_service_name = ''TEST'' @ zeros 28,
     m_info_rate = ''100'' @ zeros 8, m_body_msg_type = ''1'' @ zeros 1, m_bill_type = ''2'' @ zeros 1,
     m_bill_limit = ''3'' @ zeros 1\<rparr>"

lemma read_sample_lines: "read_fields sample_lines = (sample_msg, [])"
  by code_simp

lemma sample_msg_members:
  "msg_members sample_msg = [(''msg_type'', ''3''), (''action_code'', ''A''), (''cid'', ''#0493''),
     (''s_time'', ''2026010900''), (''e_time'', ''2026010924''), (''service_name'', ''TEST''), (''info_rate'', ''100''),
     (''body_msg_type'', ''1''), (''bill_type'', ''2''), (''bill_limit'', ''3'')]"
  by code_simp

lemma client_request_arrives_witness:
  "\<exists>txt p b. input_msg sample_lines = (Inr txt, []) \<and> packet_parse_json 7 txt = (Inr p, 8) \<and>
     body p = Reginfo b \<and> cid b = ''#0493'' @ zeros 7 \<and> service_name b = ''TEST'' @ zeros 28"
proof -
  have "until_nul (m_msg_type sample_msg) = ''3''" by code_simp
  moreover have "\<forall>(k, v) \<in> set (msg_members sample_msg). utf8_valid v"
    by (simp add: sample_msg_members utf8_valid_ascii)
  moreover have "m_cid sample_msg = ''#0493'' @ zeros 7" "m_service_name sample_msg = ''TEST'' @ zeros 28"
    by (simp_all add: sample_msg_def)
  ultimately show ?thesis using client_request_arrives [OF read_sample_lines, of 7] by auto
qed

text \<open>C33: a character cut in two ends the server. The fields are cut at a byte, not at a character. If
  what is left in a field is no UTF-8 although the fields before it are, the client writes the text
  all the same, but the server's parser refuses it; the request stays unanswered, and under the rule of
  reply sockets the server's next \<open>recv\<close> throws, which ends the process.\<close>

theorem cut_character_ends_server:
  assumes "read_fields cin = (msg, rest)"
    and "msg_members msg = pre @ (k, bad) # post" "\<forall>(k, v) \<in> set pre. utf8_valid v" "\<not> utf8_valid bad"
    and "rep_socket owes msg_recv msg_send"
  shows "\<exists>txt. input_msg cin = (Inr txt, rest) \<and>
    packet_parse_json seq txt = (Inl (Json_parse_error 101), seq) \<and>
    (\<forall>srv s1. msg_recv (sock srv) = (Inr txt, s1) \<longrightarrow>
       zmq_cli_monitor msg_recv msg_send (a # b # rounds) srv = Inl (Zmq_error EFSM))"
proof -
  let ?txt = "lay_text pretty_layout 0 (msg_object (msg_members msg))"
  have "\<forall>(k, v) \<in> set (map (\<lambda>(k, v). (k, JString v)) pre). utf8_valid k \<and> json_ok v" "utf8_valid k"
    using utf8_valid_keys [of msg] assms(2,3) by auto
  from pretty.json_parse_bad_string [OF this assms(4), of 0 "map (\<lambda>(k, v). (k, JString v)) post"]
  have "json_parse ?txt = Inl (Json_parse_error 101)"
    using assms(2) by (simp add: msg_object_def del: lay_text.simps)
  then have bad: "packet_parse_json n ?txt = (Inl (Json_parse_error 101), n)" for n
    by (simp add: packet_parse_json_def)
  have "zmq_cli_monitor msg_recv msg_send (a # b # rounds) srv = Inl (Zmq_error EFSM)"
    if "msg_recv (sock srv) = (Inr ?txt, s1)" for srv :: "'a zmq_server" and s1
    using refused_request_ends_server [OF assms(5) that] bad by simp
  then show ?thesis using input_msg_text [OF assms(1)] bad by blast
qed

text \<open>Eleven Hangul syllables are 33 bytes; 31 of them fit.\<close>

definition hangul_lines :: "bytes list" where
  "hangul_lines = sample_lines[5 := concat (replicate 11 [CHR 0xEA, CHR 0xB0, CHR 0x80])]"

definition hangul_cut :: bytes where
  "hangul_cut = concat (replicate 10 [CHR 0xEA, CHR 0xB0, CHR 0x80]) @ [CHR 0xEA]"

lemma read_hangul_lines:
  "read_fields hangul_lines = (sample_msg\<lparr>m_service_name := hangul_cut @ [NUL]\<rparr>, [])"
  by code_simp

lemma cut_character_ends_server_witness:
  "utf8_valid (hangul_lines ! 5) \<and> (\<exists>txt. input_msg hangul_lines = (Inr txt, []) \<and>
     zmq_cli_monitor script_recv script_send [[], []]
       \<lparr>sock = \<lparr>requests = [txt], replies = [], owed = False\<rparr>, srv_outq = [], srv_inq = [], srv_seq = 7\<rparr> =
       Inl (Zmq_error EFSM))"
proof -
  have "msg_members (sample_msg\<lparr>m_service_name := hangul_cut @ [NUL]\<rparr>) =
      take 5 (msg_members sample_msg) @ (''service_name'', hangul_cut) # drop 6 (msg_members sample_msg)"
    by code_simp
  moreover have "\<forall>(k, v) \<in> set (take 5 (msg_members sample_msg)). utf8_valid v"
    by (simp add: sample_msg_members utf8_valid_ascii)
  moreover have "\<not> utf8_valid hangul_cut" "utf8_valid (hangul_lines ! 5)" by code_simp+
  ultimately show ?thesis
    using cut_character_ends_server [OF read_hangul_lines _ _ _ rep_socket_script, of "take 5 (msg_members sample_msg)"
        "''service_name''" hangul_cut "drop 6 (msg_members sample_msg)" 7 "[]" "[]" "[]"]
    by (auto simp: script_recv_def)
qed

text \<open>C34: the end of the input ends the server. When the client's input is used up, it goes on all the
  same: it sends a request with ten empty fields, in every round. The server takes it for a packet of
  unknown type, does not answer, and throws at the next \<open>recv\<close>.\<close>

theorem end_of_input_ends_server:
  assumes "rep_socket owes msg_recv msg_send"
  shows "\<exists>txt. input_msg [] = (Inr txt, []) \<and>
    packet_parse_json seq txt = (Inl (Runtime_error ''unknown msg_type''), seq + 1) \<and>
    (\<forall>srv s1. msg_recv (sock srv) = (Inr txt, s1) \<longrightarrow>
       zmq_cli_monitor msg_recv msg_send (a # b # rounds) srv = Inl (Zmq_error EFSM))"
proof -
  let ?txt = "lay_text pretty_layout 0 (msg_object (msg_members zero_msg))"
  have read: "read_fields [] = (zero_msg, [])" by code_simp
  have empty: "until_nul (m_msg_type zero_msg) = []" "\<forall>(k, v) \<in> set (msg_members zero_msg). utf8_valid v"
    by (simp_all add: zero_msg_def msg_members_def until_nul_def zeros_def utf8_valid_def)
  have "header_parse_json n ?txt = (Inr (request_header n [] (until_nul (m_action_code zero_msg))), n + 1)" for n
    using map_of_msg(1,2) [of zero_msg] empty(1)
    by (intro header_parse_json_object [OF json_parse_msg [OF empty(2)]]) simp_all
  moreover have "msg_type_enum (request_header n [] ac) = UNKNOWN" for n ac
    by (simp add: request_header_def msg_type_enum_def memcpy_min_def zeros_numeral)
  ultimately have bad: "packet_parse_json n ?txt = (Inl (Runtime_error ''unknown msg_type''), n + 1)" for n
    by (simp add: packet_parse_json_def json_parse_msg [OF empty(2)])
  have "zmq_cli_monitor msg_recv msg_send (a # b # rounds) srv = Inl (Zmq_error EFSM)"
    if "msg_recv (sock srv) = (Inr ?txt, s1)" for srv :: "'a zmq_server" and s1
    using refused_request_ends_server [OF assms that] bad by simp
  then show ?thesis using input_msg_text [OF read] bad by blast
qed

lemma end_of_input_ends_server_witness:
  "\<exists>txt. input_msg [] = (Inr txt, []) \<and>
     zmq_cli_monitor script_recv script_send [[], []]
       \<lparr>sock = \<lparr>requests = [txt], replies = [], owed = False\<rparr>, srv_outq = [], srv_inq = [], srv_seq = 7\<rparr> =
       Inl (Zmq_error EFSM)"
  using end_of_input_ends_server [OF rep_socket_script, of 7 "[]" "[]" "[]"]
  by (auto simp: script_recv_def)

end
