(* ===== verification/Configuration.thy ===== *)
theory Configuration
  imports Prelude Complex_Main "HOL-Library.Log_Nat"
begin

text \<open>
  \<^verbatim>\<open>lib/common/configuration.cpp\<close>: named settings from a TOML file, with defaults, and
  the reload when the file's time stamp changes; and the conversions of
  \<^verbatim>\<open>include/toml.hpp\<close> (\<open>node::value\<close>, \<open>node::value_or\<close>) the getters rely on. The parser
  of that header is an argument: \<open>parse_file path\<close> is the table, or nothing if it throws. Every
  getter holds the shared lock for its whole body and a reload holds it exclusively, so each is one
  atomic step.
\<close>

section \<open>TOML values\<close>

text \<open>A \<open>double\<close>: a finite value, an infinity (negative or not), or a NaN.\<close>

datatype double_value = Finite rat | Infinite bool | Not_a_number

datatype toml =
    Table "(string \<times> toml) list"
  | Array "toml list"
  | Text bytes
  | Integer int
  | Floating double_value
  | Boolean bool
  | Date bytes
  | Time bytes
  | Date_time bytes

type_synonym toml_table = "(string \<times> toml) list"

fun as_table :: "toml \<Rightarrow> toml_table option" where
  "as_table (Table t) = Some t"
| "as_table _ = None"

fun as_array :: "toml \<Rightarrow> toml list option" where
  "as_array (Array vs) = Some vs"
| "as_array _ = None"

text \<open>\<open>static_cast<int64_t>\<close> of a finite \<open>double\<close>: towards zero, and undefined out of range.\<close>

definition double_to_int64 :: "rat \<Rightarrow> int result" where
  "double_to_int64 r = (let i = (if 0 \<le> r then \<lfloor>r\<rfloor> else \<lceil>r\<rceil>) in
     if - (2 ^ 63) \<le> i \<and> i < 2 ^ 63 then Inr i
     else Inl (Undefined_behaviour ''double out of the range of int64_t''))"

text \<open>\<open>static_cast<double>\<close> of an integer: the 53 leading bits, rounded to nearest, ties to even.\<close>

definition int_to_double :: "int \<Rightarrow> double_value" where
  "int_to_double v =
     (let a = nat \<bar>v\<bar>; e = floorlog 2 a - 53; m = a div 2 ^ e; r = a mod 2 ^ e;
          up = (2 ^ e < 2 * r \<or> (2 ^ e = 2 * r \<and> odd m));
          n = (if up then m + 1 else m) * 2 ^ e
      in Finite (of_int (sgn v * int n)))"

text \<open>\<open>node_integer_cast<int>\<close>.\<close>

definition node_integer_cast :: "int \<Rightarrow> int option" where
  "node_integer_cast v = (if v < - (2 ^ 31) \<or> 2 ^ 31 - 1 < v then None else Some v)"

text \<open>A whole \<open>double\<close> as an integer.\<close>

definition whole_double :: "double_value \<Rightarrow> int option result" where
  "whole_double d = (case d of
       Finite r \<Rightarrow> rbind (double_to_int64 r) (\<lambda>i. Inr (if of_int i = r then Some i else None))
     | _ \<Rightarrow> Inr None)"

text \<open>\<open>node::value<T>\<close> for \<open>std::string\<close>, \<open>int64_t\<close>, \<open>int\<close>, \<open>double\<close> and \<open>bool\<close>.\<close>

fun value_string :: "toml \<Rightarrow> bytes option" where
  "value_string (Text s) = Some s"
| "value_string _ = None"

fun value_int64 :: "toml \<Rightarrow> int option result" where
  "value_int64 (Integer v) = Inr (Some v)"
| "value_int64 (Floating d) = whole_double d"
| "value_int64 (Boolean b) = Inr (Some (of_bool b))"
| "value_int64 _ = Inr None"

fun value_int :: "toml \<Rightarrow> int option result" where
  "value_int (Integer v) = Inr (node_integer_cast v)"
| "value_int (Floating d) = rbind (whole_double d) (\<lambda>i. Inr (Option.bind i node_integer_cast))"
| "value_int (Boolean b) = Inr (Some (of_bool b))"
| "value_int _ = Inr None"

fun value_double :: "toml \<Rightarrow> double_value option" where
  "value_double (Integer v) =
     (if v < - (2 ^ 53) \<or> 2 ^ 53 < v then None else Some (Finite (of_int v)))"
| "value_double (Floating d) = Some d"
| "value_double _ = None"

fun value_bool :: "toml \<Rightarrow> bool option" where
  "value_bool (Integer v) = Some (v \<noteq> 0)"
| "value_bool (Boolean b) = Some b"
| "value_bool _ = None"

text \<open>\<open>value_or\<close> of a view: the default also for an empty view.\<close>

definition value_or :: "'a option \<Rightarrow> 'a \<Rightarrow> 'a" where
  "value_or v def = (case v of None \<Rightarrow> def | Some x \<Rightarrow> x)"

section \<open>Finding a setting\<close>

text \<open>\<open>std::getline\<close> with a delimiter: the text up to it, and what is behind; nothing at the end.\<close>

definition getline :: "char \<Rightarrow> bytes \<Rightarrow> (bytes \<times> bytes) option" where
  "getline d s = (if s = [] then None
     else let t = takeWhile (\<lambda>c. c \<noteq> d) s in Some (t, drop (length t + 1) s))"

function split_section :: "bytes \<Rightarrow> bytes list" where
  "split_section section = (case getline (CHR ''.'') section of
       None \<Rightarrow> []
     | Some (token, rest) \<Rightarrow> (if token = [] then [] else [token]) @ split_section rest)"
  by pat_completeness auto
termination
  by (relation "measure length") (auto simp: getline_def Let_def split: if_splits)

declare split_section.simps [simp del]

text \<open>The loop over the tokens: the table the section names, if every step is a table.\<close>

fun follow :: "toml_table \<Rightarrow> bytes list \<Rightarrow> toml_table option" where
  "follow tbl [] = Some tbl"
| "follow tbl (s # ss) = (case map_of tbl s of
       None \<Rightarrow> None
     | Some n \<Rightarrow> (case as_table n of None \<Rightarrow> None | Some next_tbl \<Rightarrow> follow next_tbl ss))"

definition find_node_view :: "toml_table \<Rightarrow> bytes \<Rightarrow> bytes \<Rightarrow> toml option" where
  "find_node_view tbl section key = (case follow tbl (split_section section) of
       None \<Rightarrow> None
     | Some t \<Rightarrow> map_of t key)"

section \<open>The getters\<close>

definition get_string :: "toml_table \<Rightarrow> bytes \<Rightarrow> bytes \<Rightarrow> bytes \<Rightarrow> bytes" where
  "get_string cfg section key def =
     (let n = find_node_view cfg section key; v = value_or (Option.bind n value_string) def
      in if v = [] then def else v)"

text \<open>\<open>value<T>\<close> of a view: nothing of an empty one.\<close>

definition view_value :: "(toml \<Rightarrow> 'a option result) \<Rightarrow> toml option \<Rightarrow> 'a option result" where
  "view_value f n = (case n of None \<Rightarrow> Inr None | Some x \<Rightarrow> f x)"

definition get_int :: "toml_table \<Rightarrow> bytes \<Rightarrow> bytes \<Rightarrow> int \<Rightarrow> int result" where
  "get_int cfg section key def =
     rbind (view_value value_int (find_node_view cfg section key)) (\<lambda>v. Inr (value_or v def))"

definition get_float :: "toml_table \<Rightarrow> bytes \<Rightarrow> bytes \<Rightarrow> double_value \<Rightarrow> double_value result" where
  "get_float cfg section key def =
     (let n = find_node_view cfg section key in
      case Option.bind n value_double of
        Some v \<Rightarrow> Inr v
      | None \<Rightarrow> rbind (view_value value_int64 n) (\<lambda>v2.
          Inr (case v2 of Some i \<Rightarrow> int_to_double i | None \<Rightarrow> def)))"

definition get_bool :: "toml_table \<Rightarrow> bytes \<Rightarrow> bytes \<Rightarrow> bool \<Rightarrow> bool" where
  "get_bool cfg section key def =
     value_or (Option.bind (find_node_view cfg section key) value_bool) def"

definition get_array :: "toml_table \<Rightarrow> bytes \<Rightarrow> bytes \<Rightarrow> bytes list" where
  "get_array cfg section key =
     (case Option.bind (find_node_view cfg section key) as_array of
        None \<Rightarrow> []
      | Some arr \<Rightarrow> filter (\<lambda>s. s \<noteq> []) (map (\<lambda>e. value_or (value_string e) []) arr))"

text \<open>\<open>static_cast<int>\<close> of an \<open>int64_t\<close>: the low 32 bits.\<close>

definition int64_to_int :: "int \<Rightarrow> int" where
  "int64_to_int v = sint (word_of_int v :: 32 word)"

fun int_elements :: "toml list \<Rightarrow> int list result" where
  "int_elements [] = Inr []"
| "int_elements (e # es) = rbind (value_int64 e) (\<lambda>v. rbind (int_elements es) (\<lambda>vs.
     Inr (case v of Some i \<Rightarrow> int64_to_int i # vs | None \<Rightarrow> vs)))"

definition get_array_int :: "toml_table \<Rightarrow> bytes \<Rightarrow> bytes \<Rightarrow> int list \<Rightarrow> int list result" where
  "get_array_int cfg section key def =
     (case Option.bind (find_node_view cfg section key) as_array of
        None \<Rightarrow> Inr def
      | Some arr \<Rightarrow> rbind (int_elements arr) (\<lambda>out. Inr (if out = [] then def else out)))"

definition get_table_array :: "toml_table \<Rightarrow> bytes \<Rightarrow> bytes \<Rightarrow> toml_table list" where
  "get_table_array cfg section key =
     (case Option.bind (find_node_view cfg section key) as_array of
        None \<Rightarrow> []
      | Some arr \<Rightarrow> List.map_filter as_table arr)"

section \<open>The global instance and its reload\<close>

text \<open>Time stamps are integers; a failed \<open>stat\<close> is nothing.\<close>

record global_config =
  g_config :: toml_table
  g_config_path :: string
  g_last_mtime :: int
  g_mtime_inited :: bool

text \<open>\<open>Configuration::init\<close>: the new table replaces the old one only if the file could be parsed.\<close>

definition config_init :: "(string \<Rightarrow> toml_table option) \<Rightarrow> string \<Rightarrow> toml_table \<Rightarrow> bool \<times> toml_table" where
  "config_init parse_file path cfg = (case parse_file path of
       None \<Rightarrow> (False, cfg)
     | Some t \<Rightarrow> (True, t))"

definition global_init :: "(string \<Rightarrow> toml_table option) \<Rightarrow> string \<Rightarrow> global_config \<Rightarrow> bool \<times> global_config" where
  "global_init parse_file path g =
     (let g = g\<lparr>g_config_path := path, g_mtime_inited := False\<rparr>;
          (ok, cfg) = config_init parse_file path (g_config g)
      in (ok, g\<lparr>g_config := cfg\<rparr>))"

definition do_realtime :: "(string \<Rightarrow> toml_table option) \<Rightarrow> int option \<Rightarrow> global_config \<Rightarrow> global_config" where
  "do_realtime parse_file mtime g =
     (if g_config_path g = [] then g
      else case mtime of
          None \<Rightarrow> g
        | Some mt \<Rightarrow>
            if \<not> g_mtime_inited g then g\<lparr>g_last_mtime := mt, g_mtime_inited := True\<rparr>
            else if mt = g_last_mtime g then g
            else (let (ok, cfg) = config_init parse_file (g_config_path g) (g_config g);
                      g = g\<lparr>g_config := cfg\<rparr>
                  in if ok then g\<lparr>g_last_mtime := mt\<rparr> else g))"

section \<open>Sections and paths\<close>

lemma split_section_Nil [simp]: "split_section [] = []"
  by (simp add: split_section.simps getline_def)

lemma takeWhile_no_dot: "d \<notin> set t \<Longrightarrow> takeWhile (\<lambda>c. c \<noteq> d) t = t"
  "d \<notin> set t \<Longrightarrow> takeWhile (\<lambda>c. c \<noteq> d) (t @ d # s) = t"
  by (induction t) auto

lemma split_section_dot: "CHR ''.'' \<notin> set t \<Longrightarrow>
  split_section (t @ CHR ''.'' # s) = (if t = [] then [] else [t]) @ split_section s"
  by (subst split_section.simps) (simp add: getline_def Let_def takeWhile_no_dot)

lemma split_section_last: "CHR ''.'' \<notin> set t \<Longrightarrow> split_section t = (if t = [] then [] else [t])"
  by (subst split_section.simps) (simp add: getline_def Let_def takeWhile_no_dot)

lemma split_section_append: "split_section (a @ CHR ''.'' # b) = split_section a @ split_section b"
proof (induction a rule: length_induct)
  case (1 a)
  show ?case
  proof (cases "CHR ''.'' \<in> set a")
    case False
    then show ?thesis by (simp add: split_section_dot split_section_last)
  next
    case True
    then obtain t s where a: "a = t @ CHR ''.'' # s" "CHR ''.'' \<notin> set t" by (meson split_list_first)
    then have "split_section (s @ CHR ''.'' # b) = split_section s @ split_section b" using 1 by simp
    then show ?thesis using a by (simp add: split_section_dot)
  qed
qed

fun join_dots :: "bytes list \<Rightarrow> bytes" where
  "join_dots [] = []"
| "join_dots [t] = t"
| "join_dots (t # ts) = t @ CHR ''.'' # join_dots ts"

lemma split_section_join:
  "list_all (\<lambda>t. t \<noteq> [] \<and> CHR ''.'' \<notin> set t) ts \<Longrightarrow> split_section (join_dots ts) = ts"
  by (induction ts rule: join_dots.induct) (simp_all add: split_section_last split_section_dot)

text \<open>A path of names in nested tables, read from the root: what a setting is.\<close>

fun lookup_path :: "toml_table \<Rightarrow> bytes list \<Rightarrow> toml option" where
  "lookup_path t [] = None"
| "lookup_path t [k] = map_of t k"
| "lookup_path t (k # ks) = (case map_of t k of Some (Table t') \<Rightarrow> lookup_path t' ks | _ \<Rightarrow> None)"

lemma lookup_path_Cons:
  "ks \<noteq> [] \<Longrightarrow> lookup_path t (k # ks) = (case map_of t k of
      None \<Rightarrow> None | Some n \<Rightarrow> (case as_table n of None \<Rightarrow> None | Some t' \<Rightarrow> lookup_path t' ks))"
  by (cases ks) (auto split: option.split toml.split)

lemma follow_lookup:
  "(case follow t ss of None \<Rightarrow> None | Some t' \<Rightarrow> map_of t' key) = lookup_path t (ss @ [key])"
  by (induction ss arbitrary: t) (auto simp: lookup_path_Cons split: option.split)

lemma find_node_view_path: "find_node_view t section key = lookup_path t (split_section section @ [key])"
  by (simp add: find_node_view_def follow_lookup)

text \<open>Dotted sections are paths. A section made of non-empty names without dots, joined by dots,
  finds exactly the value at the end of that path of nested tables; a step that is missing or is no
  table finds nothing. Dots too many, at the front, at the end or in a row, make no difference, and a
  dot in the key is part of its name.\<close>

theorem section_is_path:
  "(list_all (\<lambda>t. t \<noteq> [] \<and> CHR ''.'' \<notin> set t) names \<longrightarrow>
      find_node_view tbl (join_dots names) key = lookup_path tbl (names @ [key])) \<and>
   find_node_view tbl (a @ ''..'' @ b) key = find_node_view tbl (a @ ''.'' @ b) key \<and>
   find_node_view tbl (''.'' @ a @ ''.'') key = find_node_view tbl a key"
  using split_section_append [of a "CHR ''.'' # b"] split_section_append [of a b]
    split_section_append [of "[]" "a @ ''.''"] split_section_append [of a "[]"] split_section_append [of "[]" b]
  by (simp add: find_node_view_path split_section_join)

definition sample_config :: toml_table where
  "sample_config = [(''database'', Table [(''master'', Table [(''host'', Text ''db1''),
     (''ports'', Array [Integer 3306, Integer 4294967297])])]),
     (''server'', Table [(''port'', Integer 4294967297), (''log_level'', Text ''WARN'')])]"

lemma section_is_path_witness:
  "find_node_view sample_config ''database.master'' ''host'' = Some (Text ''db1'')"
  using section_is_path [of "[''database'', ''master'']" sample_config "''host''" "[]" "[]"]
  by (simp add: sample_config_def)

section \<open>What the getters return\<close>

lemma int64_to_int_eq: "int64_to_int v = signed_take_bit 31 v"
  by (simp add: int64_to_int_def signed_of_int)

lemma int64_to_int_range: "- (2 ^ 31) \<le> int64_to_int v" "int64_to_int v < 2 ^ 31"
  using sint_range_size [of "word_of_int v :: 32 word"] by (simp_all add: int64_to_int_def word_size)

lemma int64_to_int_mod: "int64_to_int v mod 2 ^ 32 = v mod 2 ^ 32"
  using take_bit_signed_take_bit [of 32 31 v] by (simp add: int64_to_int_eq take_bit_eq_mod)

lemma int64_to_int_id: "- (2 ^ 31) \<le> v \<Longrightarrow> v < 2 ^ 31 \<Longrightarrow> int64_to_int v = v"
  by (simp add: int64_to_int_eq signed_take_bit_int_eq_self)

text \<open>C28: integer settings. A single integer is checked: what does not fit an \<open>int\<close> gives the default.
  The elements of an integer array are not: each is cut to its low 32 bits, which changes exactly the
  values that do not fit, silently. Booleans count as 0 and 1 in both.\<close>

theorem integer_settings:
  "(find_node_view cfg section key = Some (Integer v) \<longrightarrow>
      get_int cfg section key def = Inr (if - (2 ^ 31) \<le> v \<and> v < 2 ^ 31 then v else def)) \<and>
   (find_node_view cfg section key = Some (Array (map Integer (w # ws))) \<longrightarrow>
      get_array_int cfg section key defs = Inr (map int64_to_int (w # ws))) \<and>
   (int64_to_int v = v \<longleftrightarrow> - (2 ^ 31) \<le> v \<and> v < 2 ^ 31) \<and> int64_to_int v mod 2 ^ 32 = v mod 2 ^ 32 \<and>
   (find_node_view cfg section key = Some (Boolean b) \<longrightarrow> get_int cfg section key def = Inr (of_bool b))"
proof -
  have "int_elements (map Integer vs) = Inr (map int64_to_int vs)" for vs
    by (induction vs) simp_all
  then show ?thesis
    using int64_to_int_range [of v] int64_to_int_mod [of v]
    by (auto simp: get_int_def get_array_int_def view_value_def value_or_def node_integer_cast_def int64_to_int_id)
qed

lemma integer_settings_witness:
  "get_int sample_config ''server'' ''port'' 9999 = Inr 9999 \<and>
   get_array_int sample_config ''database.master'' ''ports'' [] = Inr [3306, 1]"
proof -
  have s: "split_section ''server'' = [''server'']" "split_section ''database.master'' = [''database'', ''master'']"
    using split_section_join [of "[''server'']"] split_section_join [of "[''database'', ''master'']"] by simp_all
  have "int64_to_int 4294967297 = 1" "int64_to_int 3306 = 3306" by (simp_all add: int64_to_int_def)
  then show ?thesis
    using integer_settings [of sample_config "''server''" "''port''" 4294967297 9999 3306 "[4294967297]" "[]" True]
      integer_settings [of sample_config "''database.master''" "''ports''" 1 0 3306 "[4294967297]" "[]" True]
    by (simp add: find_node_view_path s sample_config_def)
qed

lemma floorlog_bounds: "a < 2 ^ floorlog 2 a" "0 < a \<Longrightarrow> 2 ^ (floorlog 2 a - 1) \<le> a"
  using floorlog_bounds [of a 2] by (cases "a = 0"; simp)+

lemma rounding_error:
  fixes a e :: nat
  defines "m \<equiv> a div 2 ^ e" and "r \<equiv> a mod 2 ^ e"
  shows "\<bar>int ((if 2 ^ e < 2 * r \<or> (2 ^ e = 2 * r \<and> odd m) then m + 1 else m) * 2 ^ e) - int a\<bar> * 2 \<le> 2 ^ e"
proof -
  have "a = m * 2 ^ e + r" unfolding m_def r_def by (rule div_mult_mod_eq [symmetric])
  moreover have "r < 2 ^ e" by (simp add: r_def)
  ultimately have a: "int a = int m * 2 ^ e + int r" "int r < 2 ^ e"
    by (simp, metis of_nat_less_iff of_nat_numeral of_nat_power)
  show ?thesis
  proof (cases "2 ^ e < 2 * r \<or> (2 ^ e = 2 * r \<and> odd m)")
    case True
    then have "2 ^ e \<le> 2 * r" by auto
    then have "(2 :: int) ^ e \<le> 2 * int r" by (metis of_nat_le_iff of_nat_mult of_nat_numeral of_nat_power)
    then show ?thesis using True a by (simp add: algebra_simps)
  next
    case False
    then have "2 * r \<le> 2 ^ e" by auto
    then have "2 * int r \<le> (2 :: int) ^ e" by (metis of_nat_le_iff of_nat_mult of_nat_numeral of_nat_power)
    then show ?thesis unfolding if_not_P [OF False] using a by simp
  qed
qed

lemma int_to_double_error:
  "\<exists>i. int_to_double v = Finite (of_int i) \<and> \<bar>i - v\<bar> * 2 ^ 53 \<le> \<bar>v\<bar>"
proof -
  define a e where "a = nat \<bar>v\<bar>" and "e = floorlog 2 a - 53"
  define n where "n = (if 2 ^ e < 2 * (a mod 2 ^ e) \<or> (2 ^ e = 2 * (a mod 2 ^ e) \<and> odd (a div 2 ^ e))
    then a div 2 ^ e + 1 else a div 2 ^ e) * 2 ^ e"
  have d: "int_to_double v = Finite (of_int (sgn v * int n))"
    by (simp add: int_to_double_def Let_def a_def e_def n_def)
  have err: "\<bar>int n - int a\<bar> * 2 \<le> 2 ^ e" unfolding n_def by (rule rounding_error)
  have "\<bar>int n - int a\<bar> * 2 ^ 53 \<le> int a"
  proof (cases e)
    case 0
    then have "\<bar>int n - int a\<bar> * 2 \<le> 1" using err by simp
    then have "int n = int a" by arith
    then show ?thesis by simp
  next
    case (Suc k)
    then have "0 < a" by (cases "a = 0") (simp_all add: e_def floorlog_def)
    then have "2 ^ (floorlog 2 a - 1) \<le> a" by (rule floorlog_bounds(2))
    moreover have "floorlog 2 a - 1 = e + 52" using Suc by (simp add: e_def)
    ultimately have "int (2 ^ (e + 52)) \<le> int a" by (simp only: of_nat_le_iff)
    moreover have "\<bar>int n - int a\<bar> * 2 * 2 ^ 52 \<le> 2 ^ e * 2 ^ 52" using err by (intro mult_right_mono) simp_all
    ultimately show ?thesis by (simp add: power_add)
  qed
  moreover have "\<bar>sgn v * int n - v\<bar> = \<bar>int n - int a\<bar>" if "v \<noteq> 0"
    using that by (cases "0 < v") (simp_all add: a_def)
  moreover have "n = 0" if "v = 0" using that by (simp add: n_def a_def)
  ultimately show ?thesis
    using d by (cases "v = 0") (auto simp: a_def intro!: exI [of _ "sgn v * int n"])
qed

text \<open>An integer where a float is asked for. Up to \<open>2^53\<close> in size it is read exactly; above, the
  first conversion refuses it, the second one takes it, and what is returned is off by at most one part
  in \<open>2^53\<close>: no integer setting ever falls back to the default. A boolean does not either: it is 0 or 1.\<close>

theorem float_of_integer_setting:
  "(find_node_view cfg section key = Some (Integer v) \<longrightarrow>
      (\<exists>i. get_float cfg section key def = Inr (Finite (of_int i)) \<and> \<bar>i - v\<bar> * 2 ^ 53 \<le> \<bar>v\<bar> \<and>
        (\<bar>v\<bar> \<le> 2 ^ 53 \<longrightarrow> i = v))) \<and>
   (find_node_view cfg section key = Some (Boolean b) \<longrightarrow>
      get_float cfg section key def = Inr (Finite (of_bool b)))"
proof -
  have "int_to_double (of_bool b) = Finite (of_bool b)"
    by (cases b) (simp_all add: int_to_double_def floorlog_def)
  then show ?thesis
    using int_to_double_error [of v] by (auto simp: get_float_def view_value_def Let_def)
qed

lemma float_of_integer_setting_witness:
  "get_float sample_config ''server'' ''port'' (Finite 0) = Inr (Finite 4294967297)"
  using float_of_integer_setting [of sample_config "''server''" "''port''" 4294967297 "Finite 0" True]
    split_section_join [of "[''server'']"]
  by (auto simp: find_node_view_path sample_config_def)

section \<open>Reloading\<close>

definition poll :: "(string \<Rightarrow> int \<Rightarrow> toml_table option) \<Rightarrow> int option \<Rightarrow> global_config \<Rightarrow> global_config" where
  "poll content mtime g = do_realtime (\<lambda>path. Option.bind mtime (content path)) mtime g"

text \<open>What the file holds at each time stamp it ever has is \<open>content\<close>. The configuration is in step
  if it is what the file held at the last time stamp that was loaded.\<close>

definition in_step :: "(string \<Rightarrow> int \<Rightarrow> toml_table option) \<Rightarrow> global_config \<Rightarrow> bool" where
  "in_step content g \<longleftrightarrow> g_config_path g \<noteq> [] \<and> g_mtime_inited g \<and>
     content (g_config_path g) (g_last_mtime g) = Some (g_config g)"

lemma poll_in_step:
  assumes "in_step content g"
  shows "in_step content (poll content mtime g)"
    and "g_config_path (poll content mtime g) = g_config_path g"
    and "mtime = Some m \<Longrightarrow> content (g_config_path g) m = Some t \<Longrightarrow> g_config (poll content mtime g) = t"
    and "mtime = None \<or> mtime = Some m \<and> content (g_config_path g) m = None \<Longrightarrow> poll content mtime g = g"
  using assms by (auto simp: in_step_def poll_def do_realtime_def config_init_def Let_def split: option.splits)

lemma polls_in_step: "in_step content g \<Longrightarrow>
  in_step content (fold (poll content) ms g) \<and> g_config_path (fold (poll content) ms g) = g_config_path g"
  by (induction ms arbitrary: g) (simp_all add: poll_in_step)

text \<open>C26: reloading. Once the configuration is in step with the file it stays so, over any sequence of
  polls: time stamps that repeat, go back, cannot be read, and files that do not parse. After a poll at
  which the file could be read and parsed, the configuration is what the file holds at that moment; a
  file that cannot be read or parsed leaves everything as it was, so the next poll tries it again.\<close>

theorem reload_follows_file:
  assumes "in_step content g"
  shows "in_step content (fold (poll content) ms g) \<and>
    (content (g_config_path g) m = Some t \<longrightarrow> g_config (fold (poll content) (ms @ [Some m]) g) = t) \<and>
    (content (g_config_path g) m = None \<longrightarrow>
       fold (poll content) (ms @ [Some m]) g = fold (poll content) ms g \<and>
       fold (poll content) (ms @ [None]) g = fold (poll content) ms g)"
proof -
  have s: "in_step content (fold (poll content) ms g)" "g_config_path (fold (poll content) ms g) = g_config_path g"
    using polls_in_step [OF assms] by auto
  then show ?thesis using poll_in_step(3,4) [OF s(1)] by (auto split: option.split)
qed

text \<open>C30: the first poll. \<open>init\<close> does not record the file's time stamp; the first poll records the one
  it finds then, without loading. If the file was edited between the two, the edit is not seen, and stays
  unseen for as long as the file keeps that time stamp, however often it is polled.\<close>

theorem first_poll_misses_edit:
  assumes "path \<noteq> []" and "content path m0 = Some old" and "content path m1 = Some new"
  shows "(\<exists>g. global_init (\<lambda>p. content p m0) path g0 = (True, g) \<and>
    g_config (fold (poll content) (replicate (Suc n) (Some m1)) g) = old)"
proof -
  let ?g = "g0\<lparr>g_config := old, g_config_path := path, g_mtime_inited := False\<rparr>"
  let ?h = "?g\<lparr>g_last_mtime := m1, g_mtime_inited := True\<rparr>"
  have "global_init (\<lambda>p. content p m0) path g0 = (True, ?g)"
    using assms(2) by (simp add: global_init_def config_init_def)
  moreover have "poll content (Some m1) ?g = ?h" "poll content (Some m1) ?h = ?h"
    using assms(1) by (simp_all add: poll_def do_realtime_def)
  moreover have "fold (poll content) (replicate n (Some m1)) ?h = ?h" for n
    using calculation(3) by (induction n) simp_all
  ultimately show ?thesis by (intro exI [of _ ?g]) simp
qed

definition sample_global :: global_config where
  "sample_global = \<lparr>g_config = [], g_config_path = ''nums.toml'', g_last_mtime = 5, g_mtime_inited = True\<rparr>"

definition sample_content :: "string \<Rightarrow> int \<Rightarrow> toml_table option" where
  "sample_content path m = (if m = 5 then Some [] else if m = 6 then Some sample_config else None)"

lemma reload_follows_file_witness:
  "g_config (fold (poll sample_content) ([None, Some 5] @ [Some 6]) sample_global) = sample_config"
  using reload_follows_file [of sample_content sample_global "[None, Some 5]" 6 sample_config]
  by (simp add: in_step_def sample_global_def sample_content_def)

lemma first_poll_misses_edit_witness:
  "\<exists>g. global_init (\<lambda>p. sample_content p 5) ''nums.toml'' sample_global = (True, g) \<and>
     g_config (fold (poll sample_content) (replicate (Suc 3) (Some 6)) g) = []"
  using first_poll_misses_edit [of "''nums.toml''" sample_content 5 "[]" 6 sample_config sample_global 3]
  by (simp add: sample_content_def)

end
