(* ===== verification/Logging.thy ===== *)
theory Logging
  imports Configuration Cxx_Strings
begin

text \<open>
  \<^verbatim>\<open>lib/common/loglevel_checker.cpp\<close>: the thread that applies changes of the log level in
  the configuration, with the case-insensitive comparison of
  \<^verbatim>\<open>include/boost/algorithm/string\<close> in the \<open>"C"\<close> locale; and the file names of
  \<^verbatim>\<open>include/spdlog_custom_daily_filename_calculator.h\<close> and its hourly sibling.
\<close>

section \<open>Case-insensitive comparison\<close>

definition toupper :: "char \<Rightarrow> char" where
  "toupper c = (let n = byte_val c in if 97 \<le> n \<and> n \<le> 122 then byte_of (n - 32) else c)"

text \<open>The loop of \<open>equals\<close> with the comparison \<open>is_iequal\<close>.\<close>

fun iequals :: "bytes \<Rightarrow> bytes \<Rightarrow> bool" where
  "iequals (c # cs) (d # ds) = (toupper c = toupper d \<and> iequals cs ds)"
| "iequals a b = (a = [] \<and> b = [])"

lemma iequals_map: "iequals a b \<longleftrightarrow> map toupper a = map toupper b"
  by (induction a b rule: iequals.induct) auto

section \<open>Log levels\<close>

datatype level_enum = trace | debug | info | warn | err | critical | off

text \<open>The numbers of the levels, by which they are compared.\<close>

fun level_value :: "level_enum \<Rightarrow> int" where
  "level_value trace = 0"
| "level_value debug = 1"
| "level_value info = 2"
| "level_value warn = 3"
| "level_value err = 4"
| "level_value critical = 5"
| "level_value off = 6"

lemma level_value_inj: "level_value l = level_value m \<Longrightarrow> l = m"
  by (cases l; cases m) simp_all

instantiation level_enum :: linorder
begin

definition less_eq_level_enum :: "level_enum \<Rightarrow> level_enum \<Rightarrow> bool" where
  "l \<le> m \<longleftrightarrow> level_value l \<le> level_value m"

definition less_level_enum :: "level_enum \<Rightarrow> level_enum \<Rightarrow> bool" where
  "l < m \<longleftrightarrow> level_value l < level_value m"

instance
  by standard (auto simp: less_eq_level_enum_def less_level_enum_def intro: level_value_inj)

end

definition to_spdlog_level :: "bytes \<Rightarrow> level_enum" where
  "to_spdlog_level ll =
     (if iequals ll ''off'' then off
      else if iequals ll ''critical'' then critical
      else if iequals ll ''error'' then err
      else if iequals ll ''warn'' then warn
      else if iequals ll ''debug'' then debug
      else if iequals ll ''trace'' then trace
      else info)"

record loglevel_checker =
  progname :: bytes
  log_level :: bytes

text \<open>The state the thread works on: itself, the global configuration, and the level of spdlog.\<close>

record logging_state =
  llc :: loglevel_checker
  glob :: global_config
  spdlog_level :: level_enum

definition set_level :: "level_enum \<Rightarrow> logging_state \<Rightarrow> logging_state" where
  "set_level l st = st\<lparr>spdlog_level := l\<rparr>"

text \<open>\<open>logger::should_log\<close>: which messages the loggers write.\<close>

definition should_log :: "logging_state \<Rightarrow> level_enum \<Rightarrow> bool" where
  "should_log st msg_level \<longleftrightarrow> spdlog_level st \<le> msg_level"

text \<open>One round after its five seconds: what the file holds then, and its time stamp.\<close>

definition llc_round :: "(string \<Rightarrow> toml_table option) \<times> int option \<Rightarrow> logging_state \<Rightarrow> logging_state" where
  "llc_round file st =
     (let st = st\<lparr>glob := do_realtime (fst file) (snd file) (glob st)\<rparr>;
          ll = get_string (g_config (glob st)) (progname (llc st)) ''log_level'' ''info''
      in if \<not> iequals ll (log_level (llc st))
         then set_level (to_spdlog_level ll) (st\<lparr>llc := (llc st)\<lparr>log_level := ll\<rparr>\<rparr>)
         else st)"

text \<open>\<open>start\<close>: the rounds that end before the stop request. A request during a sleep ends the loop
  before anything is read.\<close>

definition llc_start ::
  "((string \<Rightarrow> toml_table option) \<times> int option) list \<Rightarrow> logging_state \<Rightarrow> logging_state" where
  "llc_start files st = fold llc_round files (set_level (to_spdlog_level (log_level (llc st))) st)"

lemma to_spdlog_level_iequals: "iequals a b \<Longrightarrow> to_spdlog_level a = to_spdlog_level b"
  by (simp add: to_spdlog_level_def iequals_map)

lemma should_log_level:
  "spdlog_level st = to_spdlog_level ll \<Longrightarrow>
     (should_log st err \<longleftrightarrow> \<not> iequals ll ''off'' \<and> \<not> iequals ll ''critical'') \<and>
     (should_log st info \<longleftrightarrow>
        \<not> (iequals ll ''off'' \<or> iequals ll ''critical'' \<or> iequals ll ''error'' \<or> iequals ll ''warn''))"
  by (simp add: should_log_def to_spdlog_level_def less_eq_level_enum_def)

lemma llc_round_level:
  assumes "spdlog_level st = to_spdlog_level (log_level (llc st))"
  shows "spdlog_level (llc_round f st) = to_spdlog_level (log_level (llc (llc_round f st)))"
    and "spdlog_level (llc_round f st) = to_spdlog_level
      (get_string (g_config (glob (llc_round f st))) (progname (llc st)) ''log_level'' ''info'')"
    and "progname (llc (llc_round f st)) = progname (llc st)"
  using assms to_spdlog_level_iequals by (auto simp: llc_round_def set_level_def Let_def)

lemma llc_rounds_level:
  "spdlog_level st = to_spdlog_level (log_level (llc st)) \<Longrightarrow>
   spdlog_level (fold llc_round files st) = to_spdlog_level (log_level (llc (fold llc_round files st))) \<and>
   progname (llc (fold llc_round files st)) = progname (llc st)"
  by (induction files arbitrary: st) (simp_all add: llc_round_level)

text \<open>C27: the log level follows the configuration. From the start on, and after any number of rounds,
  the level of the logger is the one the checker remembers; after each round it is the level that the
  configuration in force names for the program ("info" if it names none), whatever the spelling of its
  letters, although the checker skips a change that differs in case only. So an error message is written
  unless that name is "off" or "critical", and an informational one unless it is one of the four
  higher levels: a misspelt name silences neither.\<close>

theorem log_level_follows_configuration:
  "\<exists>st'. llc_start files st = st' \<and> spdlog_level st' = to_spdlog_level (log_level (llc st')) \<and>
     progname (llc st') = progname (llc st) \<and>
     (if files = [] then glob st' = glob st
      else \<exists>ll. ll = get_string (g_config (glob st')) (progname (llc st)) ''log_level'' ''info'' \<and>
        spdlog_level st' = to_spdlog_level ll \<and>
        (should_log st' err \<longleftrightarrow> \<not> iequals ll ''off'' \<and> \<not> iequals ll ''critical'') \<and>
        (should_log st' info \<longleftrightarrow>
          \<not> (iequals ll ''off'' \<or> iequals ll ''critical'' \<or> iequals ll ''error'' \<or> iequals ll ''warn'')))"
proof -
  let ?st = "set_level (to_spdlog_level (log_level (llc st))) st"
  have s: "spdlog_level ?st = to_spdlog_level (log_level (llc ?st))" "progname (llc ?st) = progname (llc st)"
      "glob ?st = glob st"
    by (simp_all add: set_level_def)
  show ?thesis
  proof (cases files rule: rev_cases)
    case Nil
    then show ?thesis using s by (simp add: llc_start_def)
  next
    case (snoc fs f)
    have r: "spdlog_level (fold llc_round fs ?st) = to_spdlog_level (log_level (llc (fold llc_round fs ?st)))"
        "progname (llc (fold llc_round fs ?st)) = progname (llc st)"
      using llc_rounds_level [OF s(1), of fs] s(2) by simp_all
    have "llc_start files st = llc_round f (fold llc_round fs ?st)" by (simp add: llc_start_def snoc)
    then have "spdlog_level (llc_start files st) = to_spdlog_level
        (get_string (g_config (glob (llc_start files st))) (progname (llc st)) ''log_level'' ''info'')"
      using llc_round_level(2) [OF r(1), of f] r(2) snoc by simp
    then show ?thesis
      using llc_round_level(1,3) [OF r(1), of f] r(2) snoc \<open>llc_start files st = _\<close> should_log_level by simp
  qed
qed

section \<open>Log file names\<close>

text \<open>The fields of a broken-down time the names use. \<open>{:0wd}\<close> pads with zeros between the sign and
  the digits.\<close>

record tm =
  tm_year :: int
  tm_mon :: int
  tm_mday :: int
  tm_hour :: int

definition fmt_0d :: "nat \<Rightarrow> int \<Rightarrow> bytes" where
  "fmt_0d w i = (let s = (if i < 0 then ''-'' else []); d = to_string_nat (nat \<bar>i\<bar>) in
     s @ replicate (w - length s - length d) (CHR ''0'') @ d)"

definition daily_calc_filename :: "bytes \<Rightarrow> tm \<Rightarrow> bytes" where
  "daily_calc_filename basename now_tm = basename @ ''.'' @ fmt_0d 4 (tm_year now_tm + 1900) @
     fmt_0d 2 (tm_mon now_tm + 1) @ fmt_0d 2 (tm_mday now_tm)"

definition hourly_calc_filename :: "bytes \<Rightarrow> tm \<Rightarrow> bytes" where
  "hourly_calc_filename basename now_tm = basename @ ''.'' @ fmt_0d 4 (tm_year now_tm + 1900) @
     fmt_0d 2 (tm_mon now_tm + 1) @ fmt_0d 2 (tm_mday now_tm) @ ''-'' @ fmt_0d 2 (tm_hour now_tm)"

definition dec_val :: "bytes \<Rightarrow> nat" where
  "dec_val s = foldl (\<lambda>a c. 10 * a + digit_val c) 0 s"

lemma dec_val_to_string: "dec_val (to_string_nat n) = n"
proof (induction n rule: to_string_nat.induct)
  case (1 n)
  show ?case
  proof (cases "n < 10")
    case True
    then show ?thesis by (simp add: to_string_small dec_val_def)
  next
    case False
    then have "to_string_nat n = to_string_nat (n div 10) @ [digit (n mod 10)]"
      by (subst to_string_nat.simps) simp
    then show ?thesis using 1 False by (simp add: dec_val_def)
  qed
qed

lemma dec_val_zeros: "dec_val (replicate k (CHR ''0'') @ s) = dec_val s"
  by (induction k) (simp_all add: dec_val_def digit_val_def)

lemma fmt_0d_width:
  assumes "0 \<le> i" "i < 10 ^ w" "0 < w"
  shows "length (fmt_0d w i) = w" "dec_val (fmt_0d w i) = nat i"
proof -
  have "nat i < 10 ^ w" using assms by (simp add: nat_less_iff)
  then have "length (to_string_nat (nat i)) \<le> w" using assms(3) by (rule length_to_string_nat_le)
  then show "length (fmt_0d w i) = w" using assms(1) by (simp add: fmt_0d_def Let_def)
  show "dec_val (fmt_0d w i) = nat i" using assms(1) by (simp add: fmt_0d_def Let_def dec_val_zeros dec_val_to_string)
qed

lemma fmt_0d_eq: "0 \<le> i \<Longrightarrow> i < 10 ^ w \<Longrightarrow> 0 \<le> j \<Longrightarrow> j < 10 ^ w \<Longrightarrow> 0 < w \<Longrightarrow> fmt_0d w i = fmt_0d w j \<longleftrightarrow> i = j"
  by (metis fmt_0d_width(2) nat_eq_iff2)

text \<open>A time as \<open>localtime_r\<close> gives it, before the year 10000.\<close>

definition tm_valid :: "tm \<Rightarrow> bool" where
  "tm_valid t \<longleftrightarrow> -1900 \<le> tm_year t \<and> tm_year t < 8100 \<and> 0 \<le> tm_mon t \<and> tm_mon t \<le> 11 \<and>
     1 \<le> tm_mday t \<and> tm_mday t \<le> 31 \<and> 0 \<le> tm_hour t \<and> tm_hour t \<le> 23"

text \<open>C31: log file names. For times up to the year 9999 the hourly name has exactly twelve characters after
  the base name, two times give the same hourly name only if they are in the same hour of the same day,
  and the same daily name only if they are on the same day; the hourly name is the daily one with the
  hour behind it.\<close>

theorem log_file_names_unique:
  assumes "tm_valid s" "tm_valid t"
  shows "length (hourly_calc_filename b t) = length b + 12 \<and>
    hourly_calc_filename b t = daily_calc_filename b t @ ''-'' @ fmt_0d 2 (tm_hour t) \<and>
    (daily_calc_filename b s = daily_calc_filename b t \<longleftrightarrow>
       tm_year s = tm_year t \<and> tm_mon s = tm_mon t \<and> tm_mday s = tm_mday t) \<and>
    (hourly_calc_filename b s = hourly_calc_filename b t \<longleftrightarrow>
       tm_year s = tm_year t \<and> tm_mon s = tm_mon t \<and> tm_mday s = tm_mday t \<and> tm_hour s = tm_hour t)"
proof -
  have len: "length (fmt_0d 4 (tm_year u + 1900)) = 4" "length (fmt_0d 2 (tm_mon u + 1)) = 2"
      "length (fmt_0d 2 (tm_mday u)) = 2" "length (fmt_0d 2 (tm_hour u)) = 2" if "tm_valid u" for u
    using that by (simp_all add: tm_valid_def fmt_0d_width(1))
  have eq: "fmt_0d 4 (tm_year s + 1900) = fmt_0d 4 (tm_year t + 1900) \<longleftrightarrow> tm_year s = tm_year t"
      "fmt_0d 2 (tm_mon s + 1) = fmt_0d 2 (tm_mon t + 1) \<longleftrightarrow> tm_mon s = tm_mon t"
      "fmt_0d 2 (tm_mday s) = fmt_0d 2 (tm_mday t) \<longleftrightarrow> tm_mday s = tm_mday t"
      "fmt_0d 2 (tm_hour s) = fmt_0d 2 (tm_hour t) \<longleftrightarrow> tm_hour s = tm_hour t"
    using assms by (simp_all add: tm_valid_def fmt_0d_eq)
  show ?thesis
    using len [OF assms(1)] len [OF assms(2)] eq
    by (simp add: hourly_calc_filename_def daily_calc_filename_def)
qed

definition sample_tm :: tm where
  "sample_tm = \<lparr>tm_year = 126, tm_mon = 0, tm_mday = 9, tm_hour = 7\<rparr>"

lemma log_file_names_unique_witness:
  "hourly_calc_filename ''NUMS'' sample_tm \<noteq> hourly_calc_filename ''NUMS'' (sample_tm\<lparr>tm_hour := 8\<rparr>)"
proof -
  have v: "tm_valid sample_tm" "tm_valid (sample_tm\<lparr>tm_hour := 8\<rparr>)" by (simp_all add: sample_tm_def tm_valid_def)
  have "tm_hour sample_tm \<noteq> tm_hour (sample_tm\<lparr>tm_hour := 8\<rparr>)" by (simp add: sample_tm_def)
  then show ?thesis using log_file_names_unique [OF v, of "''NUMS''"] by blast
qed

end
