(* ===== verification/Health_Check.thy ===== *)
theory Health_Check
  imports Worker_Rounds
begin

text \<open>
  \<^verbatim>\<open>lib/newbee/send_link.cpp\<close> and \<^verbatim>\<open>include/newbee/send_link.hpp\<close>: a link check on a
  connection of its own, with the operating system as the script of \<open>Tcp\<close>. The descriptor is a local variable, so
  only the list of open descriptors tells what becomes of it.
\<close>

section \<open>The link check\<close>

text \<open>\<open>send_link\<close>: a header nothing was set in; the type it is given is not used.\<close>

definition send_link :: "int \<Rightarrow> tcp \<Rightarrow> bool run \<times> tcp" where
  "send_link ty t = (case header_serialize new_header (zeros header_SIZE) of
       Inl e \<Rightarrow> (Throws e, t)
     | Inr buf \<Rightarrow> (let (n, t) = sys_send buf t in (Returns (n = int header_SIZE), t)))"

text \<open>\<open>health_chker\<close> on a connection that stands: one \<open>send\<close> whose value is ignored, and a blocking read.\<close>

definition health_exchange :: "int \<Rightarrow> rx_event list \<Rightarrow> tcp \<Rightarrow> (bool \<times> tcp) run" where
  "health_exchange d evs t =
     run_bind (lift_run (set_msg_type new_header LINK)) (\<lambda>h.
     run_bind (lift_run (packet_serialize (new_packet\<lparr>header := h\<rparr>) (zeros header_SIZE) header_SIZE)) (\<lambda>out.
       let (n, t) = sys_send out t in
       case link_read_exact header_SIZE evs of
         (Read_blocks, evs) \<Rightarrow> Hangs
       | (Read_failed, evs) \<Rightarrow> Returns (False, t)
       | (Read buf, evs) \<Rightarrow>
           run_bind (lift_run (header_deserialize new_header buf)) (\<lambda>ack.
             Returns (True, t\<lparr>open_fds := remove1 d (open_fds t)\<rparr>))))"

text \<open>The value of \<open>socket\<close> is not looked at; \<open>connect\<close> fails on it.\<close>

definition health_chker :: "tcp \<Rightarrow> (bool \<times> tcp) run" where
  "health_chker t = (case connect_ok t of
       [] \<Rightarrow> Returns (False, t)
     | (socket_ok, conn_ok, evs) # rest \<Rightarrow>
         (let t = t\<lparr>connect_ok := rest\<rparr> in
          if \<not> socket_ok then Returns (False, t)
          else let d = next_fd t; t = t\<lparr>next_fd := d + 1, open_fds := d # open_fds t\<rparr> in
            if \<not> conn_ok then Returns (False, t\<lparr>open_fds := remove1 d (open_fds t)\<rparr>)
            else health_exchange d evs t))"

section \<open>What it tells\<close>

lemma link_frame:
  "\<exists>h. set_msg_type new_header LINK = Inr h \<and>
     packet_serialize (new_packet\<lparr>header := h\<rparr>) (zeros header_SIZE) header_SIZE = Inr (CHR ''1'' # zeros 23)"
proof -
  let ?h = "new_header\<lparr>msg_type := [CHR ''1'', NUL, NUL]\<rparr>"
  have "set_msg_type new_header LINK = Inr ?h"
    using msg_type_codes [of LINK] set_msg_type_eq [of new_header LINK] by (simp add: new_header_def)
  moreover have "packet_wf (new_packet\<lparr>header := ?h\<rparr>)"
    by (simp add: packet_wf_def header_wf_def new_header_def new_packet_def)
  moreover have "packet_layout (new_packet\<lparr>header := ?h\<rparr>) = CHR ''1'' # zeros 23"
    by (simp add: packet_layout_def header_layout_def new_header_def new_packet_def zeros_def numeral_eq_Suc)
  ultimately show ?thesis
    using packet_serialize_fits [of "new_packet\<lparr>header := ?h\<rparr>" 24 "zeros 24"]
    by (simp add: total_size_Monostate new_packet_def frame_sizes)
qed

text \<open>C40: the link check. On a connection that stands it sends one frame of type "1" and 23 NUL bytes, without
  the length and the sequence number of a packet, as much of it as one \<open>send\<close> takes. Any 24 bytes that
  come back, of whatever type, count as healthy, and the descriptor is closed; when the peer closes or
  fails before that, the check answers no and the descriptor is left open for ever; when the peer stays
  silent, the check never returns.\<close>

theorem health_check_outcomes:
  assumes "connect_ok t = (True, True, evs) # rest"
  shows "if 24 \<le> length (deliverable evs)
    then \<exists>t'. health_chker t = Returns (True, t') \<and> open_fds t' = open_fds t \<and> connect_ok t' = rest \<and>
      (\<exists>k. wire t' = wire t @ take k (CHR ''1'' # zeros 23))
    else if ends_open evs then health_chker t = Hangs
    else \<exists>t'. health_chker t = Returns (False, t') \<and> open_fds t' = next_fd t # open_fds t \<and> connect_ok t' = rest"
proof -
  obtain h where h: "set_msg_type new_header LINK = Inr h"
      "packet_serialize (new_packet\<lparr>header := h\<rparr>) (zeros header_SIZE) header_SIZE = Inr (CHR ''1'' # zeros 23)"
    using link_frame by blast
  let ?t = "t\<lparr>connect_ok := rest, next_fd := next_fd t + 1, open_fds := next_fd t # open_fds t\<rparr>"
  obtain n t1 where s: "sys_send (CHR ''1'' # zeros 23) ?t = (n, t1)" by fastforce
  have t1: "open_fds t1 = next_fd t # open_fds t" "connect_ok t1 = rest" "\<exists>k. wire t1 = wire t @ take k (CHR ''1'' # zeros 23)"
    using s by (auto simp: sys_send_def split: list.splits intro: exI [of _ 0])
  obtain r evs' where r: "read_loop False 24 [] evs = (r, evs')" by fastforce
  note spec = read_loop_spec [where got = "[]" and len = 24 and b = False and evs = evs]
  have d: "\<exists>ack. header_deserialize new_header buf = Inr ack" if "r = Read buf" for buf
    using header_deserialize_fits [OF header_wf_new, of buf] read_loop_length [of False 24 evs buf] r that by simp
  have "health_chker t = health_exchange (next_fd t) evs ?t" using assms by (simp add: health_chker_def Let_def)
  also have "\<dots> = (case r of Read_blocks \<Rightarrow> Hangs | Read_failed \<Rightarrow> Returns (False, t1)
      | Read buf \<Rightarrow> Returns (True, t1\<lparr>open_fds := remove1 (next_fd t) (open_fds t1)\<rparr>))"
    using h s r d by (cases r) (auto simp: health_exchange_def link_read_exact_def header_SIZE_def)
  finally have "health_chker t = (case r of Read_blocks \<Rightarrow> Hangs | Read_failed \<Rightarrow> Returns (False, t1)
      | Read buf \<Rightarrow> Returns (True, t1\<lparr>open_fds := remove1 (next_fd t) (open_fds t1)\<rparr>))" .
  then show ?thesis using spec r t1 by (cases r) auto
qed

lemma health_check_outcomes_witness:
  "(\<exists>t'. health_chker (sample_tcp\<lparr>connect_ok := [(True, True, [Fin])]\<rparr>) = Returns (False, t') \<and> open_fds t' = [3]) \<and>
   health_chker (sample_tcp\<lparr>connect_ok := [(True, True, [])]\<rparr>) = Hangs"
  using health_check_outcomes [of "sample_tcp\<lparr>connect_ok := [(True, True, [Fin])]\<rparr>" "[Fin]" "[]"]
    health_check_outcomes [of "sample_tcp\<lparr>connect_ok := [(True, True, [])]\<rparr>" "[]" "[]"]
  by (auto simp: sample_tcp_def)

end
