(* ===== verification/Flk_Codecs.thy ===== *)
theory Flk_Codecs
  imports Prelude
begin

text \<open>
  The UTF-8 and UCS-2 codecs of \<^verbatim>\<open>lib/FlkIconv/utf8.h\<close> and \<^verbatim>\<open>lib/FlkIconv/ucs2.h\<close>:
  one character from the front of a byte sequence, with the number of bytes taken, and a character as
  bytes. They are GNU libiconv's with the house's changes, which replace errors by question marks.
  A wide character is a 32-bit word; the host is little-endian, as the code's memcpy assumes.
\<close>

unbundle bit_operations_syntax

section \<open>The conversion state\<close>

type_synonym ucs4 = "32 word"

definition u8 :: "byte \<Rightarrow> ucs4" where "u8 c = of_nat (byte_val c)"

text \<open>\<open>(unsigned char) wc\<close>.\<close>

definition to_u8 :: "ucs4 \<Rightarrow> byte" where "to_u8 wc = byte_of (unat wc)"

abbreviation question_mark :: ucs4 where "question_mark \<equiv> 0x3F"

record flk_conv =
  istate :: ucs4
  conv_tb_match_failed :: int

section \<open>UTF-8\<close>

text \<open>\<open>(s ^ 0x80) < 0x40\<close>: a continuation byte, and its six bits.\<close>

definition payload :: "byte \<Rightarrow> ucs4" where
  "payload c = u8 c XOR 0x80"

definition is_cont :: "byte \<Rightarrow> bool" where
  "is_cont c \<longleftrightarrow> payload c < 0x40"

definition flk_utf8_mbtowc :: "bytes \<Rightarrow> int \<times> ucs4" where
  "flk_utf8_mbtowc s =
     (let n = length s; c = u8 (s ! 0) in
      if c < 0x80 then (1, c)
      else if c < 0xc2 then (1, question_mark)
      else if c < 0xe0 then
        (if n < 2 then (int n, question_mark)
         else if \<not> is_cont (s ! 1) then (2, question_mark)
         else (2, push_bit 6 (c AND 0x1f) OR payload (s ! 1)))
      else if c < 0xf0 then
        (if n < 3 then (int n, question_mark)
         else if \<not> (is_cont (s ! 1) \<and> is_cont (s ! 2) \<and> (c \<ge> 0xe1 \<or> u8 (s ! 1) \<ge> 0xa0)) then (3, question_mark)
         else (3, push_bit 12 (c AND 0x0f) OR push_bit 6 (payload (s ! 1)) OR payload (s ! 2)))
      else if c < 0xf8 then
        (if n < 4 then (int n, question_mark)
         else if \<not> (is_cont (s ! 1) \<and> is_cont (s ! 2) \<and> is_cont (s ! 3) \<and> (c \<ge> 0xf1 \<or> u8 (s ! 1) \<ge> 0x90))
         then (4, question_mark)
         else (4, push_bit 18 (c AND 0x07) OR push_bit 12 (payload (s ! 1)) OR push_bit 6 (payload (s ! 2)) OR
           payload (s ! 3)))
      else if c < 0xfc then
        (if n < 5 then (int n, question_mark)
         else if \<not> (is_cont (s ! 1) \<and> is_cont (s ! 2) \<and> is_cont (s ! 3) \<and> is_cont (s ! 4) \<and>
             (c \<ge> 0xf9 \<or> u8 (s ! 1) \<ge> 0x88)) then (5, question_mark)
         else (5, push_bit 24 (c AND 0x03) OR push_bit 18 (payload (s ! 1)) OR push_bit 12 (payload (s ! 2)) OR
           push_bit 6 (payload (s ! 3)) OR payload (s ! 4)))
      else if c < 0xfe then
        (if n < 6 then (int n, question_mark)
         else if \<not> (is_cont (s ! 1) \<and> is_cont (s ! 2) \<and> is_cont (s ! 3) \<and> is_cont (s ! 4) \<and> is_cont (s ! 5) \<and>
             (c \<ge> 0xfd \<or> u8 (s ! 1) \<ge> 0x84)) then (6, question_mark)
         else (6, push_bit 30 (c AND 0x01) OR push_bit 24 (payload (s ! 1)) OR push_bit 18 (payload (s ! 2)) OR
           push_bit 12 (payload (s ! 3)) OR push_bit 6 (payload (s ! 4)) OR payload (s ! 5)))
      else (1, question_mark))"

text \<open>The falling-through \<open>switch\<close>: a case writes its byte, shifts, marks and goes on with the next.\<close>

definition cont_byte :: "ucs4 \<Rightarrow> byte" where
  "cont_byte wc = to_u8 (0x80 OR (wc AND 0x3f))"

definition put_1 :: "ucs4 \<Rightarrow> bytes" where "put_1 wc = [to_u8 wc]"
definition put_2 :: "ucs4 \<Rightarrow> bytes" where "put_2 wc = put_1 (drop_bit 6 wc OR 0xc0) @ [cont_byte wc]"
definition put_3 :: "ucs4 \<Rightarrow> bytes" where "put_3 wc = put_2 (drop_bit 6 wc OR 0x800) @ [cont_byte wc]"
definition put_4 :: "ucs4 \<Rightarrow> bytes" where "put_4 wc = put_3 (drop_bit 6 wc OR 0x10000) @ [cont_byte wc]"
definition put_5 :: "ucs4 \<Rightarrow> bytes" where "put_5 wc = put_4 (drop_bit 6 wc OR 0x200000) @ [cont_byte wc]"
definition put_6 :: "ucs4 \<Rightarrow> bytes" where "put_6 wc = put_5 (drop_bit 6 wc OR 0x4000000) @ [cont_byte wc]"

text \<open>The number of bytes of a character, \<open>None\<close> for one that has no encoding.\<close>

definition utf8_count :: "ucs4 \<Rightarrow> nat option" where
  "utf8_count wc =
     (if wc < 0x80 then Some 1 else if wc < 0x800 then Some 2 else if wc < 0x10000 then Some 3
      else if wc < 0x200000 then Some 4 else if wc < 0x4000000 then Some 5
      else if wc \<le> 0x7fffffff then Some 6 else None)"

definition flk_utf8_wctomb :: "ucs4 \<Rightarrow> nat \<Rightarrow> int \<times> bytes" where
  "flk_utf8_wctomb wc n =
     (case utf8_count wc of
        None \<Rightarrow> (1, ''?'')
      | Some count \<Rightarrow>
          if n < count then (1, ''?'')
          else (int count, if count = 6 then put_6 wc else if count = 5 then put_5 wc
            else if count = 4 then put_4 wc else if count = 3 then put_3 wc
            else if count = 2 then put_2 wc else put_1 wc))"

section \<open>UCS-2\<close>

text \<open>The loop of \<open>flk_ucs2_mbtowc\<close>: byte order marks are skipped, and counted, on the way to a
  character. \<open>org\<close> is the start of the input. A surrogate with a low surrogate behind it is four
  bytes of the input, from its start, as they lie in memory.\<close>

definition four_bytes :: "bytes \<Rightarrow> ucs4" where
  "four_bytes s = u8 (s ! 0) OR push_bit 8 (u8 (s ! 1)) OR push_bit 16 (u8 (s ! 2)) OR push_bit 24 (u8 (s ! 3))"

fun ucs2_loop :: "bytes \<Rightarrow> ucs4 \<Rightarrow> int \<Rightarrow> bytes \<Rightarrow> flk_conv \<Rightarrow> (int \<times> ucs4) \<times> flk_conv" where
  "ucs2_loop org state count (a # b # s) conv =
     (let wc = (if state \<noteq> 0 then u8 a + push_bit 8 (u8 b) else push_bit 8 (u8 a) + u8 b); count = count + 2 in
      if wc = 0xfeff then ucs2_loop org state count s conv
      else if wc = 0xfffe then ucs2_loop org (state XOR 1) count s conv
      else if wc \<ge> 0xd800 \<and> wc < 0xe000 then
        (let conv = conv\<lparr>istate := state\<rparr> in
         if length s \<ge> 2 \<and> u8 (s ! 0) \<ge> 0xDC then ((4, four_bytes org), conv)
         else ((2, question_mark), conv))
      else ((count, wc), conv\<lparr>istate := state\<rparr>))"
| "ucs2_loop org state count s conv = ((1, question_mark), conv\<lparr>istate := state\<rparr>)"

definition flk_ucs2_mbtowc :: "flk_conv \<Rightarrow> bytes \<Rightarrow> (int \<times> ucs4) \<times> flk_conv" where
  "flk_ucs2_mbtowc conv s = ucs2_loop s (istate conv) 0 s conv"

definition flk_ucs2_wctomb :: "flk_conv \<Rightarrow> ucs4 \<Rightarrow> nat \<Rightarrow> (int \<times> bytes) \<times> flk_conv" where
  "flk_ucs2_wctomb conv wc n =
     (if wc < 0x10000 \<and> wc \<noteq> 0xfffe \<and> \<not> (wc \<ge> 0xd800 \<and> wc < 0xe000) \<and> 2 \<le> n
      then ((2, [to_u8 (drop_bit 8 wc), to_u8 wc]), conv)
      else let conv = conv\<lparr>conv_tb_match_failed := conv_tb_match_failed conv + 1\<rparr> in
        if n < 2 then ((1, ''?''), conv) else ((2, [NUL, CHR ''?'']), conv))"

section \<open>What the UTF-8 codec does\<close>

lemma unat_u8: "unat (u8 c) = byte_val c"
  using byte_val_less [of c] by (simp add: u8_def unsigned_of_nat take_bit_nat_eq_self del: byte_val_less)

lemma byte_val_to_u8: "byte_val (to_u8 w) = unat w mod 256"
  by (simp add: to_u8_def of_char_of take_bit_eq_mod)

lemma u8_to_u8: "u8 (to_u8 w) = take_bit 8 w"
proof (rule unsigned_word_eqI [where ?'a = nat])
  have "unat (take_bit 8 w) = unat w mod 2 ^ 8"
    by (simp only: unsigned_take_bit_eq take_bit_eq_mod [where ?'a = nat])
  then show "unat (u8 (to_u8 w)) = unat (take_bit 8 w)" by (simp only: unat_u8 byte_val_to_u8) simp
qed

lemma bit_markers:
  "bit (128 :: int) n \<longleftrightarrow> n = 7" "bit (2048 :: int) n \<longleftrightarrow> n = 11" "bit (65536 :: int) n \<longleftrightarrow> n = 16"
  "bit (2097152 :: int) n \<longleftrightarrow> n = 21" "bit (67108864 :: int) n \<longleftrightarrow> n = 26"
  using bit_exp_iff [of 7 n, where ?'a = int] bit_exp_iff [of 11 n, where ?'a = int]
    bit_exp_iff [of 16 n, where ?'a = int] bit_exp_iff [of 21 n, where ?'a = int]
    bit_exp_iff [of 26 n, where ?'a = int]
  by simp_all

lemma six_bits: "(wc :: ucs4) AND 0x3f = take_bit 6 wc"
  by (simp add: take_bit_eq_mask mask_eq_exp_minus_1)

lemma payload_cont_byte: "payload (cont_byte wc) = take_bit 6 wc"
  unfolding payload_def cont_byte_def u8_to_u8 six_bits
  by (rule bit_word_eqI) (auto simp: bit_simps bit_markers)

lemma unat_payload: "unat (take_bit 6 (wc :: ucs4)) = unat wc mod 64"
  by (simp add: unsigned_take_bit_eq take_bit_eq_mod [where ?'a = nat])

lemma is_cont_byte [simp]: "is_cont (cont_byte wc)"
  by (simp add: is_cont_def payload_cont_byte word_less_nat_alt unat_payload)

lemma unat_cont_byte: "unat (u8 (cont_byte wc)) = 128 + unat wc mod 64"
proof -
  have "0x80 AND take_bit 6 wc = 0"
    by (rule bit_word_eqI) (auto simp: bit_simps bit_markers)
  then have "0x80 OR (wc AND 0x3f) = 0x80 + take_bit 6 wc"
    by (simp add: disjunctive_add_eq_or six_bits)
  then show ?thesis
    by (simp add: cont_byte_def unat_u8 byte_val_to_u8 unat_word_ariths unat_payload)
qed

text \<open>The first byte: a marker above the highest bits of the character.\<close>

lemma lead_byte:
  assumes "unat (hi :: ucs4) < 2 ^ k" "take_bit k m = 0" "unat m + 2 ^ k \<le> 256"
  shows "unat (u8 (to_u8 (hi OR m))) = unat m + unat hi" "u8 (to_u8 (hi OR m)) AND mask k = hi"
proof -
  have hi: "take_bit k hi = hi"
    using assms(1) by (intro unsigned_word_eqI [where ?'a = nat]) (simp add: unsigned_take_bit_eq take_bit_nat_eq_self)
  then have b: "bit hi n \<Longrightarrow> n < k" for n by (metis bit_take_bit_iff)
  have c: "bit m n \<Longrightarrow> \<not> n < k" for n using assms(2) by (metis bit_0_eq bit_take_bit_iff bot_apply bot_bool_def)
  have "hi AND m = 0" by (rule bit_word_eqI) (use b c in \<open>auto simp: bit_simps\<close>)
  then have "hi OR m = hi + m" by (simp add: disjunctive_add_eq_or)
  moreover have "unat hi + unat m < 256" using assms(1,3) by simp
  ultimately show "unat (u8 (to_u8 (hi OR m))) = unat m + unat hi"
    by (simp add: unat_u8 byte_val_to_u8 unat_word_ariths)
  have "k \<le> 8"
  proof (rule ccontr)
    assume "\<not> k \<le> 8"
    then have "(2 :: nat) ^ 9 \<le> 2 ^ k" by (intro power_increasing) simp_all
    then show False using assms(3) by simp
  qed
  then have "u8 (to_u8 (hi OR m)) AND mask k = take_bit k (hi OR m)"
    by (simp only: u8_to_u8 take_bit_take_bit min_absorb1 flip: take_bit_eq_mask)
  then show "u8 (to_u8 (hi OR m)) AND mask k = hi" using assms(2) hi by (simp only: take_bit_or) simp
qed


lemma wc_below: "unat (drop_bit n (wc :: ucs4)) < 2 ^ k" if "unat wc < 2 ^ (n + k)"
  using that by (simp add: unat_drop_bit_eq drop_bit_eq_div [where ?'a = nat] less_mult_imp_div_less power_add mult.commute)

lemma drop_or_marks:
  "drop_bit 6 ((w :: ucs4) OR 0x800) = drop_bit 6 w OR 0x20"
  "drop_bit 6 ((w :: ucs4) OR 0x10000) = drop_bit 6 w OR 0x400"
  "drop_bit 6 ((w :: ucs4) OR 0x200000) = drop_bit 6 w OR 0x8000"
  "drop_bit 6 ((w :: ucs4) OR 0x4000000) = drop_bit 6 w OR 0x100000"
  "drop_bit 6 ((w :: ucs4) OR 0x400) = drop_bit 6 w OR 0x10"
  "drop_bit 6 ((w :: ucs4) OR 0x8000) = drop_bit 6 w OR 0x200"
  "drop_bit 6 ((w :: ucs4) OR 0x100000) = drop_bit 6 w OR 0x4000"
  "drop_bit 6 ((w :: ucs4) OR 0x200) = drop_bit 6 w OR 0x8"
  "drop_bit 6 ((w :: ucs4) OR 0x4000) = drop_bit 6 w OR 0x100"
  "drop_bit 6 ((w :: ucs4) OR 0x100) = drop_bit 6 w OR 0x4"
  by simp_all

lemma take_or_marks:
  "take_bit 6 ((w :: ucs4) OR 0x800) = take_bit 6 w" "take_bit 6 ((w :: ucs4) OR 0x10000) = take_bit 6 w"
  "take_bit 6 ((w :: ucs4) OR 0x200000) = take_bit 6 w" "take_bit 6 ((w :: ucs4) OR 0x4000000) = take_bit 6 w"
  "take_bit 6 ((w :: ucs4) OR 0x400) = take_bit 6 w" "take_bit 6 ((w :: ucs4) OR 0x8000) = take_bit 6 w"
  "take_bit 6 ((w :: ucs4) OR 0x100000) = take_bit 6 w" "take_bit 6 ((w :: ucs4) OR 0x200) = take_bit 6 w"
  "take_bit 6 ((w :: ucs4) OR 0x4000) = take_bit 6 w"
  by simp_all

lemma cont_or_mark: "take_bit 6 m = 0 \<Longrightarrow> cont_byte (w OR m) = cont_byte w"
  by (simp add: cont_byte_def six_bits)

lemma put_3_eq:
  "put_2 wc = [to_u8 (drop_bit 6 wc OR 0xc0), cont_byte wc]"
  "put_3 wc = [to_u8 (drop_bit 12 wc OR 0xe0), cont_byte (drop_bit 6 wc), cont_byte wc]"
  "put_4 wc = [to_u8 (drop_bit 18 wc OR 0xf0), cont_byte (drop_bit 12 wc), cont_byte (drop_bit 6 wc), cont_byte wc]"
  "put_5 wc = [to_u8 (drop_bit 24 wc OR 0xf8), cont_byte (drop_bit 18 wc), cont_byte (drop_bit 12 wc), cont_byte (drop_bit 6 wc),
     cont_byte wc]"
  "put_6 wc = [to_u8 (drop_bit 30 wc OR 0xfc), cont_byte (drop_bit 24 wc), cont_byte (drop_bit 18 wc),
     cont_byte (drop_bit 12 wc), cont_byte (drop_bit 6 wc), cont_byte wc]"
  by (simp_all add: put_6_def put_5_def put_4_def put_3_def put_2_def put_1_def cont_or_mark or.assoc)

lemma join_bits: "push_bit 6 (drop_bit 6 wc) OR take_bit 6 wc = (wc :: ucs4)"
  by (rule bit_word_eqI) (auto simp: bit_simps)

lemma join_bits_at:
  "push_bit (6 + k) (drop_bit (6 + k) wc) OR push_bit k (take_bit 6 (drop_bit k wc)) = push_bit k (drop_bit k (wc :: ucs4))"
proof -
  have "push_bit k (push_bit 6 (drop_bit 6 (drop_bit k wc)) OR take_bit 6 (drop_bit k wc)) = push_bit k (drop_bit k wc)"
    by (simp only: join_bits)
  then show ?thesis by (simp add: add.commute)
qed

lemma join_all:
  "push_bit 30 (drop_bit 30 wc) OR push_bit 24 (take_bit 6 (drop_bit 24 wc)) = push_bit 24 (drop_bit 24 (wc :: ucs4))"
  "push_bit 24 (drop_bit 24 wc) OR push_bit 18 (take_bit 6 (drop_bit 18 wc)) = push_bit 18 (drop_bit 18 (wc :: ucs4))"
  "push_bit 18 (drop_bit 18 wc) OR push_bit 12 (take_bit 6 (drop_bit 12 wc)) = push_bit 12 (drop_bit 12 (wc :: ucs4))"
  "push_bit 12 (drop_bit 12 wc) OR push_bit 6 (take_bit 6 (drop_bit 6 wc)) = push_bit 6 (drop_bit 6 (wc :: ucs4))"
  using join_bits_at [where k = 24] join_bits_at [where k = 18] join_bits_at [where k = 12] join_bits_at [where k = 6]
  by simp_all

lemma assemble:
  "push_bit 12 (drop_bit 12 wc) OR push_bit 6 (take_bit 6 (drop_bit 6 wc)) OR take_bit 6 wc = (wc :: ucs4)"
  "push_bit 18 (drop_bit 18 wc) OR push_bit 12 (take_bit 6 (drop_bit 12 wc)) OR push_bit 6 (take_bit 6 (drop_bit 6 wc)) OR
     take_bit 6 wc = (wc :: ucs4)"
  "push_bit 24 (drop_bit 24 wc) OR push_bit 18 (take_bit 6 (drop_bit 18 wc)) OR push_bit 12 (take_bit 6 (drop_bit 12 wc)) OR
     push_bit 6 (take_bit 6 (drop_bit 6 wc)) OR take_bit 6 wc = (wc :: ucs4)"
  "push_bit 30 (drop_bit 30 wc) OR push_bit 24 (take_bit 6 (drop_bit 24 wc)) OR push_bit 18 (take_bit 6 (drop_bit 18 wc)) OR
     push_bit 12 (take_bit 6 (drop_bit 12 wc)) OR push_bit 6 (take_bit 6 (drop_bit 6 wc)) OR take_bit 6 wc = (wc :: ucs4)"
  by (simp_all only: or.assoc [symmetric] join_all join_bits)

lemma lead_bytes:
  "unat (hi :: ucs4) < 32 \<Longrightarrow> unat (u8 (to_u8 (hi OR 0xc0))) = 192 + unat hi \<and> u8 (to_u8 (hi OR 0xc0)) AND 0x1f = hi"
  "unat (hi :: ucs4) < 16 \<Longrightarrow> unat (u8 (to_u8 (hi OR 0xe0))) = 224 + unat hi \<and> u8 (to_u8 (hi OR 0xe0)) AND 0x0f = hi"
  "unat (hi :: ucs4) < 8 \<Longrightarrow> unat (u8 (to_u8 (hi OR 0xf0))) = 240 + unat hi \<and> u8 (to_u8 (hi OR 0xf0)) AND 0x07 = hi"
  "unat (hi :: ucs4) < 4 \<Longrightarrow> unat (u8 (to_u8 (hi OR 0xf8))) = 248 + unat hi \<and> u8 (to_u8 (hi OR 0xf8)) AND 0x03 = hi"
  "unat (hi :: ucs4) < 2 \<Longrightarrow> unat (u8 (to_u8 (hi OR 0xfc))) = 252 + unat hi \<and> u8 (to_u8 (hi OR 0xfc)) AND 0x01 = hi"
  using lead_byte [where hi = hi and k = 5 and m = "0xc0"] lead_byte [where hi = hi and k = 4 and m = "0xe0"] lead_byte [where hi = hi and k = 3 and m = "0xf0"] lead_byte [where hi = hi and k = 2 and m = "0xf8"]
    lead_byte [where hi = hi and k = 1 and m = "0xfc"]
  by (simp_all add: mask_eq_exp_minus_1)

lemma nths: "(a # b # s) ! 0 = a" "(a # b # s) ! 1 = b" "(a # b # c # s) ! 2 = c" "(a # b # c # d # s) ! 3 = d"
  "(a # b # c # d # e # s) ! 4 = e" "(a # b # c # d # e # f # s) ! 5 = f"
  by simp_all

text \<open>The branches of the decoder.\<close>

lemma mbtowc_branch:
  "194 \<le> unat (u8 (s ! 0)) \<Longrightarrow> unat (u8 (s ! 0)) < 224 \<Longrightarrow> 2 \<le> length s \<Longrightarrow> is_cont (s ! 1) \<Longrightarrow>
     flk_utf8_mbtowc s = (2, push_bit 6 (u8 (s ! 0) AND 0x1f) OR payload (s ! 1))"
  "224 \<le> unat (u8 (s ! 0)) \<Longrightarrow> unat (u8 (s ! 0)) < 240 \<Longrightarrow> 3 \<le> length s \<Longrightarrow> is_cont (s ! 1) \<Longrightarrow> is_cont (s ! 2) \<Longrightarrow>
     225 \<le> unat (u8 (s ! 0)) \<or> 160 \<le> unat (u8 (s ! 1)) \<Longrightarrow>
     flk_utf8_mbtowc s = (3, push_bit 12 (u8 (s ! 0) AND 0x0f) OR push_bit 6 (payload (s ! 1)) OR payload (s ! 2))"
  "240 \<le> unat (u8 (s ! 0)) \<Longrightarrow> unat (u8 (s ! 0)) < 248 \<Longrightarrow> 4 \<le> length s \<Longrightarrow> is_cont (s ! 1) \<Longrightarrow> is_cont (s ! 2) \<Longrightarrow>
     is_cont (s ! 3) \<Longrightarrow> 241 \<le> unat (u8 (s ! 0)) \<or> 144 \<le> unat (u8 (s ! 1)) \<Longrightarrow>
     flk_utf8_mbtowc s = (4, push_bit 18 (u8 (s ! 0) AND 0x07) OR push_bit 12 (payload (s ! 1)) OR
       push_bit 6 (payload (s ! 2)) OR payload (s ! 3))"
  "248 \<le> unat (u8 (s ! 0)) \<Longrightarrow> unat (u8 (s ! 0)) < 252 \<Longrightarrow> 5 \<le> length s \<Longrightarrow> is_cont (s ! 1) \<Longrightarrow> is_cont (s ! 2) \<Longrightarrow>
     is_cont (s ! 3) \<Longrightarrow> is_cont (s ! 4) \<Longrightarrow> 249 \<le> unat (u8 (s ! 0)) \<or> 136 \<le> unat (u8 (s ! 1)) \<Longrightarrow>
     flk_utf8_mbtowc s = (5, push_bit 24 (u8 (s ! 0) AND 0x03) OR push_bit 18 (payload (s ! 1)) OR
       push_bit 12 (payload (s ! 2)) OR push_bit 6 (payload (s ! 3)) OR payload (s ! 4))"
  "252 \<le> unat (u8 (s ! 0)) \<Longrightarrow> unat (u8 (s ! 0)) < 254 \<Longrightarrow> 6 \<le> length s \<Longrightarrow> is_cont (s ! 1) \<Longrightarrow> is_cont (s ! 2) \<Longrightarrow>
     is_cont (s ! 3) \<Longrightarrow> is_cont (s ! 4) \<Longrightarrow> is_cont (s ! 5) \<Longrightarrow>
     253 \<le> unat (u8 (s ! 0)) \<or> 132 \<le> unat (u8 (s ! 1)) \<Longrightarrow>
     flk_utf8_mbtowc s = (6, push_bit 30 (u8 (s ! 0) AND 0x01) OR push_bit 24 (payload (s ! 1)) OR
       push_bit 18 (payload (s ! 2)) OR push_bit 12 (payload (s ! 3)) OR push_bit 6 (payload (s ! 4)) OR payload (s ! 5))"
  by (simp_all add: flk_utf8_mbtowc_def Let_def word_less_nat_alt word_le_nat_alt)

text \<open>A character that needs its length: the first continuation byte is not too small.\<close>

lemma no_overlong:
  assumes "b * p \<le> (u :: nat)" "0 < p" shows "1 \<le> u div (64 * p) \<or> b \<le> u div p mod 64"
proof -
  have "b \<le> u div p" using assms by (simp add: less_eq_div_iff_mult_less_eq)
  moreover have "u div (64 * p) = u div p div 64" by (simp add: div_mult2_eq mult.commute)
  ultimately show ?thesis by (cases "u div p < 64") (simp_all add: Suc_le_eq div_greater_zero_iff)
qed

text \<open>Decoding the bytes of a character gives the character and their number.\<close>

lemmas put_simps = put_3_eq payload_cont_byte unat_cont_byte unat_drop

lemma mbtowc_put_2:
  assumes "0x80 \<le> wc" "wc < 0x800" shows "flk_utf8_mbtowc (put_2 wc @ s) = (2, wc)"
proof -
  have hi: "unat (drop_bit 6 wc) < 32" "2 \<le> unat (drop_bit 6 wc)"
    using assms by (simp_all add: unat_drop word_less_nat_alt word_le_nat_alt)
  then show ?thesis using lead_bytes(1) [OF hi(1)] join_bits [of wc]
    by (subst mbtowc_branch(1)) (simp_all add: put_3_eq payload_cont_byte)
qed

lemma mbtowc_put_3:
  assumes "0x800 \<le> wc" "wc < 0x10000" shows "flk_utf8_mbtowc (put_3 wc @ s) = (3, wc)"
proof -
  have hi: "unat (drop_bit 12 wc) < 16" using assms by (simp add: unat_drop word_less_nat_alt)
  have lo: "1 \<le> unat wc div 4096 \<or> 32 \<le> unat wc div 64 mod 64"
    using assms(1) no_overlong [of 32 64 "unat wc"] by (simp add: word_le_nat_alt)
  show ?thesis using lead_bytes(2) [OF hi] assemble(1) [of wc] hi lo
    by (subst mbtowc_branch(2)) (simp_all add: put_simps)
qed

lemma mbtowc_put_4:
  assumes "0x10000 \<le> wc" "wc < 0x200000" shows "flk_utf8_mbtowc (put_4 wc @ s) = (4, wc)"
proof -
  have hi: "unat (drop_bit 18 wc) < 8" using assms by (simp add: unat_drop word_less_nat_alt)
  have lo: "1 \<le> unat wc div 262144 \<or> 16 \<le> unat wc div 4096 mod 64"
    using assms(1) no_overlong [of 16 4096 "unat wc"] by (simp add: word_le_nat_alt)
  show ?thesis using lead_bytes(3) [OF hi] assemble(2) [of wc] hi lo
    by (subst mbtowc_branch(3)) (simp_all add: put_simps)
qed

lemma mbtowc_put_5:
  assumes "0x200000 \<le> wc" "wc < 0x4000000" shows "flk_utf8_mbtowc (put_5 wc @ s) = (5, wc)"
proof -
  have hi: "unat (drop_bit 24 wc) < 4" using assms by (simp add: unat_drop word_less_nat_alt)
  have lo: "1 \<le> unat wc div 16777216 \<or> 8 \<le> unat wc div 262144 mod 64"
    using assms(1) no_overlong [of 8 262144 "unat wc"] by (simp add: word_le_nat_alt)
  show ?thesis using lead_bytes(4) [OF hi] assemble(3) [of wc] hi lo
    by (subst mbtowc_branch(4)) (simp_all add: put_simps)
qed

lemma mbtowc_put_6:
  assumes "0x4000000 \<le> wc" "wc \<le> 0x7fffffff" shows "flk_utf8_mbtowc (put_6 wc @ s) = (6, wc)"
proof -
  have hi: "unat (drop_bit 30 wc) < 2" using assms by (simp add: unat_drop word_le_nat_alt)
  have lo: "1 \<le> unat wc div 1073741824 \<or> 4 \<le> unat wc div 16777216 mod 64"
    using assms(1) no_overlong [of 4 16777216 "unat wc"] by (simp add: word_le_nat_alt)
  show ?thesis using lead_bytes(5) [OF hi] assemble(4) [of wc] hi lo
    by (subst mbtowc_branch(5)) (simp_all add: put_simps)
qed

lemma mbtowc_put_1: "wc < 0x80 \<Longrightarrow> flk_utf8_mbtowc (put_1 wc @ s) = (1, wc)"
proof -
  assume a: "wc < 0x80"
  have "u8 (to_u8 wc) = wc"
    using a by (intro unsigned_word_eqI [where ?'a = nat]) (simp add: unat_u8 byte_val_to_u8 word_less_nat_alt)
  then show ?thesis using a by (simp add: flk_utf8_mbtowc_def put_1_def)
qed

lemma length_puts: "length (put_1 wc) = 1" "length (put_2 wc) = 2" "length (put_3 wc) = 3" "length (put_4 wc) = 4"
  "length (put_5 wc) = 5" "length (put_6 wc) = 6"
  by (simp_all add: put_3_eq put_1_def)

text \<open>Every character up to \<open>0x7fffffff\<close>, given room for its bytes.\<close>

lemma utf8_roundtrip:
  assumes "utf8_count wc = Some c" "c \<le> n"
  shows "\<exists>bs. flk_utf8_wctomb wc n = (int c, bs) \<and> length bs = c \<and> flk_utf8_mbtowc (bs @ s) = (int c, wc)"
proof -
  consider "c = 1" "wc < 0x80" | "c = 2" "0x80 \<le> wc" "wc < 0x800" | "c = 3" "0x800 \<le> wc" "wc < 0x10000"
    | "c = 4" "0x10000 \<le> wc" "wc < 0x200000" | "c = 5" "0x200000 \<le> wc" "wc < 0x4000000"
    | "c = 6" "0x4000000 \<le> wc" "wc \<le> 0x7fffffff"
    using assms(1) unfolding utf8_count_def by (auto simp: not_less split: if_splits)
  then show ?thesis
  proof cases
    case 1 then show ?thesis using assms mbtowc_put_1 by (simp add: flk_utf8_wctomb_def length_puts)
  next
    case 2 then show ?thesis using assms mbtowc_put_2 by (simp add: flk_utf8_wctomb_def length_puts)
  next
    case 3 then show ?thesis using assms mbtowc_put_3 by (simp add: flk_utf8_wctomb_def length_puts)
  next
    case 4 then show ?thesis using assms mbtowc_put_4 by (simp add: flk_utf8_wctomb_def length_puts)
  next
    case 5 then show ?thesis using assms mbtowc_put_5 by (simp add: flk_utf8_wctomb_def length_puts)
  next
    case 6 then show ?thesis using assms mbtowc_put_6 by (simp add: flk_utf8_wctomb_def length_puts)
  qed
qed

end
