(* ===== verification/Flk_Iconv.thy ===== *)
theory Flk_Iconv
  imports Flk_Codecs
begin

text \<open>
  The conversion loop of \<^verbatim>\<open>lib/FlkIconv/flk_iconv.c\<close> between UCS-2 and UTF-8, and the two
  functions of \<^verbatim>\<open>lib/FlkIconv/contentsConvert.c\<close> that call it. The source is a list of bytes, so its
  length is not negative (\<open>org_len\<close> is an \<open>int\<close>, and a negative one would be read as a huge size). The Korean character sets
  and their tables are not modelled. Memory written past the room the caller gave is undefined behaviour.
\<close>

section \<open>The loop\<close>

datatype flk_iconv_type = FLK_ICONV_TYPE_UCS2 | FLK_ICONV_TYPE_UTF8

text \<open>The table \<open>flk_iconv_encodings\<close>.\<close>

fun xxx_mbtowc :: "flk_iconv_type \<Rightarrow> flk_conv \<Rightarrow> bytes \<Rightarrow> (int \<times> ucs4) \<times> flk_conv" where
  "xxx_mbtowc FLK_ICONV_TYPE_UCS2 cd s = flk_ucs2_mbtowc cd s"
| "xxx_mbtowc FLK_ICONV_TYPE_UTF8 cd s = (flk_utf8_mbtowc s, cd)"

fun xxx_wctomb :: "flk_iconv_type \<Rightarrow> flk_conv \<Rightarrow> ucs4 \<Rightarrow> nat \<Rightarrow> (int \<times> bytes) \<times> flk_conv" where
  "xxx_wctomb FLK_ICONV_TYPE_UCS2 cd wc n = flk_ucs2_wctomb cd wc n"
| "xxx_wctomb FLK_ICONV_TYPE_UTF8 cd wc n = (flk_utf8_wctomb wc n, cd)"

definition FLK_ICONV_ERR_INVALID :: int where "FLK_ICONV_ERR_INVALID = -1"
definition FLK_ICONV_WARN_TB_NOT_MATCH :: int where "FLK_ICONV_WARN_TB_NOT_MATCH = -3"

text \<open>A character on its way out, up to the label \<open>outcount_ok\<close>: the count, the bytes written, and what is
  added to \<open>result\<close>. A character read from five bytes is four bytes of memory. A tag character
  that has no encoding is skipped.\<close>

definition memory_of :: "ucs4 \<Rightarrow> bytes" where
  "memory_of wc = [to_u8 wc, to_u8 (drop_bit 8 wc), to_u8 (drop_bit 16 wc), to_u8 (drop_bit 24 wc)]"

definition write_wc ::
  "flk_iconv_type \<Rightarrow> flk_conv \<Rightarrow> int \<Rightarrow> ucs4 \<Rightarrow> nat \<Rightarrow> (int \<times> bytes) \<times> flk_conv \<times> nat" where
  "write_wc dst cd incount wc outleft =
     (if incount = 5 then ((4, memory_of wc), cd, 0)
      else let ((outcount, bs), cd) = xxx_wctomb dst cd wc outleft in
        if outcount \<noteq> FLK_ICONV_ERR_INVALID then ((outcount, bs), cd, 0)
        else if drop_bit 7 wc = drop_bit 7 0xe0000 then ((0, []), cd, 0)
        else let ((outcount, bs), cd) = xxx_wctomb dst cd 0xFFFD outleft in
          if outcount \<noteq> FLK_ICONV_ERR_INVALID then ((outcount, bs), cd, 1)
          else if dst = FLK_ICONV_TYPE_UCS2 then ((2, [NUL, CHR ''?'']), cd, 1)
          else ((1, ''?''), cd, 1))"

text \<open>The values of the loop: the descriptor, the input left, the output, the room left, \<open>result\<close>.\<close>

type_synonym progress = "flk_conv \<times> bytes \<times> bytes \<times> nat \<times> nat"

lemma ucs2_loop_pos: "0 \<le> count \<Longrightarrow> 0 < fst (fst (ucs2_loop org state count s cd))"
  by (induction org state count s cd rule: ucs2_loop.induct) (auto simp: Let_def)

lemma mbtowc_pos: "s \<noteq> [] \<Longrightarrow> 0 < fst (fst (xxx_mbtowc src cd s))"
proof (cases src)
  case FLK_ICONV_TYPE_UCS2
  then show ?thesis using ucs2_loop_pos [of 0] by (simp add: flk_ucs2_mbtowc_def)
next
  case FLK_ICONV_TYPE_UTF8
  then show "s \<noteq> [] \<Longrightarrow> 0 < fst (fst (xxx_mbtowc src cd s))"
    by (cases s) (auto simp: flk_utf8_mbtowc_def Let_def)
qed

lemma mbtowc_counts: "((n, wc), cd') = xxx_mbtowc src cd s \<Longrightarrow> s \<noteq> [] \<Longrightarrow> 0 < n"
  using mbtowc_pos [of s src cd] by (metis fst_conv)

text \<open>The input is not empty, so the count that is read is positive; \<open>incount < 0\<close>, which the other
  character sets may give, is kept.\<close>

function unicode_loop_convert ::
  "flk_iconv_type \<Rightarrow> flk_iconv_type \<Rightarrow> flk_conv \<Rightarrow> bytes \<Rightarrow> bytes \<Rightarrow> nat \<Rightarrow> nat \<Rightarrow> progress result" where
  "unicode_loop_convert src dst cd inp out outleft result =
     (if inp = [] then Inr (cd, inp, out, outleft, result)
      else let ((incount, wc), cd) = xxx_mbtowc src cd inp;
               (incount, wc) = (if incount < 0 then (if length inp < 2 then 1 else 2, 0x3F) else (incount, wc)) in
        if outleft = 0 then Inr (cd, inp, out, outleft, result)
        else let ((outcount, bs), cd, k) = write_wc dst cd incount wc outleft; result = result + k in
          if outleft < length bs then Inl (Undefined_behaviour ''out-of-bounds write'')
          else if outcount < 0 \<or> int outleft < outcount then Inr (cd, inp, out, outleft, result)
          else let out = out @ bs; outleft = outleft - nat outcount in
            if int (length inp) < incount then Inr (cd, inp, out, outleft, result)
            else unicode_loop_convert src dst cd (drop (nat incount) inp) out outleft result)"
  by pat_completeness auto
termination
  by (relation "measure (\<lambda>(f, t, cd, inp, out, n, r). length inp)")
     (auto dest: mbtowc_counts split: if_splits)

declare unicode_loop_convert.simps [simp del]

section \<open>The entry points\<close>

text \<open>\<open>flk_iconv_open\<close>: a descriptor in its initial state.\<close>

definition flk_iconv_open :: "flk_iconv_type \<Rightarrow> flk_iconv_type \<Rightarrow> flk_conv option" where
  "flk_iconv_open src dst = (if src = dst then None else Some \<lparr>istate = 0, conv_tb_match_failed = 0\<rparr>)"

text \<open>\<open>flk_iconv\<close>: the value, what is in the output, and the number of its bytes.\<close>

definition flk_iconv ::
  "flk_iconv_type \<Rightarrow> flk_iconv_type \<Rightarrow> flk_conv \<Rightarrow> bytes \<Rightarrow> nat \<Rightarrow> (int \<times> bytes \<times> nat) result" where
  "flk_iconv src dst cd inp outbytesleft =
     (if inp = [] \<or> outbytesleft = 0 then Inr (FLK_ICONV_ERR_INVALID, [], outbytesleft)
      else rbind (unicode_loop_convert src dst cd inp [] outbytesleft 0) (\<lambda>(cd, rest, out, outleft, result).
        Inr (if conv_tb_match_failed cd \<noteq> 0 then FLK_ICONV_WARN_TB_NOT_MATCH else int result, out,
             outbytesleft - outleft)))"

text \<open>\<open>flk_iconv_ucs2_to_utf8\<close> and \<open>flk_iconv_utf8_to_ucs2\<close>, which differ in the types only: the value, the
  bytes of the target and \<open>*target_len\<close> afterwards. The pointers are not null.\<close>

definition iconv_text :: "flk_iconv_type \<Rightarrow> flk_iconv_type \<Rightarrow> bytes \<Rightarrow> int \<Rightarrow> (int \<times> bytes \<times> int) result" where
  "iconv_text src dst org target_len =
     (if org = [] then Inr (0, [], target_len)
      else let tlen = (if target_len \<le> 0 then 512 else nat target_len) in
        case flk_iconv_open src dst of
          None \<Rightarrow> Inr (-1, [], target_len)
        | Some cd \<Rightarrow> rbind (flk_iconv src dst cd org tlen) (\<lambda>(ret, out, tlen).
            Inr (ret, out, if ret \<noteq> FLK_ICONV_ERR_INVALID then int tlen else target_len)))"

definition flk_iconv_ucs2_to_utf8 :: "bytes \<Rightarrow> int \<Rightarrow> (int \<times> bytes \<times> int) result" where
  "flk_iconv_ucs2_to_utf8 = iconv_text FLK_ICONV_TYPE_UCS2 FLK_ICONV_TYPE_UTF8"

definition flk_iconv_utf8_to_ucs2 :: "bytes \<Rightarrow> int \<Rightarrow> (int \<times> bytes \<times> int) result" where
  "flk_iconv_utf8_to_ucs2 = iconv_text FLK_ICONV_TYPE_UTF8 FLK_ICONV_TYPE_UCS2"

section \<open>One character\<close>

lemma loop_empty: "unicode_loop_convert src dst cd [] out n r = Inr (cd, [], out, n, r)"
  by (simp add: unicode_loop_convert.simps)

text \<open>A round that reads a character and writes it.\<close>

lemma loop_step:
  assumes "xxx_mbtowc src cd inp = ((int i, wc), cd1)" "inp \<noteq> []" "i \<le> length inp"
    and "write_wc dst cd1 (int i) wc n = ((int (length bs), bs), cd2, 0)" "length bs \<le> n" "0 < n"
  shows "unicode_loop_convert src dst cd inp out n r = unicode_loop_convert src dst cd2 (drop i inp) (out @ bs) (n - length bs) r"
  using assms by (subst unicode_loop_convert.simps) (simp add: Let_def)

definition ucs2_char :: "ucs4 \<Rightarrow> bool" where
  "ucs2_char wc \<longleftrightarrow> wc < 0x10000 \<and> \<not> (0xd800 \<le> wc \<and> wc < 0xe000) \<and> wc \<noteq> 0xfeff \<and> wc \<noteq> 0xfffe"

abbreviation ucs2_bytes :: "ucs4 \<Rightarrow> bytes" where
  "ucs2_bytes wc \<equiv> [to_u8 (drop_bit 8 wc), to_u8 wc]"

definition utf8_bytes :: "ucs4 \<Rightarrow> bytes" where
  "utf8_bytes wc = snd (flk_utf8_wctomb wc 6)"

lemma join_ucs2: "wc < 0x10000 \<Longrightarrow> push_bit 8 (u8 (to_u8 (drop_bit 8 wc))) + u8 (to_u8 wc) = wc"
  by (intro unsigned_word_eqI [where ?'a = nat])
     (simp add: word_less_nat_alt push_bit_eq_mult unat_word_ariths unat_u8 byte_val_to_u8 unat_drop div_mod_decomp less_mult_imp_div_less)

lemma read_ucs2_char:
  "ucs2_char wc \<Longrightarrow> istate cd = 0 \<Longrightarrow> flk_ucs2_mbtowc cd (ucs2_bytes wc @ s) = ((2, wc), cd)"
  by (auto simp: flk_ucs2_mbtowc_def ucs2_char_def join_ucs2 Let_def)

lemma write_ucs2_char: "ucs2_char wc \<Longrightarrow> 2 \<le> n \<Longrightarrow> flk_ucs2_wctomb cd wc n = ((2, ucs2_bytes wc), cd)"
  by (simp add: flk_ucs2_wctomb_def ucs2_char_def)

lemma ucs2_count: "ucs2_char wc \<Longrightarrow> \<exists>c. utf8_count wc = Some c \<and> 1 \<le> c \<and> c \<le> 3"
  by (simp add: utf8_count_def ucs2_char_def)

lemma wctomb_room: "utf8_count wc = Some c \<Longrightarrow> c \<le> n \<Longrightarrow> flk_utf8_wctomb wc n = (int c, utf8_bytes wc)"
  using utf8_roundtrip [of wc c 6 "[]"]
  by (auto simp: flk_utf8_wctomb_def utf8_bytes_def utf8_count_def split: if_splits)

section \<open>Texts without surrogates\<close>

abbreviation ucs2_text :: "ucs4 list \<Rightarrow> bytes" where "ucs2_text ws \<equiv> concat (map ucs2_bytes ws)"
abbreviation utf8_text :: "ucs4 list \<Rightarrow> bytes" where "utf8_text ws \<equiv> concat (map utf8_bytes ws)"

lemma length_ucs2_text: "length (ucs2_text ws) = 2 * length ws"
  by (induction ws) simp_all

lemma utf8_bytes_read:
  assumes "ucs2_char wc"
  shows "\<exists>c. 1 \<le> c \<and> c \<le> 3 \<and> length (utf8_bytes wc) = c \<and> utf8_count wc = Some c \<and>
    (\<forall>s. flk_utf8_mbtowc (utf8_bytes wc @ s) = (int c, wc))"
proof -
  obtain c where c: "utf8_count wc = Some c" "1 \<le> c" "c \<le> 3" using ucs2_count [OF assms] by blast
  have "length (utf8_bytes wc) = c \<and> flk_utf8_mbtowc (utf8_bytes wc @ s) = (int c, wc)" for s
    using utf8_roundtrip [of wc c 6 s] wctomb_room [of wc c 6] c by auto
  then show ?thesis using c by blast
qed

lemma ucs2_to_utf8_loop:
  assumes "\<forall>wc \<in> set ws. ucs2_char wc" "istate cd = 0" "length (utf8_text ws) \<le> n"
  shows "unicode_loop_convert FLK_ICONV_TYPE_UCS2 FLK_ICONV_TYPE_UTF8 cd (ucs2_text ws) out n r =
    Inr (cd, [], out @ utf8_text ws, n - length (utf8_text ws), r)"
  using assms
proof (induction ws arbitrary: out n)
  case Nil
  then show ?case by (simp add: loop_empty)
next
  case (Cons wc ws)
  obtain c where c: "1 \<le> c" "c \<le> 3" "length (utf8_bytes wc) = c" "utf8_count wc = Some c"
    using utf8_bytes_read [of wc] Cons.prems by auto
  have w: "write_wc FLK_ICONV_TYPE_UTF8 cd (int 2) wc n = ((int (length (utf8_bytes wc)), utf8_bytes wc), cd, 0)"
    using wctomb_room [OF c(4), of n] c Cons.prems(3) by (simp add: write_wc_def FLK_ICONV_ERR_INVALID_def)
  have "unicode_loop_convert FLK_ICONV_TYPE_UCS2 FLK_ICONV_TYPE_UTF8 cd (ucs2_text (wc # ws)) out n r =
      unicode_loop_convert FLK_ICONV_TYPE_UCS2 FLK_ICONV_TYPE_UTF8 cd (drop 2 (ucs2_text (wc # ws))) (out @ utf8_bytes wc)
        (n - length (utf8_bytes wc)) r"
    using read_ucs2_char [of wc cd "ucs2_text ws"] Cons.prems c by (intro loop_step [OF _ _ _ w]) simp_all
  also have "drop 2 (ucs2_text (wc # ws)) = ucs2_text ws" by simp
  finally show ?case using Cons by simp
qed

lemma utf8_to_ucs2_loop:
  assumes "\<forall>wc \<in> set ws. ucs2_char wc" "2 * length ws \<le> n"
  shows "unicode_loop_convert FLK_ICONV_TYPE_UTF8 FLK_ICONV_TYPE_UCS2 cd (utf8_text ws) out n r =
    Inr (cd, [], out @ ucs2_text ws, n - 2 * length ws, r)"
  using assms
proof (induction ws arbitrary: out n)
  case Nil
  then show ?case by (simp add: loop_empty)
next
  case (Cons wc ws)
  obtain c where c: "1 \<le> c" "c \<le> 3" "length (utf8_bytes wc) = c"
      "\<forall>s. flk_utf8_mbtowc (utf8_bytes wc @ s) = (int c, wc)"
    using utf8_bytes_read [of wc] Cons.prems by auto
  have w: "write_wc FLK_ICONV_TYPE_UCS2 cd (int c) wc n = ((int (length (ucs2_bytes wc)), ucs2_bytes wc), cd, 0)"
    using write_ucs2_char [of wc n cd] c(2) Cons.prems by (simp add: write_wc_def FLK_ICONV_ERR_INVALID_def)
  have "unicode_loop_convert FLK_ICONV_TYPE_UTF8 FLK_ICONV_TYPE_UCS2 cd (utf8_text (wc # ws)) out n r =
      unicode_loop_convert FLK_ICONV_TYPE_UTF8 FLK_ICONV_TYPE_UCS2 cd (drop c (utf8_text (wc # ws))) (out @ ucs2_bytes wc)
        (n - length (ucs2_bytes wc)) r"
    using c Cons.prems by (intro loop_step [OF _ _ _ w]) auto
  also have "drop c (utf8_text (wc # ws)) = utf8_text ws" using c(3) by simp
  finally show ?case using Cons by simp
qed

text \<open>C37: a text of UCS-2 characters, neither surrogates nor byte order marks, survives the conversion to
  UTF-8 and back: into targets with room for it each direction reports no substitution and the exact
  length, whatever the mixture of one, two and three byte characters.\<close>

theorem iconv_text_roundtrip:
  assumes "ws \<noteq> []" "\<forall>wc \<in> set ws. ucs2_char wc"
    and "int (length (utf8_text ws)) \<le> m" "2 * int (length ws) \<le> k"
  shows "flk_iconv_ucs2_to_utf8 (ucs2_text ws) m = Inr (0, utf8_text ws, int (length (utf8_text ws))) \<and>
    flk_iconv_utf8_to_ucs2 (utf8_text ws) k = Inr (0, ucs2_text ws, 2 * int (length ws))"
proof -
  obtain wc ws' where ws: "ws = wc # ws'" using assms(1) by (cases ws) auto
  then obtain c where "1 \<le> c" "length (utf8_bytes wc) = c" using utf8_bytes_read [of wc] assms(2) by auto
  then have ne: "utf8_text ws \<noteq> []" "ucs2_text ws \<noteq> []" "0 < m" "0 < k"
    using assms(3,4) ws by auto
  have "length (utf8_text ws) \<le> nat m" "2 * length ws \<le> nat k" using assms(3,4) by linarith+
  then show ?thesis
    using ucs2_to_utf8_loop [OF assms(2), of "\<lparr>istate = 0, conv_tb_match_failed = 0\<rparr>" "nat m" "[]" 0]
      utf8_to_ucs2_loop [OF assms(2), of "nat k" "\<lparr>istate = 0, conv_tb_match_failed = 0\<rparr>" "[]" 0] ne
    by (simp add: flk_iconv_ucs2_to_utf8_def flk_iconv_utf8_to_ucs2_def iconv_text_def flk_iconv_def flk_iconv_open_def
        Let_def FLK_ICONV_ERR_INVALID_def del: concat_eq_Nil_conv)
qed

lemma iconv_text_roundtrip_witness:
  "flk_iconv_ucs2_to_utf8 [NUL, CHR 0x41, CHR 0xD5, CHR 0x5C] 8 = Inr (0, [CHR 0x41, CHR 0xED, CHR 0x95, CHR 0x9C], 4)"
proof -
  have u: "ucs2_text [0x41, 0xD55C] = [NUL, CHR 0x41, CHR 0xD5, CHR 0x5C]" by (simp add: to_u8_def char_of_eq_iff)
  have v: "utf8_text [0x41, 0xD55C] = [CHR 0x41, CHR 0xED, CHR 0x95, CHR 0x9C]"
    by (simp add: utf8_bytes_def flk_utf8_wctomb_def utf8_count_def put_3_eq put_1_def cont_byte_def to_u8_def char_of_eq_iff)
  show ?thesis
    using iconv_text_roundtrip [of "[0x41, 0xD55C]" 8 8] unfolding u v by (simp add: ucs2_char_def)
qed

section \<open>Surrogate pairs\<close>

lemma u8_bits: "bit (u8 c) n \<Longrightarrow> n < 8"
proof -
  have "take_bit 8 (u8 c) = u8 c"
    by (rule unsigned_word_eqI [where ?'a = nat]) (simp add: unat_u8 unsigned_take_bit_eq take_bit_nat_eq_self)
  then show "bit (u8 c) n \<Longrightarrow> n < 8" by (metis bit_take_bit_iff)
qed

lemma u8_inj: "u8 x = u8 y \<Longrightarrow> x = y"
  by (metis of_char_eq_iff unat_u8)

lemma memory_of_four_bytes: "memory_of (four_bytes [a, b, c, d]) = [a, b, c, d]"
proof -
  let ?w = "four_bytes [a, b, c, d]"
  have "take_bit 8 ?w = u8 a" "take_bit 8 (drop_bit 8 ?w) = u8 b" "take_bit 8 (drop_bit 16 ?w) = u8 c"
      "take_bit 8 (drop_bit 24 ?w) = u8 d"
    unfolding four_bytes_def
    by (rule bit_word_eqI; auto simp: bit_simps dest: u8_bits)+
  then show ?thesis
    by (auto simp: memory_of_def intro!: u8_inj simp flip: u8_to_u8)
qed

lemma four_bytes_parts:
  "unat (four_bytes [a, b, c, d]) div 16777216 = byte_val d"
  "unat (four_bytes [a, b, c, d]) div 65536 mod 256 = byte_val c"
proof -
  let ?w = "four_bytes [a, b, c, d]"
  have "drop_bit 24 ?w = u8 d" "take_bit 8 (drop_bit 16 ?w) = u8 c"
    unfolding four_bytes_def by (rule bit_word_eqI; auto simp: bit_simps dest: u8_bits)+
  then have "unat (drop_bit 24 ?w) = byte_val d" "unat (take_bit 8 (drop_bit 16 ?w)) = byte_val c"
    by (simp_all add: unat_u8)
  then show "unat ?w div 16777216 = byte_val d" "unat ?w div 65536 mod 256 = byte_val c"
    by (simp_all add: unat_drop unsigned_take_bit_eq take_bit_eq_mod [where ?'a = nat])
qed

lemma surrogate_count:
  assumes "0xdc \<le> byte_val c"
  shows "utf8_count (four_bytes [a, b, c, d]) = (if byte_val d < 4 then Some 5 else if byte_val d < 128 then Some 6 else None)"
proof -
  let ?u = "unat (four_bytes [a, b, c, d])"
  have "220 \<le> ?u div 65536" using four_bytes_parts(2) [of a b c d] assms mod_less_eq_dividend [of "?u div 65536" 256] by simp
  then have "220 * 65536 \<le> ?u" by (simp add: less_eq_div_iff_mult_less_eq)
  moreover have "?u < 67108864 \<longleftrightarrow> byte_val d < 4" "?u \<le> 2147483647 \<longleftrightarrow> byte_val d < 128"
    using four_bytes_parts(1) [of a b c d] by (auto simp flip: less_Suc_eq_le simp: div_less_iff_less_mult)
  ultimately show ?thesis by (simp add: utf8_count_def word_less_nat_alt word_le_nat_alt)
qed

lemma read_surrogates:
  assumes "0xd8 \<le> byte_val a" "byte_val a < 0xe0" "0xdc \<le> byte_val c"
  shows "flk_ucs2_mbtowc \<lparr>istate = 0, conv_tb_match_failed = 0\<rparr> [a, b, c, d] =
    ((4, four_bytes [a, b, c, d]), \<lparr>istate = 0, conv_tb_match_failed = 0\<rparr>)"
proof -
  let ?wc = "push_bit 8 (u8 a) + u8 b"
  have "unat ?wc = 256 * byte_val a + byte_val b"
    using assms(2) byte_val_less [of b]
    by (simp add: push_bit_eq_mult unat_word_ariths unat_u8 del: byte_val_less)
  then have "0xd800 \<le> ?wc" "?wc < 0xe000"
    using assms(1,2) byte_val_less [of b] by (simp_all add: word_less_nat_alt word_le_nat_alt del: byte_val_less)
  moreover from this have "?wc \<noteq> 0xfeff" "?wc \<noteq> 0xfffe" by (auto simp: word_less_nat_alt)
  moreover have "0xdc \<le> u8 c" using assms(3) by (simp add: word_le_nat_alt unat_u8)
  ultimately show ?thesis by (simp add: flk_ucs2_mbtowc_def Let_def)
qed

lemma loop_one:
  assumes "xxx_mbtowc src cd inp = ((int (length inp), wc), cd1)" "inp \<noteq> []"
    and "write_wc dst cd1 (int (length inp)) wc n = ((int (length bs), bs), cd2, 0)" "length bs \<le> n" "0 < n"
  shows "unicode_loop_convert src dst cd inp [] n 0 = Inr (cd2, [], bs, n - length bs, 0)"
  using loop_step [OF assms(1,2) order_refl assms(3-5), of "[]" 0] by (simp add: loop_empty)

lemma iconv_one:
  assumes "src \<noteq> dst" "inp \<noteq> []" "int (length bs) \<le> m" "0 < m"
    and "xxx_mbtowc src \<lparr>istate = 0, conv_tb_match_failed = 0\<rparr> inp = ((int (length inp), wc), cd1)"
    and "write_wc dst cd1 (int (length inp)) wc (nat m) = ((int (length bs), bs), cd2, 0)"
  shows "iconv_text src dst inp m = Inr (if conv_tb_match_failed cd2 \<noteq> 0 then -3 else 0, bs, int (length bs))"
proof -
  have "length bs \<le> nat m" "0 < nat m" using assms(3,4) by linarith+
  then show ?thesis
    using loop_one [OF assms(5,2,6)] assms(1,2,4)
    by (simp add: iconv_text_def flk_iconv_open_def flk_iconv_def FLK_ICONV_ERR_INVALID_def
        FLK_ICONV_WARN_TB_NOT_MATCH_def)
qed

text \<open>What the way back makes of the five or six bytes, and of the question mark.\<close>

lemma back_five:
  assumes "utf8_count (four_bytes [a, b, c, d]) = Some 5" "4 \<le> k" "5 \<le> n"
  shows "\<exists>t. flk_utf8_wctomb (four_bytes [a, b, c, d]) n = (5, t) \<and> length t = 5 \<and>
    flk_iconv_utf8_to_ucs2 t k = Inr (0, [a, b, c, d], 4)"
proof -
  let ?wc = "four_bytes [a, b, c, d]" and ?cd = "\<lparr>istate = 0, conv_tb_match_failed = 0\<rparr>"
  obtain t where t: "flk_utf8_wctomb ?wc n = (int 5, t)" "length t = 5" "flk_utf8_mbtowc t = (int 5, ?wc)"
    using utf8_roundtrip [of ?wc 5 n "[]"] assms by auto
  then have "flk_iconv_utf8_to_ucs2 t k = Inr (0, [a, b, c, d], 4)"
    using iconv_one [of FLK_ICONV_TYPE_UTF8 FLK_ICONV_TYPE_UCS2 t "[a, b, c, d]" k ?wc ?cd ?cd] assms(2)
    by (force simp: write_wc_def memory_of_four_bytes flk_iconv_utf8_to_ucs2_def)
  then show ?thesis using t by auto
qed

lemma back_six:
  assumes "utf8_count wc = Some 6" "4 \<le> k" "6 \<le> n"
  shows "\<exists>t. flk_utf8_wctomb wc n = (6, t) \<and> length t = 6 \<and>
    flk_iconv_utf8_to_ucs2 t k = Inr (-3, [NUL, CHR ''?''], 2)"
proof -
  let ?cd = "\<lparr>istate = 0, conv_tb_match_failed = 0\<rparr>" and ?cd1 = "\<lparr>istate = 0, conv_tb_match_failed = 1\<rparr>"
  obtain t where t: "flk_utf8_wctomb wc n = (int 6, t)" "length t = 6" "flk_utf8_mbtowc t = (int 6, wc)"
    using utf8_roundtrip [of wc 6 n "[]"] assms by auto
  have "\<not> wc < 0x10000" using assms(1) by (auto simp: utf8_count_def split: if_splits)
  then have "flk_ucs2_wctomb ?cd wc (nat k) = ((2, [NUL, CHR ''?'']), ?cd1)"
    using assms(2) by (simp add: flk_ucs2_wctomb_def Let_def)
  then have "flk_iconv_utf8_to_ucs2 t k = Inr (-3, [NUL, CHR ''?''], 2)"
    using iconv_one [of FLK_ICONV_TYPE_UTF8 FLK_ICONV_TYPE_UCS2 t "[NUL, CHR ''?'']" k wc ?cd ?cd1] t assms(2)
    by (force simp: write_wc_def FLK_ICONV_ERR_INVALID_def flk_iconv_utf8_to_ucs2_def)
  then show ?thesis using t by auto
qed

lemma back_question: "4 \<le> k \<Longrightarrow> flk_iconv_utf8_to_ucs2 ''?'' k = Inr (0, [NUL, CHR ''?''], 2)"
  using iconv_one [of FLK_ICONV_TYPE_UTF8 FLK_ICONV_TYPE_UCS2 "''?''" "[NUL, CHR ''?'']" k "0x3f"
      "\<lparr>istate = 0, conv_tb_match_failed = 0\<rparr>" "\<lparr>istate = 0, conv_tb_match_failed = 0\<rparr>"]
  by (simp add: flk_utf8_mbtowc_def u8_def write_wc_def FLK_ICONV_ERR_INVALID_def flk_iconv_utf8_to_ucs2_def
      flk_ucs2_wctomb_def to_u8_def char_of_eq_iff)

text \<open>C38: surrogate pairs. A character beyond the BMP is not encoded: its four bytes, as they lie in memory,
  are taken for a character of up to 32 bits. Only if the last byte is below 4 is the result five bytes
  long, which the way back takes for those four bytes, so the pair survives; up to 0x7f it is six bytes
  that come back as a question mark with a warning, and above that the pair is a question mark at once,
  with nothing reported in either direction.\<close>

theorem surrogate_pair_conversion:
  assumes "0xd8 \<le> byte_val a" "byte_val a < 0xe0" "0xdc \<le> byte_val c" "6 \<le> m" "4 \<le> k"
  shows "\<exists>t. flk_iconv_ucs2_to_utf8 [a, b, c, d] m = Inr (0, t, int (length t)) \<and>
    length t = (if byte_val d < 4 then 5 else if byte_val d < 128 then 6 else 1) \<and>
    flk_iconv_utf8_to_ucs2 t k =
      (if byte_val d < 4 then Inr (0, [a, b, c, d], 4)
       else Inr (if byte_val d < 128 then -3 else 0, [NUL, CHR ''?''], 2))"
proof -
  let ?wc = "four_bytes [a, b, c, d]" and ?cd = "\<lparr>istate = 0, conv_tb_match_failed = 0\<rparr>"
  have there: "flk_iconv_ucs2_to_utf8 [a, b, c, d] m = Inr (0, bs, int (length bs))"
    if "flk_utf8_wctomb ?wc (nat m) = (int (length bs), bs)" "length bs \<le> 6" for bs
    using iconv_one [of FLK_ICONV_TYPE_UCS2 FLK_ICONV_TYPE_UTF8 "[a, b, c, d]" bs m ?wc ?cd ?cd]
      read_surrogates [OF assms(1-3), of b d] that assms(4)
    by (simp add: write_wc_def FLK_ICONV_ERR_INVALID_def flk_iconv_ucs2_to_utf8_def)
  have count: "utf8_count ?wc = (if byte_val d < 4 then Some 5 else if byte_val d < 128 then Some 6 else None)"
    using surrogate_count [OF assms(3)] by simp
  have room: "5 \<le> nat m" "6 \<le> nat m" using assms(4) by linarith+
  consider (low) "byte_val d < 4" | (middle) "4 \<le> byte_val d" "byte_val d < 128" | (high) "128 \<le> byte_val d" by linarith
  then show ?thesis
  proof cases
    case low
    then obtain t where "flk_utf8_wctomb ?wc (nat m) = (5, t)" "length t = 5" "flk_iconv_utf8_to_ucs2 t k = Inr (0, [a, b, c, d], 4)"
      using back_five [OF _ assms(5) room(1)] count by (metis (full_types))
    then show ?thesis using there [of t] low by (intro exI [of _ t]) simp
  next
    case middle
    then obtain t where "flk_utf8_wctomb ?wc (nat m) = (6, t)" "length t = 6"
        "flk_iconv_utf8_to_ucs2 t k = Inr (-3, [NUL, CHR ''?''], 2)"
      using back_six [OF _ assms(5) room(2), of ?wc] count by auto
    then show ?thesis using there [of t] middle by (intro exI [of _ t]) simp
  next
    case high
    then have "flk_utf8_wctomb ?wc (nat m) = (1, ''?'')" using count by (simp add: flk_utf8_wctomb_def)
    then show ?thesis using there [of "''?''"] back_question [OF assms(5)] high by (intro exI [of _ "''?''"]) simp
  qed
qed

lemma surrogate_pair_conversion_witness:
  "\<exists>t. flk_iconv_ucs2_to_utf8 [CHR 0xD8, CHR 0x3D, CHR 0xDE, CHR 0x04] 512 = Inr (0, t, 6) \<and>
     flk_iconv_utf8_to_ucs2 t 512 = Inr (-3, [NUL, CHR ''?''], 2)"
  using surrogate_pair_conversion [of "CHR 0xD8" "CHR 0xDE" 512 512 "CHR 0x3D" "CHR 0x04"] by auto

section \<open>The room of the target\<close>

lemma wctomb_bytes:
  "xxx_wctomb dst cd wc n = ((oc, bs), cd') \<Longrightarrow> oc = int (length bs) \<and> 1 \<le> length bs \<and> (1 \<le> n \<longrightarrow> length bs \<le> n)"
  by (cases dst)
    (auto simp: flk_ucs2_wctomb_def flk_utf8_wctomb_def utf8_count_def length_puts Let_def split: if_splits option.splits)

lemma write_wc_bytes:
  assumes "write_wc dst cd i wc n = ((oc, bs), cd', k)" "1 \<le> n"
  shows "oc = int (length bs) \<and> 1 \<le> length bs \<and> (i \<noteq> 5 \<longrightarrow> length bs \<le> n)"
proof (cases "i = 5")
  case True
  then show ?thesis using assms by (auto simp: write_wc_def memory_of_def)
next
  case False
  obtain oc1 bs1 cd1 where w: "xxx_wctomb dst cd wc n = ((oc1, bs1), cd1)" by (metis surj_pair)
  then have "oc1 \<noteq> FLK_ICONV_ERR_INVALID" using wctomb_bytes [OF w] by (simp add: FLK_ICONV_ERR_INVALID_def)
  then have "oc1 = oc" "bs1 = bs" using assms(1) w False by (simp_all add: write_wc_def)
  then show ?thesis using wctomb_bytes [OF w] assms(2) by simp
qed

text \<open>A count of five is read only behind a byte that starts five or six.\<close>

lemma ucs2_count_even: "even count \<Longrightarrow> fst (fst (ucs2_loop org state count s cd)) \<noteq> 5"
  by (induction org state count s cd rule: ucs2_loop.induct) (auto simp: Let_def)

lemma read_five:
  assumes "xxx_mbtowc src cd s = ((5, wc), cd')"
  shows "src = FLK_ICONV_TYPE_UTF8 \<and> 0xf8 \<le> byte_val (s ! 0) \<and> byte_val (s ! 0) < 0xfe"
proof (cases src)
  case FLK_ICONV_TYPE_UCS2
  then show ?thesis using assms ucs2_count_even [of 0 s "istate cd" s cd] by (simp add: flk_ucs2_mbtowc_def)
next
  case FLK_ICONV_TYPE_UTF8
  then show ?thesis using assms
    by (auto simp: flk_utf8_mbtowc_def Let_def word_less_nat_alt unat_u8 split: if_splits)
qed

text \<open>The bytes that could start a character of five or six bytes.\<close>

definition long_lead :: "byte \<Rightarrow> bool" where
  "long_lead c \<longleftrightarrow> 0xf8 \<le> byte_val c \<and> byte_val c < 0xfe"

text \<open>One round of the conversion loop, and what the loop can do with it.\<close>

lemma loop_round:
  assumes "inp \<noteq> []" "n \<noteq> 0"
  obtains (overrun) "src = FLK_ICONV_TYPE_UTF8" "long_lead (inp ! 0)"
      "unicode_loop_convert src dst cd inp out n r = Inl (Undefined_behaviour ''out-of-bounds write'')"
    | (short) cd' rest bs r' where "length bs \<le> n"
      "unicode_loop_convert src dst cd inp out n r = Inr (cd', rest, out @ bs, n - length bs, r')"
    | (more) cd' i bs r' where "0 < i" "length bs \<le> n"
      "unicode_loop_convert src dst cd inp out n r = unicode_loop_convert src dst cd' (drop i inp) (out @ bs) (n - length bs) r'"
proof -
  obtain i wc cd1 where m: "xxx_mbtowc src cd inp = ((i, wc), cd1)" by (metis surj_pair)
  then have i: "0 < i" using mbtowc_counts assms(1) by metis
  obtain oc bs cd2 k where w: "write_wc dst cd1 i wc n = ((oc, bs), cd2, k)" by (metis surj_pair)
  have b: "oc = int (length bs)" "i \<noteq> 5 \<longrightarrow> length bs \<le> n" using write_wc_bytes [OF w] assms(2) by auto
  note loop = unicode_loop_convert.simps [of src dst cd inp]
  show thesis
  proof (cases "n < length bs")
    case True
    then have "src = FLK_ICONV_TYPE_UTF8 \<and> long_lead (inp ! 0)"
      using b read_five m by (auto simp: long_lead_def)
    moreover have "unicode_loop_convert src dst cd inp out n r = Inl (Undefined_behaviour ''out-of-bounds write'')"
      using m w assms i True by (simp add: loop)
    ultimately show thesis by (intro overrun) simp_all
  next
    case fits: False
    show thesis
    proof (cases "int (length inp) < i")
      case True
      then show thesis using m w assms i fits b by (intro short [of bs]) (simp_all add: loop)
    next
      case False
      then show thesis using m w assms i fits b by (intro more [of "nat i" bs cd2 "r + k"]) (simp_all add: loop)
    qed
  qed
qed

lemma loop_room:
  "case unicode_loop_convert src dst cd inp out n r of
     Inr (cd', rest, out', n', r') \<Rightarrow> length out' + n' = length out + n
   | Inl e \<Rightarrow> src = FLK_ICONV_TYPE_UTF8 \<and> (\<exists>c \<in> set inp. long_lead c)"
proof (induction "length inp" arbitrary: cd inp out n r rule: less_induct)
  case less
  show ?case
  proof (cases "inp = [] \<or> n = 0")
    case True
    then show ?thesis by (auto simp: unicode_loop_convert.simps [of src dst cd inp] split: prod.splits)
  next
    case False
    then have "inp \<noteq> []" "n \<noteq> 0" by simp_all
    then show ?thesis
    proof (cases rule: loop_round [where src = src and dst = dst and cd = cd and out = out and r = r])
      case overrun
      moreover have "inp ! 0 \<in> set inp" using False by simp
      ultimately show ?thesis by auto
    next
      case (more cd' i bs r')
      then show ?thesis
        using less.hyps [where inp = "drop i inp" and cd = cd' and out = "out @ bs" and n = "n - length bs" and r = r'] False
        by (auto split: sum.splits dest: in_set_dropD)
    qed simp
  qed
qed

text \<open>The same of the conversion of a whole text, which gives its target 512 bytes when it is told no length.\<close>

lemma iconv_text_room:
  assumes "src \<noteq> dst"
  shows "case iconv_text src dst org m of
      Inr (ret, out, k) \<Rightarrow> k = (if org = [] then m else int (length out)) \<and> length out \<le> (if org = [] then 0 else if m \<le> 0 then 512 else nat m)
    | Inl e \<Rightarrow> src = FLK_ICONV_TYPE_UTF8 \<and> (\<exists>c \<in> set org. long_lead c)"
proof (cases "org = []")
  case False
  define n where "n = (if m \<le> 0 then 512 else nat m)"
  let ?cd = "\<lparr>istate = 0, conv_tb_match_failed = 0\<rparr>"
  have "iconv_text src dst org m = (case unicode_loop_convert src dst ?cd org [] n 0 of Inl e \<Rightarrow> Inl e
      | Inr (cd, rest, out, outleft, result) \<Rightarrow>
         Inr (if conv_tb_match_failed cd \<noteq> 0 then -3 else int result, out, int (n - outleft)))"
    using False assms by (auto simp: n_def iconv_text_def flk_iconv_open_def flk_iconv_def FLK_ICONV_ERR_INVALID_def
        FLK_ICONV_WARN_TB_NOT_MATCH_def Let_def split: sum.split)
  then show ?thesis
    using loop_room [where src = src and dst = dst and cd = ?cd and inp = org and out = "[]" and n = n and r = 0] False
    unfolding n_def [symmetric] by (auto split: sum.splits)
qed (simp add: iconv_text_def)

text \<open>C39: what is written to the target. The conversion to UTF-8 always returns. For an empty source it writes
  nothing and leaves the length as it is. Otherwise it reports exactly what it wrote, which is no more than a
  positive length it was given, but up to 512 bytes when the length is not positive: a length of zero does not
  keep it from writing. The conversion to UCS-2 does the same, unless the text holds a byte from 0xf8 to
  0xfd: such a byte can make it copy four bytes into a target with less room, past its end.\<close>

theorem iconv_target_bounds:
  "(\<exists>ret out. flk_iconv_ucs2_to_utf8 org m = Inr (ret, out, if org = [] then m else int (length out)) \<and>
      length out \<le> (if org = [] then 0 else if m \<le> 0 then 512 else nat m)) \<and>
   (case flk_iconv_utf8_to_ucs2 org m of
      Inr (ret, out, k) \<Rightarrow> k = (if org = [] then m else int (length out)) \<and> length out \<le> (if org = [] then 0 else if m \<le> 0 then 512 else nat m)
    | Inl e \<Rightarrow> \<exists>c \<in> set org. long_lead c) \<and>
   (\<exists>ret. flk_iconv_ucs2_to_utf8 [NUL, CHR ''a''] 0 = Inr (ret, ''a'', 1)) \<and>
   flk_iconv_utf8_to_ucs2 [CHR 0xF8, CHR 0x88, CHR 0x80, CHR 0x80, CHR 0x80] 2 =
     Inl (Undefined_behaviour ''out-of-bounds write'')"
proof (intro conjI)
  show "\<exists>ret out. flk_iconv_ucs2_to_utf8 org m = Inr (ret, out, if org = [] then m else int (length out)) \<and>
      length out \<le> (if org = [] then 0 else if m \<le> 0 then 512 else nat m)"
  proof (cases "iconv_text FLK_ICONV_TYPE_UCS2 FLK_ICONV_TYPE_UTF8 org m")
    case (Inr x)
    then show "\<exists>ret out. flk_iconv_ucs2_to_utf8 org m = Inr (ret, out, if org = [] then m else int (length out)) \<and>
        length out \<le> (if org = [] then 0 else if m \<le> 0 then 512 else nat m)"
      using iconv_text_room [of FLK_ICONV_TYPE_UCS2 FLK_ICONV_TYPE_UTF8 org m]
      by (intro exI [of _ "fst x"] exI [of _ "fst (snd x)"]) (auto simp: flk_iconv_ucs2_to_utf8_def)
  qed (use iconv_text_room [of FLK_ICONV_TYPE_UCS2 FLK_ICONV_TYPE_UTF8 org m] in simp)
  show "case flk_iconv_utf8_to_ucs2 org m of
      Inr (ret, out, k) \<Rightarrow> k = (if org = [] then m else int (length out)) \<and> length out \<le> (if org = [] then 0 else if m \<le> 0 then 512 else nat m)
    | Inl e \<Rightarrow> \<exists>c \<in> set org. long_lead c"
    using iconv_text_room [of FLK_ICONV_TYPE_UTF8 FLK_ICONV_TYPE_UCS2 org m]
    by (simp only: flk_iconv_utf8_to_ucs2_def simp_thms flk_iconv_type.distinct not_False_eq_True)
  show "\<exists>ret. flk_iconv_ucs2_to_utf8 [NUL, CHR ''a''] 0 = Inr (ret, ''a'', 1)"
    by (simp add: flk_iconv_ucs2_to_utf8_def iconv_text_def flk_iconv_open_def flk_iconv_def
        unicode_loop_convert.simps u8_def to_u8_def FLK_ICONV_ERR_INVALID_def flk_ucs2_mbtowc_def flk_utf8_wctomb_def utf8_count_def put_1_def write_wc_def memory_of_def Let_def, use byte_of_val [of "CHR ''a''"] in simp)
  have "flk_utf8_mbtowc [CHR 0xF8, CHR 0x88, CHR 0x80, CHR 0x80, CHR 0x80] = (5, 0x200000)"
    by (simp add: flk_utf8_mbtowc_def u8_def payload_def is_cont_def)
  then show "flk_iconv_utf8_to_ucs2 [CHR 0xF8, CHR 0x88, CHR 0x80, CHR 0x80, CHR 0x80] 2 =
     Inl (Undefined_behaviour ''out-of-bounds write'')"
    by (simp add: flk_iconv_utf8_to_ucs2_def iconv_text_def flk_iconv_open_def flk_iconv_def
        unicode_loop_convert.simps [of _ _ _ "[CHR 0xF8, CHR 0x88, CHR 0x80, CHR 0x80, CHR 0x80]"]
        write_wc_def memory_of_def)
qed

lemma iconv_target_bounds_witness:
  "length (case flk_iconv_utf8_to_ucs2 ''abc'' 4 of Inr (ret, out, k) \<Rightarrow> out | Inl e \<Rightarrow> []) \<le> 4"
  using iconv_target_bounds [of "''abc''" 4] by (auto split: sum.split)

end
