(* ===== verification/Spec2Isabelle.thy ===== *)
theory Spec2Isabelle
  imports Packets Registration_Run Zmq_Monitor Zmq_Client Configuration Logging Health_Check Flk_Iconv
begin

text \<open>
  Verification library of the NUMS messaging program (\<^verbatim>\<open>src/cpp\<close>): a gateway that takes
  registration requests as JSON from ZeroMQ clients, sends them to a message centre (the SMSC) in a
  fixed-width frame format over TCP, and answers the clients with the results. File names below are relative
  to \<^verbatim>\<open>src/cpp\<close>.

  \<^bold>\<open>The program.\<close> A client (\<^verbatim>\<open>lib/zclient\<close>) writes a request as JSON text and sends it through a
  ZeroMQ REQ socket. The server thread (\<^verbatim>\<open>lib/zserver\<close>) parses it into a \<open>Packet\<close>, pushes that to the
  queue \<open>outq_\<close>, waits up to a second for something in the queue \<open>inq_\<close>, and answers with that. The worker
  thread (\<^verbatim>\<open>lib/numsworker\<close>) connects to the SMSC, takes a packet from \<open>outq_\<close> or makes a link check, sends
  it, reads frames until one is an answer, and pushes that to \<open>inq_\<close>. Both threads are started by
  \<^verbatim>\<open>program/newbee/main.cpp\<close> and share the two queues and one atomic counter of sequence numbers; a
  connection monitor counts the events of the socket, and a log level checker polls the configuration file.

  \<^bold>\<open>Conventions.\<close> Definitions keep the names of the code. An object is a record, passed in and returned
  updated; a byte is a \<open>char\<close>, an \<open>std::array\<close> a list of its length (the \<open>_wf\<close> predicates say so). A
  call that throws, asserts or has undefined behaviour returns \<open>Inl\<close> of a \<open>cxx_error\<close> in the
  \<open>result\<close> type, or \<open>Throws\<close> in the type \<open>run\<close>, where not returning is the value \<open>Hangs\<close>. Machine integers that can
  wrap are words, and an \<open>int\<close> that can leave its range is checked at every step; a \<open>double\<close> is its 64 bits. The operating system, the ZeroMQ library and the contents of files are arguments: the
  scripts of \<open>tcp\<close> say what each system call will do, in any segmentation and with any errors.

  \<^bold>\<open>Theories, and what their lemmas show.\<close>

  \<^item> \<open>Prelude\<close>: bytes, failures as values and the binds over them, \<open>memcpy\<close> into and out of fixed arrays,
    NUL-padded text. \<open>Cxx_Strings\<close>: \<open>to_string\<close>, \<open>to_chars\<close>, \<open>stoul\<close>, \<open>stoi\<close>, and that they invert each other.
    \<open>Cxx_Double\<close>: binary64 numbers and \<open>strtod\<close> (the nearest one, ties to even).
  \<^item> \<open>Codec\<close>: the locale \<open>frame_codec\<close>, the contract of a frame of fixed size. Its lemmas (round trip, the bytes
    behind a frame are kept, layouts are injective) are proved once. \<open>Frames\<close>
    (\<^verbatim>\<open>newbee/dataElement\<close>, \<^verbatim>\<open>nums_constants.hpp\<close>) models \<open>Header\<close>, \<open>sn_reginfo_body\<close> and
    \<open>result_body\<close> and interprets the locale for each (\<open>hdr\<close>, \<open>snb\<close>, \<open>rsb\<close>); the properties of single frames and of the
    sequence stamp are there.
  \<^item> \<open>Json_Value\<close>, \<open>Json_Lexer\<close>, \<open>Json_Scan\<close>, \<open>Json_Parser\<close>, \<open>Json_Dump\<close>: the parts of
    \<^verbatim>\<open>nlohmann/json.hpp\<close> the program runs, function by function: element access, the lexer with its number
    automaton, the parser with its explicit stack and the handler that builds the document through references,
    the serializer with its UTF-8 table and 512-byte buffer. \<open>Json_Utf8\<close> proves the table a decoder for the UTF-8 ranges and
    escaping a map over bytes; \<open>Json_Tokens\<close> reads each kind of token back; \<open>Json_Roundtrip\<close> proves parsing the inverse of
    writing inside the locale \<open>json_layout\<close> (any way of spacing a document and of escaping its strings), which
    \<open>compact_layout\<close> (the serializer) and \<open>pretty_layout\<close> (the client's writer) interpret. \<open>Json_Rejects\<close> extends it
    to \<open>ascii_layout\<close>, in which a string that is no UTF-8 is always refused.
  \<^item> \<open>Json_Dtoa\<close>: how the same library writes a floating point number, the Grisu2 algorithm on 64-bit words with its table
    of powers of ten and the layouts of the text. \<open>Json_Dtoa_Arith\<close>, \<open>Json_Dtoa_Powers\<close>, \<open>Json_Dtoa_Bounds\<close>,
    \<open>Json_Dtoa_Digits\<close>, \<open>Json_Dtoa_Correct\<close> prove it in that order: products are exact up to their rounding, the
    table is within half a unit, the bounds are the midpoints to the neighbours, the digits stay between them, and so does the number.
    \<open>Json_Float_Text\<close> concludes that \<open>strtod\<close> reads the text back bit for bit, and \<open>Json_Float_Tokens\<close>
    that the lexer takes it as one number.
  \<^item> \<open>Packets\<close> (\<^verbatim>\<open>newbee/dataPacket.hpp\<close>): packets from JSON, from a type, to the wire and to JSON.
  \<^item> \<open>Queues\<close> (\<^verbatim>\<open>zserver/ThreadSafeQueue.hpp\<close>, \<^verbatim>\<open>Queue.hpp\<close>): the locale \<open>fifo_queue\<close>,
    interpreted for both classes (\<open>tsq\<close>, \<open>dq\<close>); the threads at a \<open>ThreadSafeQueue\<close> as a step
    relation (\<open>tsq_step\<close>) with the invariant that no wake-up is lost. \<open>timed_pop\<close> is a whole bounded call as its caller sees it. \<open>Tcp\<close>
    (\<^verbatim>\<open>TcpClient.cpp\<close>): reading exactly so many bytes and sending all of them, over any script.
  \<^item> \<open>Numsworker\<close>, \<open>Worker_Rounds\<close> (\<^verbatim>\<open>numsworker.cpp\<close>): the rounds of the worker. \<open>answer_of\<close> says what the
    receive loop makes of a stream of bytes and the loop is proved to refine it; its termination, the packets it leaves in \<open>outq_\<close>,
    the descriptors it leaks, the crashes of its retry and of its acknowledgements.
  \<^item> \<open>Zmq_Server\<close> (\<^verbatim>\<open>zmq_server.cpp\<close> and the wrappers of \<^verbatim>\<open>zmq.hpp\<close>): the rounds of the server over any
    socket; \<open>rep_socket\<close> is the documented alternation of a reply socket, a hypothesis where it is needed,
    and \<open>script_recv\<close>, \<open>script_send\<close> an instance. \<open>Zmq_Monitor\<close> (\<^verbatim>\<open>zmq_monitor.hpp\<close>): the counters.
  \<^item> \<open>System\<close>, \<open>Registration_Run\<close> (\<^verbatim>\<open>program/newbee/main.cpp\<close>): the process as the step relation
    \<open>sys_step\<close>, an interleaving of the parts of both threads' rounds; \<open>runs\<close> are its finite runs with a log of
    events. Invariants over all runs: answers are handed out in order and conserved, registrations are taken once and
    in order, all packets are well typed, sequence numbers increase, and a request left without a reply ends the service. Two
    families of runs from a client's text to the text it gets: the registration as it should be, and the
    one that is answered with something else.
  \<^item> \<open>Zmq_Client\<close> (\<^verbatim>\<open>zmq_client.cpp\<close>), \<open>Rapidjson_Itoa\<close>, \<open>Rapidjson_Writer\<close>
    (\<^verbatim>\<open>rapidjson/internal/itoa.h\<close>, \<^verbatim>\<open>writer.h\<close>, \<^verbatim>\<open>prettywriter.h\<close>): the request the client writes is the one
    the server parses, for every input that is UTF-8 after it was cut to the fields; if not, the server dies of it.
  \<^item> \<open>Configuration\<close> (\<^verbatim>\<open>configuration.cpp\<close> and the conversions of \<^verbatim>\<open>toml.hpp\<close>), \<open>Logging\<close>
    (\<^verbatim>\<open>loglevel_checker.cpp\<close>, the calculators of log file names): getters with defaults, reload by time stamp, the log
    level in force, names that are unique.
  \<^item> \<open>Health_Check\<close> (\<^verbatim>\<open>newbee/send_link.cpp\<close>): the link check with a connection of its own.
  \<^item> \<open>Flk_Codecs\<close>, \<open>Flk_Iconv\<close> (\<^verbatim>\<open>lib/FlkIconv\<close>): the UTF-8 and UCS-2 codecs and the conversion loop
    between them: round trip of texts without surrogates and byte order marks, what becomes of surrogate
    pairs, and what is written to the target.

  \<^bold>\<open>Steps and bounds.\<close> What runs under the mutex of a queue is one step; what other threads
    push while an operation waits is an argument of the round (\<open>arrivals\<close>), or the steps of the other thread in \<open>sys_step\<close>,
    where a wait is the step that ends it. There both rounds are cut so that a step holds at most one access to
    what the threads share, the two queues and the atomic counter: taking a number and pushing the packet that carries it
    are two steps, so are the end of an empty wait and the number of the link check, and reading the last frame
    and pushing the answer; the one exception is \<open>recvMsg (0ms)\<close>, a parameter, which is part of the step \<open>Connect\<close> whatever it
    queues. Clocks are not modelled: a time limit may end at any step. A stop request ends a wait like its time limit does, and a thread
    that has seen it takes no further step; runs may end anywhere, so what holds of all runs holds with it. A step that would end
    the process or never return does not exist, so the invariants are about runs up to that point; what ends it is stated
    on the rounds. Loops are structural or have a measure: what is left to arrive (\<open>rx_size\<close>) for reading, the unread bytes for the lexer and the parser. \<open>recvMsg_within\<close> is the receive loop with fuel:
    one round for every 24 bytes that can be received and one more are enough. The connect loop
    (\<open>connect_until\<close>) may not end and is a partial function. A script that ends stands for a peer that stays silent, or a server that
    stays away.

  \<^bold>\<open>Not modelled.\<close> Text written to logs and to the terminal; \<open>recvMsg (0ms)\<close>, which is called but defined
  nowhere, is an argument (\<open>reads_only\<close>, \<open>reads_quietly\<close> say what is asked of it, \<open>nothing_yet\<close> is an
  instance); the signal \<open>SIGPIPE\<close>. The TOML parser (the table is an argument), the binary formats, pointers, patches and iterators of the
  JSON library, the reader, the DOM and the floating point numbers of RapidJSON, spdlog and Boost beyond the functions named above are third-party
  code the program does not depend on for its logic. The EUC-KR and CP949 codecs of FlkIconv are some six thousand lines of
  tables. The libraries for telephony (SimMap, mapDmaqi, diameter, mdbCommonLib) and the C utilities (SimCommon, Debug, gwlib,
  flk_dbm) are linked with no program of the tree and depend on headers that are not in it; the programs beside newbee, zserver and
  zclient are exercises of a few lines. The manifest lists each with its reason.
\<close>

end
